(* ===== verification/Minnow_Prelude.thy ===== *)
theory Minnow_Prelude
  imports Main "HOL-Library.Word"
begin

text \<open>
  Shared vocabulary of the minnow TCP/IP stack model: the machine-integer types of
  the C++ sources, the fact collections the component theories fill, and generic
  lemmas on words, integers, lists and maps that several components use.
\<close>

unbundle bit_operations_syntax

section \<open>Machine types\<close>

type_synonym u8 = "8 word"
type_synonym u16 = "16 word"
type_synonym u32 = "32 word"
type_synonym u64 = "64 word"

text \<open>A 48-bit Ethernet address and a numeric IPv4 address (\<open>Address::ipv4_numeric\<close>).\<close>

type_synonym eth_addr = "48 word"
type_synonym ipv4_num = "32 word"

section \<open>Fact collections\<close>

named_theorems word_to_nat
  "rules that read a word operation of the model as an operation on unat"

named_theorems wf_preserved
  "each operation of a component keeps that component's well-formedness invariant"

section \<open>Words\<close>

lemma unat_lt2p [word_to_nat]: "unat (w :: 'a::len word) < 2 ^ LENGTH('a)"
  by simp

lemma unat_u32_lt [word_to_nat]: "unat (w :: u32) < 2 ^ 32"
  using unat_lt2p[of w] by simp

lemma unat_ucast_32_64 [word_to_nat]: "unat (ucast (x :: u32) :: u64) = unat x"
  using unat_u32_lt[of x] by (simp add: unsigned_ucast_eq take_bit_nat_eq_self_iff)

lemma unat_ucast_64_32 [word_to_nat]: "unat (ucast (n :: u64) :: u32) = unat n mod 2 ^ 32"
  by (simp add: unsigned_ucast_eq take_bit_eq_mod)

section \<open>Integers\<close>

lemma int_sign_cases:
  obtains "(k::int) = 0" | "1 \<le> k" | "k \<le> -1"
  by linarith

section \<open>Lists\<close>

text \<open>Total length of a list of strings, the byte count of a queue of buffers.\<close>

abbreviation total_len :: "'a list list \<Rightarrow> nat" where
  "total_len xss \<equiv> sum_list (map length xss)"

lemma map_upt_split:
  assumes "a \<le> b" "b \<le> c"
  shows "map f [a..<b] @ map f [b..<c] = map f [a..<c]"
proof -
  have "[a..<c] = [a..<b] @ [b..<c]"
    using upt_add_eq_append[OF assms(1), of "c - b"] assms(2) by simp
  then show ?thesis by simp
qed

end
