(* ===== verification/TCP_Messages.thy ===== *)
theory TCP_Messages
  imports Minnow_Prelude
begin

text \<open>
  The TCP segments exchanged by sender and receiver, as section 6 of the spec gives
  them (their codecs are outside \<open>src/\<close>): \<open>TCPSenderMessage\<close> travels from a sender to
  the peer's receiver, \<open>TCPReceiverMessage\<close> back. \<open>sequence_length\<close> counts SYN and FIN
  as one sequence number each.
\<close>

record tcp_sender_message =
  seqno :: u32
  SYN :: bool
  payload :: string
  FIN :: bool
  RST :: bool

record tcp_receiver_message =
  ackno :: "u32 option"
  window_size :: u16
  ack_RST :: bool

definition sequence_length :: "tcp_sender_message \<Rightarrow> nat" where
  "sequence_length m = (if SYN m then 1 else 0) + length (payload m) + (if FIN m then 1 else 0)"

end
