(* ===== verification/Wrapping_Integers.thy ===== *)
theory Wrapping_Integers
  imports Minnow_Prelude
begin

text \<open>
  \<open>Wrap32\<close> of \<open>src/wrapping_integers.cc\<close>: 32-bit sequence numbers and their
  translation to and from 64-bit absolute sequence numbers. \<open>wrap\<close> adds the low
  32 bits of the absolute number to the zero point; \<open>unwrap\<close> picks, among the 64-bit
  numbers with the right low 32 bits, the one closest to a checkpoint. Everything is
  computed on \<open>32 word\<close> and \<open>64 word\<close> exactly as the C++ does.
\<close>

section \<open>Definitions\<close>

type_synonym wrap32 = u32

definition wrap :: "u64 \<Rightarrow> wrap32 \<Rightarrow> wrap32" where
  "wrap n zero_point = zero_point + ucast n"

text \<open>
  \<open>unwrap raw_value zero_point checkpoint\<close> is \<open>Wrap32{raw_value}.unwrap(zero_point,
  checkpoint)\<close>. The subtraction \<open>raw_value_ - zero_point.raw_value_\<close> is on
  \<open>uint32_t\<close> and wraps; it is then widened to 64 bits.
\<close>

definition unwrap :: "wrap32 \<Rightarrow> wrap32 \<Rightarrow> u64 \<Rightarrow> u64" where
  "unwrap raw_value zero_point checkpoint =
     (let uint_lowhalf = 0xFFFFFFFF :: u64;
          uint_highhalf = 0xFFFFFFFF00000000 :: u64;
          begin = uint_lowhalf + 1;
          n_low32 = (ucast (raw_value - zero_point) :: u64);
          c_low32 = checkpoint AND uint_lowhalf;
          result = (checkpoint AND uint_highhalf) OR n_low32
      in if begin \<le> result \<and> c_low32 < n_low32 \<and> begin div 2 < n_low32 - c_low32
         then result - begin
         else if result < uint_highhalf \<and> n_low32 < c_low32 \<and> begin div 2 < c_low32 - n_low32
         then result + begin
         else result)"

section \<open>The masks read on nat\<close>

lemma mask32_u64: "(0xFFFFFFFF :: u64) = mask 32"
  by (simp add: mask_eq_exp_minus_1)

lemma not_mask32_u64: "(0xFFFFFFFF00000000 :: u64) = NOT (mask 32)"
  by (simp add: mask_eq_exp_minus_1)

lemma unat_and_low [word_to_nat]: "unat ((c :: u64) AND 0xFFFFFFFF) = unat c mod 2 ^ 32"
  by (simp only: mask32_u64 take_bit_eq_mask[symmetric] unsigned_take_bit_eq)
    (simp add: take_bit_eq_mod)

lemma split_high_low: "(c AND NOT (mask 32)) + (c AND mask 32) = (c :: u64)"
proof -
  have "(c AND NOT (mask 32)) AND (c AND mask 32) = 0"
    by (rule bit_eqI) (auto simp: bit_simps)
  then have "(c AND NOT (mask 32)) + (c AND mask 32) = (c AND NOT (mask 32)) OR (c AND mask 32)"
    by (rule disjunctive_add_eq_or)
  also have "\<dots> = c"
    by (rule bit_eqI) (auto simp: bit_simps)
  finally show ?thesis .
qed

lemma unat_and_high [word_to_nat]:
  "unat ((c :: u64) AND 0xFFFFFFFF00000000) = unat c div 2 ^ 32 * 2 ^ 32"
proof -
  have eq: "c AND NOT (mask 32) = c - (c AND mask 32)"
    using split_high_low[of c] by (metis add_diff_cancel_right')
  have "unat (c AND NOT (mask 32)) = unat c - unat c mod 2 ^ 32"
    using unat_and_low[of c] unfolding eq mask32_u64 by (simp add: unat_sub word_and_le2)
  then show ?thesis
    by (simp add: not_mask32_u64 minus_mod_eq_div_mult)
qed

lemma unat_high_or_low [word_to_nat]:
  "unat ((c :: u64) AND 0xFFFFFFFF00000000 OR ucast (x :: u32)) = unat c div 2 ^ 32 * 2 ^ 32 + unat x"
proof -
  have "(c AND 0xFFFFFFFF00000000) AND (ucast x :: u64) = 0"
    unfolding not_mask32_u64 by (rule bit_eqI) (auto simp: bit_simps dest: bit_imp_le_length)
  then have "(c AND 0xFFFFFFFF00000000) OR ucast x = (c AND 0xFFFFFFFF00000000) + (ucast x :: u64)"
    by (simp add: disjunctive_add_eq_or)
  moreover have "unat c div 2 ^ 32 * 2 ^ 32 + unat x < 2 ^ 64"
  proof -
    have "unat c div 2 ^ 32 < 2 ^ 32"
      using unat_lt2p[of c] by (simp add: less_mult_imp_div_less)
    then have "unat c div 2 ^ 32 * 2 ^ 32 \<le> (2 ^ 32 - 1) * 2 ^ 32"
      by (intro mult_le_mono1) simp
    then show ?thesis using unat_u32_lt[of x] by simp
  qed
  ultimately show ?thesis
    using unat_and_high[of c] unat_ucast_32_64[of x] by (simp add: unat_add_lem[THEN iffD1])
qed

section \<open>unwrap read on nat\<close>

text \<open>
  With \<open>h\<close> the high half of the checkpoint, \<open>cl\<close> its low half and \<open>nl\<close> the
  offset \<open>raw - zero_point\<close>, \<open>unwrap\<close> returns \<open>nl\<close> in block \<open>h - 1\<close>,
  \<open>h + 1\<close> or \<open>h\<close> of \<open>2^32\<close> numbers. No 64-bit operation of the code wraps.
\<close>

lemma unat_unwrap:
  "unat (unwrap raw zp c) =
     (let H = unat c div 2 ^ 32 * 2 ^ 32; cl = unat c mod 2 ^ 32; nl = unat (raw - zp)
      in if 2 ^ 32 \<le> H + nl \<and> cl < nl \<and> 2 ^ 31 < nl - cl then H + nl - 2 ^ 32
         else if H + nl < 2 ^ 64 - 2 ^ 32 \<and> nl < cl \<and> 2 ^ 31 < cl - nl then H + nl + 2 ^ 32
         else H + nl)"
proof -
  define nw where "nw = (ucast (raw - zp) :: u64)"
  define r where "r = (c AND 0xFFFFFFFF00000000) OR nw"
  have ur: "unat r = unat c div 2 ^ 32 * 2 ^ 32 + unat (raw - zp)"
    unfolding r_def nw_def by (rule unat_high_or_low)
  have un: "unat nw = unat (raw - zp)"
    unfolding nw_def by (rule unat_ucast_32_64)
  have ucl: "unat (c AND 0xFFFFFFFF) = unat c mod 2 ^ 32"
    by (rule unat_and_low)
  have ge: "(0x100000000 \<le> r) = (2 ^ 32 \<le> unat r)"
    by (simp add: word_le_nat_alt)
  have lt: "(r < 0xFFFFFFFF00000000) = (unat r < 2 ^ 64 - 2 ^ 32)"
    by (simp add: word_less_nat_alt)
  have c1: "(c AND 0xFFFFFFFF < nw) = (unat c mod 2 ^ 32 < unat (raw - zp))"
    by (simp add: word_less_nat_alt ucl un)
  have c2: "(nw < c AND 0xFFFFFFFF) = (unat (raw - zp) < unat c mod 2 ^ 32)"
    by (simp add: word_less_nat_alt ucl un)
  have d1: "c AND 0xFFFFFFFF < nw \<Longrightarrow>
      (0x80000000 < nw - (c AND 0xFFFFFFFF)) = (2 ^ 31 < unat (raw - zp) - unat c mod 2 ^ 32)"
    by (simp add: word_less_nat_alt unat_sub less_imp_le ucl un)
  have d2: "nw < c AND 0xFFFFFFFF \<Longrightarrow>
      (0x80000000 < (c AND 0xFFFFFFFF) - nw) = (2 ^ 31 < unat c mod 2 ^ 32 - unat (raw - zp))"
    by (simp add: word_less_nat_alt unat_sub less_imp_le ucl un)
  have s1: "0x100000000 \<le> r \<Longrightarrow> unat (r - 0x100000000) = unat r - 2 ^ 32"
    by (simp add: unat_sub)
  have s2: "r < 0xFFFFFFFF00000000 \<Longrightarrow> unat (r + 0x100000000) = unat r + 2 ^ 32"
    by (simp add: unat_add_lem[THEN iffD1] word_less_nat_alt)
  show ?thesis
    unfolding unwrap_def Let_def nw_def[symmetric] r_def[symmetric]
    using ge lt c1 c2 d1 d2 s1 s2 ur by (auto simp: Let_def)
qed

lemma block_ge: "(nl :: nat) < 2 ^ 32 \<Longrightarrow> (2 ^ 32 \<le> h * 2 ^ 32 + nl) = (1 \<le> h)"
  by (cases h) auto

lemma block_lt:
  "(nl :: nat) < 2 ^ 32 \<Longrightarrow> h < 2 ^ 32 \<Longrightarrow> (h * 2 ^ 32 + nl < 2 ^ 64 - 2 ^ 32) = (h < 2 ^ 32 - 1)"
proof
  assume a: "nl < 2 ^ 32" "h < 2 ^ 32 - 1"
  then have "h * 2 ^ 32 \<le> (2 ^ 32 - 2) * 2 ^ 32"
    by (intro mult_le_mono1) simp
  with a show "h * 2 ^ 32 + nl < 2 ^ 64 - 2 ^ 32" by simp
qed simp

lemma block_sub: "1 \<le> (h :: nat) \<Longrightarrow> h * 2 ^ 32 + nl - 2 ^ 32 = (h - 1) * 2 ^ 32 + nl"
  by (cases h) auto

lemma unat_unwrap_blocks:
  "unat (unwrap raw zp c) =
     (let h = unat c div 2 ^ 32; cl = unat c mod 2 ^ 32; nl = unat (raw - zp)
      in if 1 \<le> h \<and> cl < nl \<and> 2 ^ 31 < nl - cl then (h - 1) * 2 ^ 32 + nl
         else if h < 2 ^ 32 - 1 \<and> nl < cl \<and> 2 ^ 31 < cl - nl then (h + 1) * 2 ^ 32 + nl
         else h * 2 ^ 32 + nl)"
proof -
  have nl: "unat (raw - zp) < 2 ^ 32" by (rule unat_u32_lt)
  have h: "unat c div 2 ^ 32 < 2 ^ 32"
    using unat_lt2p[of c] by (simp add: less_mult_imp_div_less)
  show ?thesis
    unfolding unat_unwrap Let_def using block_ge[OF nl] block_lt[OF nl h] block_sub by auto
qed

section \<open>Distances between representatives\<close>

text \<open>
  Two numbers with equal low 32 bits differ by \<open>k * 2^32\<close>; \<open>d\<close> is the difference
  of the low halves. These three facts are the arithmetic core of \<open>unwrap_closest\<close>.
\<close>

lemma dist_down: "2 ^ 31 < (d :: int) \<Longrightarrow> d < 2 ^ 32 \<Longrightarrow> \<bar>d - 2 ^ 32\<bar> \<le> \<bar>d + k * 2 ^ 32\<bar>"
  by (cases k rule: int_sign_cases) (auto simp: abs_if)

lemma dist_up: "-(2 ^ 32) < (d :: int) \<Longrightarrow> d < -(2 ^ 31) \<Longrightarrow> \<bar>d + 2 ^ 32\<bar> \<le> \<bar>d + k * 2 ^ 32\<bar>"
  by (cases k rule: int_sign_cases) (auto simp: abs_if)

lemma dist_stay:
  assumes "\<bar>d :: int\<bar> < 2 ^ 32"
    and "\<bar>d\<bar> \<le> 2 ^ 31 \<or> (0 \<le> d \<and> 0 \<le> k) \<or> (d \<le> 0 \<and> k \<le> 0)"
  shows "\<bar>d\<bar> \<le> \<bar>d + k * 2 ^ 32\<bar>"
proof (cases k rule: int_sign_cases)
  case 2
  then have "2 ^ 32 \<le> k * 2 ^ 32" by simp
  moreover have "2 ^ 32 \<le> m \<Longrightarrow> \<bar>d\<bar> \<le> \<bar>d + m\<bar>" for m
    using assms 2 by (auto simp: abs_if)
  ultimately show ?thesis by blast
next
  case 3
  then have "k * 2 ^ 32 \<le> -(2 ^ 32)" by simp
  moreover have "m \<le> -(2 ^ 32) \<Longrightarrow> \<bar>d\<bar> \<le> \<bar>d + m\<bar>" for m
    using assms 3 by (auto simp: abs_if)
  ultimately show ?thesis by blast
qed simp

section \<open>Properties of wrap and unwrap\<close>

text \<open>C1: unwrapping a wrapped absolute number against itself as checkpoint gives it back.\<close>

theorem unwrap_wrap: "unwrap (wrap n zp) zp n = n"
proof (rule word_unat_eq_iff[THEN iffD2])
  have "wrap n zp - zp = ucast n" by (simp add: wrap_def)
  then have "unat (wrap n zp - zp) = unat n mod 2 ^ 32" by (simp add: unat_ucast_64_32)
  then show "unat (unwrap (wrap n zp) zp n) = unat n"
    by (simp add: unat_unwrap Let_def)
qed

lemma unwrap_low: "ucast (unwrap raw zp c) = raw - zp"
proof (rule word_unat_eq_iff[THEN iffD2])
  have nl: "unat (raw - zp) < 2 ^ 32" by (rule unat_u32_lt)
  have blk: "(k * 2 ^ 32 + unat (raw - zp)) mod 2 ^ 32 = unat (raw - zp)" for k :: nat
    using nl by simp
  show "unat (ucast (unwrap raw zp c) :: u32) = unat (raw - zp)"
    unfolding unat_ucast_64_32 unat_unwrap_blocks Let_def if_distrib[of "\<lambda>x. x mod 2 ^ 32"] blk
    by simp
qed

text \<open>C2: wrapping the result of unwrap gives back the sequence number unwrapped.\<close>

theorem wrap_unwrap: "wrap (unwrap raw zp c) zp = raw"
  using unwrap_low[of raw zp c] by (simp add: wrap_def)

lemma unwrap_min_dist:
  assumes "ucast (x :: u64) = raw - zp"
  shows "\<bar>int (unat (unwrap raw zp c)) - int (unat c)\<bar> \<le> \<bar>int (unat x) - int (unat c)\<bar>"
proof -
  define nl where "nl = unat (raw - zp)"
  define q where "q = unat x div 2 ^ 32"
  define h where "h = unat c div 2 ^ 32"
  define cl where "cl = unat c mod 2 ^ 32"
  define d where "d = int nl - int cl"
  define k where "k = int q - int h"
  have nl: "nl < 2 ^ 32" unfolding nl_def by (rule unat_u32_lt)
  have "unat x mod 2 ^ 32 = nl"
    unfolding nl_def using assms unat_ucast_64_32[of x] by simp
  then have X: "unat x = q * 2 ^ 32 + nl"
    unfolding q_def using div_mult_mod_eq[of "unat x" "2 ^ 32"] by simp
  have C: "unat c = h * 2 ^ 32 + cl" unfolding h_def cl_def by simp
  have cl: "cl < 2 ^ 32" unfolding cl_def by simp
  have q: "q < 2 ^ 32" unfolding q_def using unat_lt2p[of x] by (simp add: less_mult_imp_div_less)
  have h: "h < 2 ^ 32" unfolding h_def using unat_lt2p[of c] by (simp add: less_mult_imp_div_less)
  have XC: "int (unat x) - int (unat c) = d + k * 2 ^ 32"
    unfolding X C d_def k_def by (simp add: algebra_simps)
  have d: "\<bar>d\<bar> < 2 ^ 32" unfolding d_def using nl cl by simp
  have U: "unat (unwrap raw zp c) =
     (if 1 \<le> h \<and> cl < nl \<and> 2 ^ 31 < nl - cl then (h - 1) * 2 ^ 32 + nl
      else if h < 2 ^ 32 - 1 \<and> nl < cl \<and> 2 ^ 31 < cl - nl then (h + 1) * 2 ^ 32 + nl
      else h * 2 ^ 32 + nl)"
    unfolding unat_unwrap_blocks Let_def nl_def[symmetric] h_def[symmetric] cl_def[symmetric] ..
  consider (down) "1 \<le> h \<and> cl < nl \<and> 2 ^ 31 < nl - cl"
    | (up) "\<not> (1 \<le> h \<and> cl < nl \<and> 2 ^ 31 < nl - cl)"
        "h < 2 ^ 32 - 1 \<and> nl < cl \<and> 2 ^ 31 < cl - nl"
    | (stay) "\<not> (1 \<le> h \<and> cl < nl \<and> 2 ^ 31 < nl - cl)"
        "\<not> (h < 2 ^ 32 - 1 \<and> nl < cl \<and> 2 ^ 31 < cl - nl)"
    by blast
  then show ?thesis
  proof cases
    case down
    then have "int (unat (unwrap raw zp c)) - int (unat c) = d - 2 ^ 32"
      unfolding U C d_def by (simp add: algebra_simps)
    moreover have "2 ^ 31 < d" "d < 2 ^ 32" using down nl unfolding d_def by auto
    ultimately show ?thesis unfolding XC using dist_down by simp
  next
    case up
    then have "int (unat (unwrap raw zp c)) - int (unat c) = d + 2 ^ 32"
      unfolding U C d_def by (simp add: algebra_simps)
    moreover have "-(2 ^ 32) < d" "d < -(2 ^ 31)" using up cl unfolding d_def by auto
    ultimately show ?thesis unfolding XC using dist_up by simp
  next
    case stay
    then have "int (unat (unwrap raw zp c)) - int (unat c) = d"
      unfolding U C d_def by simp
    moreover have "\<bar>d\<bar> \<le> 2 ^ 31 \<or> (0 \<le> d \<and> 0 \<le> k) \<or> (d \<le> 0 \<and> k \<le> 0)"
      using stay q h unfolding d_def k_def by auto
    ultimately show ?thesis unfolding XC using dist_stay[OF d] by simp
  qed
qed

lemma mod_eq_near:
  assumes "(a :: nat) mod m = b mod m" "\<bar>int a - int b\<bar> < int m"
  shows "a = b"
proof (cases "a \<le> b")
  case True
  then have "m dvd b - a" using assms(1) mod_eq_dvd_iff_nat[OF True, of m] by simp
  then show ?thesis using assms(2) True by (cases "b - a = 0") (auto dest: dvd_imp_le)
next
  case False
  then have "m dvd a - b" using assms(1) mod_eq_dvd_iff_nat[of b a m] False by simp
  then show ?thesis using assms(2) False by (cases "a - b = 0") (auto dest: dvd_imp_le)
qed

text \<open>
  A number that lies within \<open>2^31\<close> of the checkpoint is the one unwrap returns: the
  result is no farther from the checkpoint and has the same low 32 bits.
\<close>

lemma unwrap_near:
  assumes "ucast (x :: u64) = raw - zp" "\<bar>int (unat x) - int (unat c)\<bar> < 2 ^ 31"
  shows "unwrap raw zp c = x"
proof (rule word_unat_eq_iff[THEN iffD2], rule mod_eq_near)
  have "unat (ucast (unwrap raw zp c) :: u32) = unat (ucast x :: u32)"
    using unwrap_low[of raw zp c] assms(1) by simp
  then show "unat (unwrap raw zp c) mod 2 ^ 32 = unat x mod 2 ^ 32"
    by (simp add: unat_ucast_64_32)
  show "\<bar>int (unat (unwrap raw zp c)) - int (unat x)\<bar> < int (2 ^ 32)"
    using unwrap_min_dist[OF assms(1), of c] assms(2) by simp
qed

text \<open>
  C3: unwrap returns, among all 64-bit numbers whose low 32 bits are
  \<open>raw - zero_point\<close>, one closest to the checkpoint.
\<close>

theorem unwrap_closest:
  assumes "ucast (x :: u64) = raw - zp"
  shows "\<bar>int (unat (unwrap raw zp c)) - int (unat c)\<bar> \<le> \<bar>int (unat x) - int (unat c)\<bar>"
  using assms by (rule unwrap_min_dist)

text \<open>
  The spec's scenario 3: with zero point 0 and checkpoint \<open>2^32 - 1\<close>, the sequence
  number 1 unwraps to \<open>2^32 + 1\<close>, which is at distance 2 from the checkpoint, while
  1 itself is at distance \<open>2^32 - 2\<close>.
\<close>

theorem unwrap_closest_witness:
  "ucast (1 :: u64) = (1 :: u32) - 0 \<and>
   \<bar>int (unat (unwrap 1 0 (2 ^ 32 - 1))) - int (unat (2 ^ 32 - 1 :: u64))\<bar>
     \<le> \<bar>int (unat (1 :: u64)) - int (unat (2 ^ 32 - 1 :: u64))\<bar> \<and>
   unwrap 1 0 (2 ^ 32 - 1) = 2 ^ 32 + 1"
proof -
  have low: "ucast (1 :: u64) = (1 :: u32) - 0" by simp
  have "unwrap 1 0 (2 ^ 32 - 1) = 2 ^ 32 + 1" by (simp add: unwrap_def)
  with low unwrap_closest[OF low, of "2 ^ 32 - 1"] show ?thesis by simp
qed


end
