(* ===== verification/Byte_Stream.thy ===== *)
theory Byte_Stream
  imports Minnow_Prelude "HOL-Library.Sublist"
begin

text \<open>
  \<open>ByteStream\<close> of \<open>src/byte_stream.cc\<close>: a bounded FIFO of bytes with a writer
  side (\<open>push\<close>, \<open>close\<close>, \<open>available_capacity\<close>, \<open>bytes_pushed\<close>) and a reader side
  (\<open>peek\<close>, \<open>pop\<close>, \<open>is_finished\<close>, \<open>bytes_popped\<close>, \<open>bytes_buffered\<close>) over one
  buffer. The buffer is the code's \<open>std::queue<std::string>\<close> of pushed chunks with
  \<open>prefix_len_\<close> bytes of the front chunk already read. The byte counters are
  \<open>uint64_t\<close> in the code and \<open>nat\<close> here: a run wraps them only after \<open>2^64\<close>
  bytes. The error flag (\<open>set_error\<close>, \<open>has_error\<close>) lives in \<open>byte_stream.hh\<close>,
  which is not among the sources, and is modelled from the spec.
\<close>

section \<open>State and operations\<close>

record byte_stream =
  capacity :: nat
  closed :: bool
  error_flag :: bool
  stream_q :: "string list"
  prefix_len :: nat
  pushed_sum :: nat
  popped_sum :: nat
  buffered_sum :: nat

definition byte_stream_new :: "nat \<Rightarrow> byte_stream" where
  "byte_stream_new cap =
     \<lparr>capacity = cap, closed = False, error_flag = False, stream_q = [], prefix_len = 0,
      pushed_sum = 0, popped_sum = 0, buffered_sum = 0\<rparr>"

definition available_capacity :: "byte_stream \<Rightarrow> nat" where
  "available_capacity s = capacity s - buffered_sum s"

definition writer_push :: "string \<Rightarrow> byte_stream \<Rightarrow> byte_stream" where
  "writer_push data s =
     (if data = [] \<or> available_capacity s = 0 \<or> closed s then s
      else let data' = (if length data > available_capacity s then take (available_capacity s) data
                        else data)
           in s\<lparr>pushed_sum := pushed_sum s + length data',
                buffered_sum := buffered_sum s + length data',
                stream_q := stream_q s @ [data']\<rparr>)"

definition writer_close :: "byte_stream \<Rightarrow> byte_stream" where
  "writer_close s = s\<lparr>closed := True\<rparr>"

definition reader_is_finished :: "byte_stream \<Rightarrow> bool" where
  "reader_is_finished s \<longleftrightarrow> closed s \<and> buffered_sum s = 0"

definition reader_peek :: "byte_stream \<Rightarrow> string" where
  "reader_peek s = (case stream_q s of [] \<Rightarrow> [] | front # _ \<Rightarrow> drop (prefix_len s) front)"

text \<open>
  The loop of \<open>Reader::pop\<close>. Reading \<open>stream_q.front()\<close> of an empty queue is
  undefined behaviour in C++; the model returns \<open>None\<close> there.
\<close>

fun pop_loop :: "nat \<Rightarrow> string list \<Rightarrow> nat \<Rightarrow> (string list \<times> nat) option" where
  "pop_loop len q pfx =
     (if len = 0 then Some (q, pfx)
      else case q of
        [] \<Rightarrow> None
      | front # rest \<Rightarrow>
          (let size = length front - pfx
           in if len < size then Some (q, pfx + len) else pop_loop (len - size) rest 0))"

definition reader_pop :: "nat \<Rightarrow> byte_stream \<Rightarrow> byte_stream option" where
  "reader_pop len s =
     (case pop_loop len (stream_q s) (prefix_len s) of
        None \<Rightarrow> None
      | Some (q, pfx) \<Rightarrow>
          Some (s\<lparr>buffered_sum := buffered_sum s - len, popped_sum := popped_sum s + len,
                  stream_q := q, prefix_len := pfx\<rparr>))"

definition set_error :: "byte_stream \<Rightarrow> byte_stream" where
  "set_error s = s\<lparr>error_flag := True\<rparr>"

text \<open>The accessors \<open>Writer::is_closed\<close>, \<open>bytes_pushed\<close>, \<open>Reader::bytes_popped\<close>, \<open>bytes_buffered\<close>.\<close>

definition writer_is_closed :: "byte_stream \<Rightarrow> bool" where
  "writer_is_closed s = closed s"

definition bytes_pushed :: "byte_stream \<Rightarrow> nat" where
  "bytes_pushed s = pushed_sum s"

definition bytes_popped :: "byte_stream \<Rightarrow> nat" where
  "bytes_popped s = popped_sum s"

definition bytes_buffered :: "byte_stream \<Rightarrow> nat" where
  "bytes_buffered s = buffered_sum s"

section \<open>Abstraction and invariant\<close>

text \<open>The bytes the stream holds, in order: the queue's chunks with the read prefix dropped.\<close>

definition contents :: "byte_stream \<Rightarrow> string" where
  "contents s = drop (prefix_len s) (concat (stream_q s))"

text \<open>
  The front chunk of the queue still has unread bytes; an empty queue has no read
  prefix.
\<close>

definition front_ok :: "string list \<Rightarrow> nat \<Rightarrow> bool" where
  "front_ok q pfx \<longleftrightarrow> (case q of [] \<Rightarrow> pfx = 0 | front # _ \<Rightarrow> pfx < length front)"

definition bs_wf :: "byte_stream \<Rightarrow> bool" where
  "bs_wf s \<longleftrightarrow>
     buffered_sum s = length (contents s) \<and>
     popped_sum s + buffered_sum s = pushed_sum s \<and>
     buffered_sum s \<le> capacity s \<and>
     [] \<notin> set (stream_q s) \<and>
     front_ok (stream_q s) (prefix_len s)"

text \<open>
  The contract of the stream as operations on its contents: a bounded FIFO of
  capacity \<open>cap\<close>.
\<close>

definition fifo_push :: "nat \<Rightarrow> string \<Rightarrow> string \<Rightarrow> string" where
  "fifo_push cap data xs = xs @ take (cap - length xs) data"

text \<open>
  The right edge of the writer's window, \<open>bytes_pushed + available_capacity\<close>:
  pushing does not move it, popping advances it.
\<close>

definition window_end :: "byte_stream \<Rightarrow> nat" where
  "window_end s = popped_sum s + capacity s"

section \<open>A run of operations\<close>

datatype bs_op = Push string | Close | Pop nat | SetError

fun bs_step :: "bs_op \<Rightarrow> byte_stream \<Rightarrow> byte_stream option" where
  "bs_step (Push d) s = Some (writer_push d s)"
| "bs_step Close s = Some (writer_close s)"
| "bs_step (Pop n) s = reader_pop n s"
| "bs_step SetError s = Some (set_error s)"

fun bs_run :: "bs_op list \<Rightarrow> byte_stream \<Rightarrow> byte_stream option" where
  "bs_run [] s = Some s"
| "bs_run (op # ops) s = (case bs_step op s of None \<Rightarrow> None | Some s' \<Rightarrow> bs_run ops s')"

section \<open>The pop loop\<close>

declare pop_loop.simps [simp del]

lemma front_ok_le: "front_ok q pfx \<Longrightarrow> pfx \<le> length (concat q)"
  by (auto simp: front_ok_def split: list.splits)

lemma front_ok_rest: "[] \<notin> set rest \<Longrightarrow> front_ok rest 0"
  by (auto simp: front_ok_def split: list.splits)

lemma pop_loop_Some:
  assumes "[] \<notin> set q" "front_ok q pfx" "len \<le> length (drop pfx (concat q))"
  shows "\<exists>q' pfx'. pop_loop len q pfx = Some (q', pfx') \<and>
           drop pfx' (concat q') = drop (pfx + len) (concat q) \<and>
           [] \<notin> set q' \<and> front_ok q' pfx'"
  using assms
proof (induction len q pfx rule: pop_loop.induct)
  case (1 len q pfx)
  show ?case
  proof (cases "len = 0")
    case True
    with "1.prems" show ?thesis by (simp add: pop_loop.simps)
  next
    case False
    then obtain front rest where q: "q = front # rest"
      using "1.prems"(3) by (cases q) auto
    have pfx: "pfx < length front" using "1.prems"(2) q by (simp add: front_ok_def)
    show ?thesis
    proof (cases "len < length front - pfx")
      case True
      with False q pfx "1.prems" show ?thesis by (simp add: front_ok_def pop_loop.simps[of len "front # rest" pfx])
    next
      case big: False
      have rest: "[] \<notin> set rest" "front_ok rest 0"
        using "1.prems"(1) q front_ok_rest by auto
      have "len - (length front - pfx) \<le> length (drop 0 (concat rest))"
        using "1.prems"(3) q pfx by simp
      with "1.IH"[OF False q refl big] rest obtain q' pfx' where
        r: "pop_loop (len - (length front - pfx)) rest 0 = Some (q', pfx')"
           "drop pfx' (concat q') = drop (len - (length front - pfx)) (concat rest)"
           "[] \<notin> set q'" "front_ok q' pfx'"
        by (auto simp: Let_def)
      have "drop (pfx + len) (concat q) = drop (len - (length front - pfx)) (concat rest)"
        using q big pfx by (simp add: add.commute)
      with r False q big show ?thesis by (simp add: Let_def pop_loop.simps[of len "front # rest" pfx])
    qed
  qed
qed

lemma pop_loop_None:
  assumes "[] \<notin> set q" "front_ok q pfx" "length (drop pfx (concat q)) < len"
  shows "pop_loop len q pfx = None"
  using assms
proof (induction len q pfx rule: pop_loop.induct)
  case (1 len q pfx)
  show ?case
  proof (cases q)
    case Nil
    with "1.prems" show ?thesis by (simp add: pop_loop.simps)
  next
    case (Cons front rest)
    have pfx: "pfx < length front" using "1.prems"(2) Cons by (simp add: front_ok_def)
    with "1.prems" Cons have big: "\<not> len < length front - pfx" and nz: "len \<noteq> 0" by auto
    have "length (drop 0 (concat rest)) < len - (length front - pfx)"
      using "1.prems"(3) Cons pfx by auto
    moreover have "[] \<notin> set rest" "front_ok rest 0"
      using "1.prems"(1) Cons front_ok_rest by auto
    ultimately show ?thesis
      using "1.IH"[OF nz Cons refl big] Cons nz big by (simp add: Let_def pop_loop.simps[of len "front # rest" pfx])
  qed
qed

section \<open>Each operation against the abstract contents\<close>

lemma bs_wf_front: "bs_wf s \<Longrightarrow> prefix_len s \<le> length (concat (stream_q s))"
  by (simp add: bs_wf_def front_ok_le)

lemma length_contents: "length (contents s) = length (concat (stream_q s)) - prefix_len s"
  by (simp add: contents_def)

text \<open>
  Push appends as much of the data as fits, and nothing once the stream is closed;
  the bytes that do not fit are dropped.
\<close>

lemma contents_writer_push:
  assumes "bs_wf s"
  shows "contents (writer_push data s) =
           (if closed s then contents s else contents s @ take (available_capacity s) data)"
  using bs_wf_front[OF assms]
  by (auto simp: writer_push_def contents_def Let_def min_def)

lemma writer_push_wf [wf_preserved]:
  assumes "bs_wf s"
  shows "bs_wf (writer_push data s)"
proof (cases "data = [] \<or> available_capacity s = 0 \<or> closed s")
  case True
  with assms show ?thesis by (simp add: writer_push_def)
next
  case False
  define d where "d = (if length data > available_capacity s then take (available_capacity s) data else data)"
  have d: "d \<noteq> []" "length d \<le> available_capacity s"
    using False by (auto simp: d_def)
  have fo: "front_ok (stream_q s @ [d]) (prefix_len s)"
    using assms d by (auto simp: bs_wf_def front_ok_def split: list.splits)
  show ?thesis
    using assms False d fo bs_wf_front[OF assms]
    unfolding writer_push_def Let_def d_def[symmetric]
    by (auto simp: bs_wf_def contents_def available_capacity_def)
qed


text \<open>A push that fits an open stream appends all of it and counts it.\<close>

lemma writer_push_appends:
  assumes "bs_wf s" "\<not> closed s" "length data \<le> available_capacity s"
  shows "contents (writer_push data s) = contents s @ data \<and>
         pushed_sum (writer_push data s) = pushed_sum s + length data \<and>
         available_capacity (writer_push data s) = available_capacity s - length data \<and>
         closed (writer_push data s) = closed s \<and> error_flag (writer_push data s) = error_flag s \<and>
         popped_sum (writer_push data s) = popped_sum s \<and> capacity (writer_push data s) = capacity s \<and>
         bs_wf (writer_push data s)"
  using contents_writer_push[OF assms(1), of data] writer_push_wf[OF assms(1), of data] assms(2,3)
  by (auto simp: writer_push_def available_capacity_def Let_def)

lemma writer_close_wf [wf_preserved]: "bs_wf s \<Longrightarrow> bs_wf (writer_close s)"
  by (simp add: writer_close_def bs_wf_def contents_def)

lemma set_error_wf [wf_preserved]: "bs_wf s \<Longrightarrow> bs_wf (set_error s)"
  by (simp add: set_error_def bs_wf_def contents_def)

lemma contents_writer_close: "contents (writer_close s) = contents s"
  by (simp add: writer_close_def contents_def)

text \<open>Pop succeeds exactly when at most the buffered bytes are asked for, and drops them.\<close>

lemma reader_pop_Some:
  assumes "bs_wf s" "len \<le> buffered_sum s"
  shows "\<exists>s'. reader_pop len s = Some s' \<and> contents s' = drop len (contents s) \<and> bs_wf s' \<and>
           popped_sum s' = popped_sum s + len \<and> pushed_sum s' = pushed_sum s \<and>
           closed s' = closed s \<and> error_flag s' = error_flag s \<and> capacity s' = capacity s"
proof -
  have "[] \<notin> set (stream_q s)" "front_ok (stream_q s) (prefix_len s)"
    "len \<le> length (drop (prefix_len s) (concat (stream_q s)))"
    using assms by (auto simp: bs_wf_def contents_def)
  from pop_loop_Some[OF this] obtain q' pfx' where
    r: "pop_loop len (stream_q s) (prefix_len s) = Some (q', pfx')"
       "drop pfx' (concat q') = drop (prefix_len s + len) (concat (stream_q s))"
       "[] \<notin> set q'" "front_ok q' pfx'"
    by blast
  have "length (concat q') - pfx' = length (concat (stream_q s)) - (prefix_len s + len)"
    using arg_cong[OF r(2), of length] by simp
  with assms r show ?thesis
    by (auto simp: reader_pop_def contents_def bs_wf_def add.commute)
qed

lemma reader_pop_None:
  assumes "bs_wf s" "buffered_sum s < len"
  shows "reader_pop len s = None"
proof -
  have "[] \<notin> set (stream_q s)" "front_ok (stream_q s) (prefix_len s)"
    "length (drop (prefix_len s) (concat (stream_q s))) < len"
    using assms by (auto simp: bs_wf_def contents_def)
  then show ?thesis by (simp add: reader_pop_def pop_loop_None)
qed

lemma reader_pop_frame:
  "reader_pop len s = Some s' \<Longrightarrow>
   pushed_sum s' = pushed_sum s \<and> closed s' = closed s \<and> error_flag s' = error_flag s \<and>
   capacity s' = capacity s \<and> popped_sum s' = popped_sum s + len"
  by (auto simp: reader_pop_def split: option.splits)

lemma set_error_frame [simp]:
  "pushed_sum (set_error s) = pushed_sum s" "popped_sum (set_error s) = popped_sum s"
  "closed (set_error s) = closed s" "capacity (set_error s) = capacity s"
  "error_flag (set_error s) = True"
  by (simp_all add: set_error_def)

lemma reader_pop_wf [wf_preserved]:
  "bs_wf s \<Longrightarrow> reader_pop len s = Some s' \<Longrightarrow> bs_wf s'"
  using reader_pop_Some reader_pop_None by (cases "len \<le> buffered_sum s") fastforce+

lemma byte_stream_new_wf: "bs_wf (byte_stream_new cap)"
  by (simp add: byte_stream_new_def bs_wf_def contents_def front_ok_def)

lemma bs_step_wf: "bs_wf s \<Longrightarrow> bs_step op s = Some s' \<Longrightarrow> bs_wf s'"
  by (cases op) (auto intro: wf_preserved)

lemma reader_peek_nonempty:
  assumes "bs_wf s" "buffered_sum s \<noteq> 0"
  shows "\<exists>front rest. stream_q s = front # rest \<and> reader_peek s = drop (prefix_len s) front \<and>
           reader_peek s \<noteq> []"
  using assms by (auto simp: bs_wf_def contents_def front_ok_def reader_peek_def split: list.splits)

lemma peek_prefix_contents: "bs_wf s \<Longrightarrow> \<exists>r. contents s = reader_peek s @ r"
  by (auto simp: bs_wf_def contents_def front_ok_def reader_peek_def split: list.splits)

lemma bs_run_wf: "bs_wf s \<Longrightarrow> bs_run ops s = Some s' \<Longrightarrow> bs_wf s' \<and> capacity s' = capacity s"
proof (induction ops arbitrary: s)
  case (Cons op ops)
  then obtain s1 where s1: "bs_step op s = Some s1" "bs_run ops s1 = Some s'"
    by (auto split: option.splits)
  moreover have "capacity s1 = capacity s"
    using s1(1) by (cases op)
      (auto simp: writer_push_def writer_close_def set_error_def reader_pop_def Let_def
        split: option.splits)
  ultimately show ?case using Cons bs_step_wf by metis
qed simp

lemma window_end_avail: "bs_wf s \<Longrightarrow> pushed_sum s + available_capacity s = window_end s"
  by (auto simp: bs_wf_def available_capacity_def window_end_def)

text \<open>A push that fits is taken whole.\<close>

lemma writer_push_fits:
  assumes "\<not> closed s" "data \<noteq> []" "length data \<le> available_capacity s"
  shows "writer_push data s =
           s\<lparr>pushed_sum := pushed_sum s + length data, buffered_sum := buffered_sum s + length data,
             stream_q := stream_q s @ [data]\<rparr>"
  using assms by (auto simp: writer_push_def)

lemma writer_push_frame:
  "popped_sum (writer_push d s) = popped_sum s \<and> capacity (writer_push d s) = capacity s \<and>
   closed (writer_push d s) = closed s \<and> error_flag (writer_push d s) = error_flag s"
  by (simp add: writer_push_def Let_def)

lemma writer_push_window_end: "window_end (writer_push d s) = window_end s"
  by (simp add: window_end_def writer_push_frame)

section \<open>Properties of the byte stream\<close>

text \<open>
  C5: after any sequence of pushes, closes, pops and error settings from a fresh stream,
  \<open>bytes_buffered = bytes_pushed - bytes_popped \<le> capacity\<close>.
\<close>

theorem bs_run_invariant:
  assumes "bs_run ops (byte_stream_new cap) = Some s"
  shows "popped_sum s \<le> pushed_sum s \<and> buffered_sum s = pushed_sum s - popped_sum s \<and>
         buffered_sum s \<le> cap \<and> length (contents s) = buffered_sum s"
  using bs_run_wf[OF byte_stream_new_wf assms] by (auto simp: bs_wf_def byte_stream_new_def)

text \<open>
  The spec's scenario 1: capacity 2, push \<open>cat\<close> keeps \<open>ca\<close>; after popping both
  bytes, push \<open>dog\<close> keeps \<open>do\<close>.
\<close>

theorem bs_run_invariant_witness:
  "bs_run [Push ''cat''] (byte_stream_new 2) = Some (the (bs_run [Push ''cat''] (byte_stream_new 2))) \<and>
   contents (the (bs_run [Push ''cat''] (byte_stream_new 2))) = ''ca'' \<and>
   contents (the (bs_run [Push ''cat'', Pop 2, Push ''dog''] (byte_stream_new 2))) = ''do'' \<and>
   buffered_sum (the (bs_run [Push ''cat'', Pop 2, Push ''dog''] (byte_stream_new 2))) \<le> 2"
proof -
  define ops where "ops = [Push ''cat'', Pop 2, Push ''dog'']"
  have run1: "bs_run [Push ''cat''] (byte_stream_new 2) =
      Some \<lparr>capacity = 2, closed = False, error_flag = False, stream_q = [''ca''], prefix_len = 0,
            pushed_sum = 2, popped_sum = 0, buffered_sum = 2\<rparr>"
    by (simp add: byte_stream_new_def writer_push_def available_capacity_def)
  have run: "bs_run ops (byte_stream_new 2) =
      Some \<lparr>capacity = 2, closed = False, error_flag = False, stream_q = [''do''], prefix_len = 0,
            pushed_sum = 4, popped_sum = 2, buffered_sum = 2\<rparr>"
    unfolding ops_def
    by (simp add: byte_stream_new_def writer_push_def available_capacity_def reader_pop_def
        pop_loop.simps)
  have "buffered_sum (the (bs_run ops (byte_stream_new 2))) \<le> 2"
    using bs_run_invariant[OF run] run by simp
  with run1 run show ?thesis unfolding ops_def by (simp add: contents_def)
qed

text \<open>C6: push refines the bounded FIFO: it appends what fits and nothing once closed.\<close>

theorem writer_push_refines:
  assumes "bs_wf s"
  shows "contents (writer_push data s) =
           (if closed s then contents s else fifo_push (capacity s) data (contents s))"
  using contents_writer_push[OF assms] assms
  by (simp add: fifo_push_def available_capacity_def bs_wf_def)

theorem writer_push_refines_witness:
  "bs_wf (byte_stream_new 2) \<and>
   contents (writer_push ''cat'' (byte_stream_new 2)) = fifo_push 2 ''cat'' []"
proof -
  have wf: "bs_wf (byte_stream_new 2)" by (rule byte_stream_new_wf)
  show ?thesis using wf writer_push_refines[OF wf, of "''cat''"]
    by (simp add: byte_stream_new_def contents_def)
qed

text \<open>
  C7: pop takes exactly the first \<open>len\<close> bytes when at most the buffered bytes are
  asked for; asking for more is an error (the code reads the front of an empty queue).
\<close>

theorem reader_pop_refines:
  assumes "bs_wf s"
  shows "(case reader_pop len s of
            None \<Rightarrow> buffered_sum s < len
          | Some s' \<Rightarrow> len \<le> buffered_sum s \<and> contents s' = drop len (contents s) \<and>
                        popped_sum s' = popped_sum s + len)"
proof (cases "len \<le> buffered_sum s")
  case True
  then show ?thesis using reader_pop_Some[OF assms True] by auto
next
  case False
  then show ?thesis using reader_pop_None[OF assms] by simp
qed

theorem reader_pop_refines_witness:
  "bs_wf (writer_push ''cat'' (byte_stream_new 4)) \<and>
   reader_pop 5 (writer_push ''cat'' (byte_stream_new 4)) = None \<and>
   contents (the (reader_pop 2 (writer_push ''cat'' (byte_stream_new 4)))) = ''t''"
proof -
  have wf: "bs_wf (writer_push ''cat'' (byte_stream_new 4))"
    by (rule writer_push_wf[OF byte_stream_new_wf])
  have push: "writer_push ''cat'' (byte_stream_new 4) =
     \<lparr>capacity = 4, closed = False, error_flag = False, stream_q = [''cat''], prefix_len = 0,
      pushed_sum = 3, popped_sum = 0, buffered_sum = 3\<rparr>"
    by (simp add: byte_stream_new_def writer_push_def available_capacity_def)
  have "reader_pop 5 (writer_push ''cat'' (byte_stream_new 4)) = None"
    using reader_pop_refines[OF wf, of 5] push by (simp split: option.splits)
  moreover have "contents (the (reader_pop 2 (writer_push ''cat'' (byte_stream_new 4)))) = ''t''"
    using reader_pop_refines[OF wf, of 2] push by (auto simp: contents_def split: option.splits)
  ultimately show ?thesis using wf by simp
qed

text \<open>
  C8: when bytes are buffered, peek returns a non-empty prefix of them (the unread
  part of the front chunk), so a caller that pops what it peeked makes progress.
\<close>

theorem reader_peek_prefix:
  assumes "bs_wf s" "buffered_sum s \<noteq> 0"
  shows "reader_peek s \<noteq> [] \<and> prefix (reader_peek s) (contents s)"
proof -
  obtain front rest where f: "stream_q s = front # rest" "reader_peek s = drop (prefix_len s) front"
    "reader_peek s \<noteq> []"
    using reader_peek_nonempty[OF assms] by blast
  have "contents s = drop (prefix_len s) front @ concat rest"
    using f assms by (simp add: contents_def bs_wf_def front_ok_def)
  with f show ?thesis by simp
qed

theorem reader_peek_prefix_witness:
  "bs_wf (writer_push ''ab'' (writer_push ''cat'' (byte_stream_new 9))) \<and>
   reader_peek (writer_push ''ab'' (writer_push ''cat'' (byte_stream_new 9))) = ''cat''"
proof -
  have wf: "bs_wf (writer_push ''ab'' (writer_push ''cat'' (byte_stream_new 9)))"
    by (intro writer_push_wf byte_stream_new_wf)
  have "buffered_sum (writer_push ''ab'' (writer_push ''cat'' (byte_stream_new 9))) \<noteq> 0"
    by (simp add: byte_stream_new_def writer_push_def available_capacity_def)
  with reader_peek_prefix[OF wf] wf show ?thesis
    by (simp add: byte_stream_new_def writer_push_def available_capacity_def reader_peek_def)
qed

text \<open>C9: \<open>bytes_pushed\<close> and \<open>bytes_popped\<close> never decrease.\<close>

theorem bs_step_monotone:
  assumes "bs_step op s = Some s'"
  shows "pushed_sum s \<le> pushed_sum s' \<and> popped_sum s \<le> popped_sum s'"
  using assms
  by (cases op)
    (auto simp: writer_push_def writer_close_def set_error_def reader_pop_def Let_def
      split: option.splits)

theorem bs_step_monotone_witness:
  "bs_step (Push ''ab'') (byte_stream_new 1) = Some (writer_push ''ab'' (byte_stream_new 1)) \<and>
   pushed_sum (byte_stream_new 1) \<le> pushed_sum (writer_push ''ab'' (byte_stream_new 1))"
  using bs_step_monotone[of "Push ''ab''" "byte_stream_new 1" "writer_push ''ab'' (byte_stream_new 1)"]
  by simp

end
