(* ===== verification/TCP_Sender.thy ===== *)
theory TCP_Sender
  imports TCP_Messages Wrapping_Integers Byte_Stream
begin

text \<open>
  \<open>TCPSender\<close> and \<open>RetryTimer\<close> of \<open>src/tcp_sender.hh\<close> and \<open>src/tcp_sender.cc\<close>. The
  sender reads its input \<open>ByteStream\<close>, cuts it into segments that fit the peer's window,
  keeps the unacknowledged ones in a FIFO and retransmits the oldest on timeout with
  exponential backoff. Its counters and the timer's fields are \<open>uint64_t\<close> in the code
  and \<open>u64\<close> here; the transmit callback becomes the list of segments an operation sends.
  The two loops of \<open>push\<close> are \<open>partial_function (option)\<close>: a loop that does not end is
  the value \<open>None\<close>, and that they end on a well-formed input stream is proved.
\<close>

section \<open>RetryTimer\<close>

record retry_timer =
  timer_active :: bool
  RTO_duration_ms :: u64
  timer_elapsed_ms :: u64

definition retry_timer_new :: "u64 \<Rightarrow> retry_timer" where
  "retry_timer_new initial_RTO_ms =
     \<lparr>timer_active = False, RTO_duration_ms = initial_RTO_ms, timer_elapsed_ms = 0\<rparr>"

definition has_timer_expired :: "retry_timer \<Rightarrow> bool" where
  "has_timer_expired t = (if \<not> timer_active t then False else RTO_duration_ms t \<le> timer_elapsed_ms t)"

definition reset_timer :: "retry_timer \<Rightarrow> retry_timer" where
  "reset_timer t = t\<lparr>timer_elapsed_ms := 0\<rparr>"

definition apply_exponential_backoff :: "retry_timer \<Rightarrow> retry_timer" where
  "apply_exponential_backoff t = t\<lparr>RTO_duration_ms := push_bit 1 (RTO_duration_ms t)\<rparr>"

definition reload_timer :: "u64 \<Rightarrow> retry_timer \<Rightarrow> retry_timer" where
  "reload_timer initial_RTO_ms t = reset_timer (t\<lparr>RTO_duration_ms := initial_RTO_ms\<rparr>)"

definition activate_timer :: "retry_timer \<Rightarrow> retry_timer" where
  "activate_timer t = (if \<not> timer_active t then reset_timer (t\<lparr>timer_active := True\<rparr>) else t)"

definition deactivate_timer :: "retry_timer \<Rightarrow> retry_timer" where
  "deactivate_timer t = (if timer_active t then reset_timer (t\<lparr>timer_active := False\<rparr>) else t)"

definition advance_timer :: "u64 \<Rightarrow> retry_timer \<Rightarrow> retry_timer" where
  "advance_timer elapsed_ms t =
     (if timer_active t then t\<lparr>timer_elapsed_ms := timer_elapsed_ms t + elapsed_ms\<rparr> else t)"

section \<open>TCPSender\<close>

text \<open>\<open>TCPConfig::MAX_PAYLOAD_SIZE\<close> (\<open>tcp_config.hh\<close>).\<close>

definition max_payload_size :: u64 where
  "max_payload_size = 1000"

record tcp_sender =
  input :: byte_stream
  isn :: u32
  initial_RTO_ms :: u64
  next_seq_number :: u64
  ack_sequence_number :: u64
  window_capacity :: u16
  pending_messages :: "tcp_sender_message list"
  total_outgoing_seq :: u64
  retrans_count :: u64
  SYN_sent_flag :: bool
  FIN_sent_flag :: bool
  retrans_timer :: retry_timer

definition tcp_sender_new :: "byte_stream \<Rightarrow> u32 \<Rightarrow> u64 \<Rightarrow> tcp_sender" where
  "tcp_sender_new inp i rto =
     \<lparr>input = inp, isn = i, initial_RTO_ms = rto, next_seq_number = 0, ack_sequence_number = 0,
      window_capacity = 1, pending_messages = [], total_outgoing_seq = 0, retrans_count = 0,
      SYN_sent_flag = False, FIN_sent_flag = False, retrans_timer = retry_timer_new rto\<rparr>"


definition consecutive_retransmissions :: "tcp_sender \<Rightarrow> u64" where
  "consecutive_retransmissions s = retrans_count s"

definition seq_len64 :: "tcp_sender_message \<Rightarrow> u64" where
  "seq_len64 m = of_nat (sequence_length m)"

definition make_empty_message :: "tcp_sender \<Rightarrow> tcp_sender_message" where
  "make_empty_message s =
     \<lparr>seqno = wrap (next_seq_number s) (isn s), SYN = False, payload = [], FIN = False,
      RST = error_flag (input s)\<rparr>"

text \<open>The effective window \<open>window_capacity_ == 0 ? 1 : window_capacity_\<close>.\<close>

definition eff_window :: "tcp_sender \<Rightarrow> u64" where
  "eff_window s = (if window_capacity s = 0 then 1 else ucast (window_capacity s))"

text \<open>
  The inner loop of \<open>push\<close>: append what \<open>peek\<close> shows, cut to what is still wanted, and
  pop it, while bytes are buffered and the payload is short of \<open>payload_len\<close>.
\<close>

partial_function (option) fill_payload ::
  "nat \<Rightarrow> string \<Rightarrow> byte_stream \<Rightarrow> (string \<times> byte_stream) option" where
  "fill_payload payload_len pl s =
     (if buffered_sum s \<noteq> 0 \<and> length pl < payload_len then
        (let data_view = take (payload_len - length pl) (reader_peek s)
         in case reader_pop (length data_view) s of
              None \<Rightarrow> None
            | Some s' \<Rightarrow> fill_payload payload_len (pl @ data_view) s')
      else Some (pl, s))"

declare fill_payload.simps [code]

text \<open>
  One segment of \<open>push\<close> (lines 28--48): the empty message, SYN if not yet sent, the
  payload filled up to what the window and \<open>MAX_PAYLOAD_SIZE\<close> allow, FIN if the input
  is finished and the window has room for it. \<open>None\<close> when the fill loop does not end.
\<close>

definition make_segment :: "tcp_sender \<Rightarrow> (tcp_sender_message \<times> tcp_sender) option" where
  "make_segment s =
     (let msg0 = make_empty_message s;
          (msg1, s1) = (if \<not> SYN_sent_flag s then (msg0\<lparr>SYN := True\<rparr>, s\<lparr>SYN_sent_flag := True\<rparr>)
                        else (msg0, s));
          remaining_capacity = eff_window s1 - total_outgoing_seq s1;
          payload_len = min max_payload_size (remaining_capacity - seq_len64 msg1)
      in case fill_payload (unat payload_len) (payload msg1) (input s1) of
           None \<Rightarrow> None
         | Some (pl, inp) \<Rightarrow>
             (let msg2 = msg1\<lparr>payload := pl\<rparr>; s2 = s1\<lparr>input := inp\<rparr>
              in Some (if \<not> FIN_sent_flag s2 \<and> seq_len64 msg2 < remaining_capacity \<and>
                          reader_is_finished (input s2)
                       then (msg2\<lparr>FIN := True\<rparr>, s2\<lparr>FIN_sent_flag := True\<rparr>) else (msg2, s2))))"

text \<open>Sending a segment (lines 53--59): start the timer if idle, advance, enqueue.\<close>

definition send_segment :: "tcp_sender_message \<Rightarrow> tcp_sender \<Rightarrow> tcp_sender" where
  "send_segment msg s =
     s\<lparr>retrans_timer := (if \<not> timer_active (retrans_timer s) then activate_timer (retrans_timer s)
                        else retrans_timer s),
       next_seq_number := next_seq_number s + seq_len64 msg,
       total_outgoing_seq := total_outgoing_seq s + seq_len64 msg,
       pending_messages := pending_messages s @ [msg]\<rparr>"

text \<open>The loop of \<open>push\<close>; \<open>tx\<close> collects the transmitted segments in order.\<close>

partial_function (option) push_loop ::
  "tcp_sender \<Rightarrow> tcp_sender_message list \<Rightarrow> (tcp_sender \<times> tcp_sender_message list) option" where
  "push_loop s tx =
     (if total_outgoing_seq s < eff_window s \<and> \<not> FIN_sent_flag s then
        (case make_segment s of
           None \<Rightarrow> None
         | Some (msg, s3) \<Rightarrow>
             if sequence_length msg = 0 then Some (s3, tx)
             else push_loop (send_segment msg s3) (tx @ [msg]))
      else Some (s, tx))"

declare push_loop.simps [code]

definition tcp_sender_push :: "tcp_sender \<Rightarrow> (tcp_sender \<times> tcp_sender_message list) option" where
  "tcp_sender_push s = push_loop s []"

text \<open>The acknowledgement loop of \<open>receive\<close> over the FIFO of outstanding segments.\<close>

fun ack_loop :: "u64 \<Rightarrow> u64 \<Rightarrow> u64 \<Rightarrow> tcp_sender_message list \<Rightarrow> bool \<Rightarrow>
    u64 \<times> u64 \<times> tcp_sender_message list \<times> bool" where
  "ack_loop received ack tot [] acked = (ack, tot, [], acked)"
| "ack_loop received ack tot (m # rest) acked =
     (if received < ack + seq_len64 m then (ack, tot, m # rest, acked)
      else ack_loop received (ack + seq_len64 m) (tot - seq_len64 m) rest True)"

definition tcp_sender_receive :: "tcp_receiver_message \<Rightarrow> tcp_sender \<Rightarrow> tcp_sender" where
  "tcp_sender_receive msg s =
     (if error_flag (input s) \<or> ack_RST msg then
        (if ack_RST msg then s\<lparr>input := set_error (input s)\<rparr> else s)
      else
        (let s1 = s\<lparr>window_capacity := window_size msg\<rparr>
         in case ackno msg of
              None \<Rightarrow> s1
            | Some a \<Rightarrow>
                (let received_ack_seq = unwrap a (isn s1) (next_seq_number s1)
                 in if next_seq_number s1 < received_ack_seq then s1
                    else
                      (let (ack, tot, pend, acknowledged) =
                             ack_loop received_ack_seq (ack_sequence_number s1)
                               (total_outgoing_seq s1) (pending_messages s1) False;
                           s2 = s1\<lparr>ack_sequence_number := ack, total_outgoing_seq := tot,
                                   pending_messages := pend\<rparr>
                       in if acknowledged then
                            (let t = reload_timer (initial_RTO_ms s2) (retrans_timer s2)
                             in s2\<lparr>retrans_count := 0,
                                   retrans_timer := (if pend = [] then deactivate_timer t
                                                     else activate_timer t)\<rparr>)
                          else s2))))"

definition tcp_sender_tick :: "u64 \<Rightarrow> tcp_sender \<Rightarrow> tcp_sender \<times> tcp_sender_message list" where
  "tcp_sender_tick ms s =
     (let t = advance_timer ms (retrans_timer s); s1 = s\<lparr>retrans_timer := t\<rparr>
      in if has_timer_expired t then
           (case pending_messages s1 of
              [] \<Rightarrow> (s1, [])
            | front # _ \<Rightarrow>
                (let s2 = (if window_capacity s1 \<noteq> 0
                           then s1\<lparr>retrans_count := retrans_count s1 + 1,
                                   retrans_timer := apply_exponential_backoff (retrans_timer s1)\<rparr>
                           else s1)
                 in (s2\<lparr>retrans_timer := reset_timer (retrans_timer s2)\<rparr>, [front])))
         else (s1, []))"

text \<open>A sender's environment: the application writes and closes, segments are pushed,
  acknowledgements arrive and time passes.\<close>

datatype snd_op = SPush | SReceive tcp_receiver_message | STick u64 | SWrite string | SClose

fun snd_step :: "snd_op \<Rightarrow> tcp_sender \<Rightarrow> tcp_sender option" where
  "snd_step SPush s = map_option fst (tcp_sender_push s)"
| "snd_step (SReceive m) s = Some (tcp_sender_receive m s)"
| "snd_step (STick ms) s = Some (fst (tcp_sender_tick ms s))"
| "snd_step (SWrite d) s = Some (s\<lparr>input := writer_push d (input s)\<rparr>)"
| "snd_step SClose s = Some (s\<lparr>input := writer_close (input s)\<rparr>)"

fun snd_run :: "snd_op list \<Rightarrow> tcp_sender \<Rightarrow> tcp_sender option" where
  "snd_run [] s = Some s"
| "snd_run (op # ops) s = (case snd_step op s of None \<Rightarrow> None | Some s' \<Rightarrow> snd_run ops s')"

section \<open>Invariant\<close>

text \<open>The outstanding segments occupy consecutive sequence numbers from \<open>a\<close>.\<close>

fun contiguous :: "u64 \<Rightarrow> u32 \<Rightarrow> tcp_sender_message list \<Rightarrow> bool" where
  "contiguous a i [] = True"
| "contiguous a i (m # ms) = (seqno m = wrap a i \<and> contiguous (a + seq_len64 m) i ms)"

abbreviation seq_total :: "tcp_sender_message list \<Rightarrow> nat" where
  "seq_total ms \<equiv> sum_list (map sequence_length ms)"

text \<open>
  The sender's invariant: the input stream is well formed; the count of sequence
  numbers in flight is the sum of the outstanding segments' lengths (at most the largest
  window) and \<open>next_seq_number\<close> is the acknowledged number plus it; the timer runs
  exactly while segments are outstanding; the outstanding segments are consecutive from
  the acknowledged number and none is empty.
\<close>

definition sender_wf :: "tcp_sender \<Rightarrow> bool" where
  "sender_wf s \<longleftrightarrow>
     bs_wf (input s) \<and>
     total_outgoing_seq s = of_nat (seq_total (pending_messages s)) \<and>
     seq_total (pending_messages s) \<le> 65535 \<and>
     next_seq_number s = ack_sequence_number s + total_outgoing_seq s \<and>
     (timer_active (retrans_timer s) \<longleftrightarrow> pending_messages s \<noteq> []) \<and>
     contiguous (ack_sequence_number s) (isn s) (pending_messages s) \<and>
     (\<forall>m \<in> set (pending_messages s). 0 < sequence_length m)"

text \<open>
  What a run of the push loop from \<open>s\<close> to \<open>s'\<close>, sending \<open>tx\<close>, guarantees: the
  invariant; the payloads are the bytes taken from the input stream, sent at
  consecutive sequence numbers and queued as outstanding; the window is respected and
  the loop stops only when blocked; the fields \<open>push\<close> does not touch are kept; the
  segment flags (RST from the error flag, FIN only on a closed stream, SYN only first).
\<close>

definition push_post :: "tcp_sender \<Rightarrow> tcp_sender \<Rightarrow> tcp_sender_message list \<Rightarrow> bool" where
  "push_post s s' tx \<longleftrightarrow> sender_wf s' \<and>
     concat (map payload tx) @ contents (input s') = contents (input s) \<and>
     pending_messages s' = pending_messages s @ tx \<and>
     next_seq_number s' = next_seq_number s + of_nat (seq_total tx) \<and>
     (total_outgoing_seq s < eff_window s \<longrightarrow> total_outgoing_seq s' \<le> eff_window s) \<and>
     (eff_window s \<le> total_outgoing_seq s \<longrightarrow> s' = s \<and> tx = []) \<and>
     (eff_window s \<le> total_outgoing_seq s' \<or> FIN_sent_flag s' \<or>
        (contents (input s') = [] \<and> \<not> closed (input s'))) \<and>
     (\<forall>m \<in> set tx. length (payload m) \<le> 1000) \<and>
     window_capacity s' = window_capacity s \<and> isn s' = isn s \<and>
     ack_sequence_number s' = ack_sequence_number s \<and> retrans_count s' = retrans_count s \<and>
     initial_RTO_ms s' = initial_RTO_ms s \<and>
     pushed_sum (input s') = pushed_sum (input s) \<and> closed (input s') = closed (input s) \<and>
     error_flag (input s') = error_flag (input s) \<and> capacity (input s') = capacity (input s) \<and>
     (\<forall>m \<in> set tx. RST m = error_flag (input s) \<and> (FIN m \<longrightarrow> closed (input s)) \<and>
        (SYN m \<longrightarrow> \<not> SYN_sent_flag s)) \<and>
     (\<forall>m \<in> set (drop 1 tx). \<not> SYN m) \<and>
     (tx \<noteq> [] \<longrightarrow> SYN (hd tx) = (\<not> SYN_sent_flag s)) \<and>
     (\<not> SYN_sent_flag s \<and> total_outgoing_seq s < eff_window s \<and> \<not> FIN_sent_flag s \<longrightarrow> tx \<noteq> []) \<and>
     (FIN_sent_flag s \<longrightarrow> s' = s \<and> tx = []) \<and>
     (\<forall>m \<in> set (butlast tx). \<not> FIN m) \<and>
     FIN_sent_flag s' = (FIN_sent_flag s \<or> (\<exists>m \<in> set tx. FIN m)) \<and>
     ((\<exists>m \<in> set tx. FIN m) \<longrightarrow> contents (input s') = []) \<and>
     SYN_sent_flag s' = (SYN_sent_flag s \<or> tx \<noteq> [])"

section \<open>The fill loop\<close>

text \<open>
  On a well-formed stream the fill loop ends, and it moves the first bytes of the
  stream, as many as are wanted, to the end of the payload.
\<close>

lemma fill_payload_Some:
  assumes "bs_wf s" "length pl \<le> n"
  shows "\<exists>s'. fill_payload n pl s = Some (pl @ take (n - length pl) (contents s), s') \<and>
           contents s' = drop (n - length pl) (contents s) \<and> bs_wf s' \<and>
           pushed_sum s' = pushed_sum s \<and> closed s' = closed s \<and>
           error_flag s' = error_flag s \<and> capacity s' = capacity s"
  using assms
proof (induction "buffered_sum s" arbitrary: s pl rule: less_induct)
  case less
  show ?case
  proof (cases "buffered_sum s \<noteq> 0 \<and> length pl < n")
    case True
    define view where "view = take (n - length pl) (reader_peek s)"
    obtain r where c: "contents s = reader_peek s @ r" using peek_prefix_contents[OF less.prems(1)] by blast
    have ne: "reader_peek s \<noteq> []" using reader_peek_nonempty[OF less.prems(1)] True by auto
    have vne: "view \<noteq> []" unfolding view_def using ne True by simp
    have vc: "contents s = view @ drop (length view) (contents s)"
      unfolding view_def c by (simp add: min_def)
    have blen: "buffered_sum s = length (contents s)" using less.prems(1) by (simp add: bs_wf_def)
    have vlen: "length view \<le> buffered_sum s" using vc blen by (metis le_add1 length_append)
    obtain s1 where s1: "reader_pop (length view) s = Some s1" "contents s1 = drop (length view) (contents s)"
      "bs_wf s1" "pushed_sum s1 = pushed_sum s" "closed s1 = closed s" "error_flag s1 = error_flag s"
      "capacity s1 = capacity s"
      using reader_pop_Some[OF less.prems(1) vlen] by blast
    have lt: "buffered_sum s1 < buffered_sum s"
      using s1(2,3) blen vne vlen True by (simp add: bs_wf_def)
    have vn: "length (pl @ view) \<le> n" unfolding view_def using True by (auto simp: min_def)
    obtain s' where IH: "fill_payload n (pl @ view) s1 =
        Some (pl @ view @ take (n - length (pl @ view)) (contents s1), s')"
      "contents s' = drop (n - length (pl @ view)) (contents s1)" "bs_wf s'"
      "pushed_sum s' = pushed_sum s1" "closed s' = closed s1" "error_flag s' = error_flag s1"
      "capacity s' = capacity s1"
      using less.hyps[OF lt s1(3) vn] by auto
    have k: "length view \<le> n - length pl" unfolding view_def by simp
    have tk: "view @ take (n - length (pl @ view)) (contents s1) = take (n - length pl) (contents s)"
    proof -
      have "take (n - length pl) (contents s) =
            view @ take (n - length pl - length view) (drop (length view) (contents s))"
        by (subst vc) (simp add: k)
      then show ?thesis using s1(2) by (simp add: diff_diff_add)
    qed
    have "n - (length pl + length view) + length view = n - length pl" using k by linarith
    then have dr: "drop (n - length (pl @ view)) (contents s1) = drop (n - length pl) (contents s)"
      using s1(2) by simp
    have "fill_payload n pl s = fill_payload n (pl @ view) s1"
      using True s1(1) by (subst fill_payload.simps) (simp add: view_def Let_def)
    then show ?thesis using IH tk dr s1 by simp
  next
    case False
    then have "contents s = [] \<or> n - length pl = 0"
      using less.prems by (auto simp: bs_wf_def)
    moreover have "fill_payload n pl s = Some (pl, s)"
      using False by (subst fill_payload.simps) auto
    ultimately show ?thesis using less.prems(1) by auto
  qed
qed

section \<open>One segment\<close>

lemma eff_window_bounds: "1 \<le> unat (eff_window s) \<and> unat (eff_window s) \<le> 65535"
proof -
  have "unat (window_capacity s) < 2 ^ 16" using unat_lt2p[of "window_capacity s"] by simp
  moreover have "window_capacity s \<noteq> 0 \<Longrightarrow> unat (window_capacity s) \<noteq> 0"
    by (simp add: unat_eq_zero)
  ultimately show ?thesis by (auto simp: eff_window_def unsigned_ucast_eq take_bit_nat_eq_self)
qed

lemma eff_window_upd [simp]:
  "eff_window (s\<lparr>SYN_sent_flag := b\<rparr>) = eff_window s" "eff_window (s\<lparr>FIN_sent_flag := b\<rparr>) = eff_window s"
  "eff_window (s\<lparr>input := i\<rparr>) = eff_window s" "eff_window (s\<lparr>retrans_timer := t\<rparr>) = eff_window s"
  "eff_window (s\<lparr>retrans_count := c\<rparr>) = eff_window s"
  "eff_window (s\<lparr>next_seq_number := n, total_outgoing_seq := x, pending_messages := p\<rparr>) = eff_window s"
  by (simp_all add: eff_window_def)

lemma make_empty_message_fields [simp]:
  "seqno (make_empty_message s) = wrap (next_seq_number s) (isn s)"
  "SYN (make_empty_message s) = False" "payload (make_empty_message s) = []"
  "FIN (make_empty_message s) = False" "RST (make_empty_message s) = error_flag (input s)"
  by (simp_all add: make_empty_message_def)

lemma unat_min_word [word_to_nat]: "unat (min a b) = min (unat a) (unat (b :: 'a::len word))"
  by (simp add: min_def word_le_nat_alt)

lemma unat_of_nat_small [word_to_nat]: "n \<le> 65535 \<Longrightarrow> unat (of_nat n :: u64) = n"
  by (simp add: unat_of_nat)

lemma seq_len64_less: "sequence_length m \<le> 65535 \<Longrightarrow>
    (seq_len64 m < r) = (sequence_length m < unat r)"
  by (simp add: seq_len64_def word_less_nat_alt unat_of_nat_small)

text \<open>
  While the window has room, \<open>make_segment\<close> ends; its segment carries the next
  sequence number, SYN if it was not yet sent, the first \<open>k\<close> bytes of the input, and
  FIN when the input is finished and the window still has room; its sequence length
  fits in the window.
\<close>

lemma make_segment_Some:
  assumes wf: "bs_wf (input s)" and lt: "total_outgoing_seq s < eff_window s"
  defines "rem \<equiv> unat (eff_window s) - unat (total_outgoing_seq s)"
  defines "k \<equiv> min 1000 (rem - (if SYN_sent_flag s then 0 else 1))"
  shows "\<exists>msg inp. make_segment s = Some (msg, s\<lparr>input := inp, SYN_sent_flag := True,
                   FIN_sent_flag := (FIN_sent_flag s \<or> FIN msg)\<rparr>) \<and>
           seqno msg = wrap (next_seq_number s) (isn s) \<and> SYN msg = (\<not> SYN_sent_flag s) \<and>
           payload msg = take k (contents (input s)) \<and> RST msg = error_flag (input s) \<and>
           FIN msg = (\<not> FIN_sent_flag s \<and> (if SYN_sent_flag s then 0 else 1) + length (payload msg) < rem \<and>
                      reader_is_finished inp) \<and>
           contents inp = drop k (contents (input s)) \<and> bs_wf inp \<and>
           pushed_sum inp = pushed_sum (input s) \<and> closed inp = closed (input s) \<and>
           error_flag inp = error_flag (input s) \<and> capacity inp = capacity (input s) \<and>
           sequence_length msg \<le> rem"
proof -
  define sl1 :: nat where "sl1 = (if SYN_sent_flag s then 0 else 1)"
  have W: "1 \<le> unat (eff_window s)" "unat (eff_window s) \<le> 65535" using eff_window_bounds by auto
  have ltn: "unat (total_outgoing_seq s) < unat (eff_window s)" using lt by (simp add: word_less_nat_alt)
  have rem: "unat (eff_window s - total_outgoing_seq s) = rem" "1 \<le> rem" "rem \<le> 65535"
    unfolding rem_def using ltn W lt by (simp_all add: unat_sub less_imp_le)
  have sl1: "sl1 \<le> 1" unfolding sl1_def by simp
  have "unat (eff_window s - total_outgoing_seq s - of_nat sl1) = rem - sl1"
    using rem sl1 by (simp add: unat_sub word_le_nat_alt unat_of_nat_small)
  then have pl: "unat (min max_payload_size (eff_window s - total_outgoing_seq s - of_nat sl1)) = k"
    unfolding k_def sl1_def[symmetric] by (simp add: unat_min_word max_payload_size_def)
  obtain inp where f: "fill_payload k [] (input s) = Some (take k (contents (input s)), inp)"
    "contents inp = drop k (contents (input s))" "bs_wf inp" "pushed_sum inp = pushed_sum (input s)"
    "closed inp = closed (input s)" "error_flag inp = error_flag (input s)"
    "capacity inp = capacity (input s)"
    using fill_payload_Some[OF wf, of "[]" k] by auto
  define msg2 where "msg2 = (make_empty_message s)\<lparr>SYN := \<not> SYN_sent_flag s, payload := take k (contents (input s))\<rparr>"
  have len2: "sequence_length msg2 = sl1 + min k (length (contents (input s)))"
    by (simp add: msg2_def sl1_def sequence_length_def make_empty_message_def)
  have k_le: "sl1 + k \<le> rem" unfolding k_def sl1_def using rem(2) by auto
  have fin_eq: "(seq_len64 msg2 < eff_window s - total_outgoing_seq s) = (sequence_length msg2 < rem)"
    using seq_len64_less[of msg2] len2 k_le rem by simp
  let ?fin = "\<not> FIN_sent_flag s \<and> sequence_length msg2 < rem \<and> reader_is_finished inp"
  define msg where "msg = (if ?fin then msg2\<lparr>FIN := True\<rparr> else msg2)"
  have fm: "FIN msg = ?fin" by (simp add: msg_def msg2_def)
  have "make_segment s = Some (msg, if ?fin then s\<lparr>SYN_sent_flag := True, input := inp, FIN_sent_flag := True\<rparr>
      else s\<lparr>SYN_sent_flag := True, input := inp\<rparr>)"
    using f(1) pl fin_eq unfolding msg_def
    by (cases "SYN_sent_flag s")
      (simp_all add: make_segment_def Let_def msg2_def sl1_def seq_len64_def sequence_length_def)
  also have "(if ?fin then s\<lparr>SYN_sent_flag := True, input := inp, FIN_sent_flag := True\<rparr>
      else s\<lparr>SYN_sent_flag := True, input := inp\<rparr>) =
      s\<lparr>input := inp, SYN_sent_flag := True, FIN_sent_flag := (FIN_sent_flag s \<or> FIN msg)\<rparr>"
    unfolding fm by (cases s) auto
  finally have ms: "make_segment s = Some (msg, s\<lparr>input := inp, SYN_sent_flag := True,
      FIN_sent_flag := (FIN_sent_flag s \<or> FIN msg)\<rparr>)" .
  have pm: "payload msg = take k (contents (input s))" "SYN msg = (\<not> SYN_sent_flag s)"
    "seqno msg = wrap (next_seq_number s) (isn s)" "RST msg = error_flag (input s)"
    by (simp_all add: msg_def msg2_def)
  have lm: "sequence_length msg = sequence_length msg2 + (if ?fin then 1 else 0)"
    by (simp add: msg_def msg2_def sequence_length_def)
  have l2: "sequence_length msg2 = (if SYN_sent_flag s then 0 else 1) + length (payload msg)"
    using len2 pm(1) by (simp add: sl1_def min.commute)
  show ?thesis
  proof (intro exI[of _ msg] exI[of _ inp] conjI)
    show "sequence_length msg \<le> rem" using lm len2 k_le by auto
    show "FIN msg = (\<not> FIN_sent_flag s \<and> (if SYN_sent_flag s then 0 else 1) + length (payload msg) < rem \<and>
                      reader_is_finished inp)" using fm l2 by simp
  qed (use ms pm f in simp_all)
qed

section \<open>The push loop\<close>

lemma contiguous_append:
  "contiguous a i (ms @ [m]) = (contiguous a i ms \<and> seqno m = wrap (a + of_nat (seq_total ms)) i)"
  by (induction ms arbitrary: a) (auto simp: seq_len64_def add.assoc)

lemma timer_active_activate [simp]: "timer_active (activate_timer t)"
  by (simp add: activate_timer_def reset_timer_def)

lemma send_segment_wf:
  assumes wf: "sender_wf s" and seg: "seqno msg = wrap (next_seq_number s) (isn s)"
    and pos: "0 < sequence_length msg"
    and fits: "unat (total_outgoing_seq s) + sequence_length msg \<le> 65535"
  shows "sender_wf (send_segment msg s)"
proof -
  have u: "unat (total_outgoing_seq s) = seq_total (pending_messages s)"
    using wf by (simp add: sender_wf_def unat_of_nat_small)
  have "seqno msg = wrap (ack_sequence_number s + of_nat (seq_total (pending_messages s))) (isn s)"
    using wf seg by (simp add: sender_wf_def)
  then show ?thesis
    using wf pos fits u
    by (auto simp: sender_wf_def send_segment_def contiguous_append seq_len64_def add.assoc)
qed

lemma wf_flags_input:
  "sender_wf s \<Longrightarrow> bs_wf i \<Longrightarrow>
   sender_wf (s\<lparr>input := i, SYN_sent_flag := a, FIN_sent_flag := b\<rparr>)"
  by (simp add: sender_wf_def)

lemma total_send_segment:
  "sender_wf s \<Longrightarrow> unat (total_outgoing_seq s) + sequence_length msg \<le> 65535 \<Longrightarrow>
   unat (total_outgoing_seq (send_segment msg s)) = unat (total_outgoing_seq s) + sequence_length msg"
  by (simp add: sender_wf_def send_segment_def seq_len64_def unat_of_nat_small
      flip: of_nat_add)

text \<open>
  On a well-formed sender the push loop ends. It transmits segments whose payloads,
  in order, are the bytes it takes from the front of the input; it appends them to the
  outstanding queue; it never fills the window past the effective window; and it stops
  only when the window is full, FIN is sent, or the input is empty and still open.
\<close>

text \<open>The same facts for a given result of \<open>make_segment\<close>.\<close>

lemma make_segment_Some_eq:
  assumes bs: "bs_wf (input s)" and lt: "total_outgoing_seq s < eff_window s"
    and m: "make_segment s = Some (msg, s3)"
  defines "rem \<equiv> unat (eff_window s) - unat (total_outgoing_seq s)"
  defines "k \<equiv> min 1000 (rem - (if SYN_sent_flag s then 0 else 1))"
  shows "\<exists>inp. s3 = s\<lparr>input := inp, SYN_sent_flag := True, FIN_sent_flag := (FIN_sent_flag s \<or> FIN msg)\<rparr> \<and>
           seqno msg = wrap (next_seq_number s) (isn s) \<and> SYN msg = (\<not> SYN_sent_flag s) \<and>
           payload msg = take k (contents (input s)) \<and> RST msg = error_flag (input s) \<and>
           FIN msg = (\<not> FIN_sent_flag s \<and> (if SYN_sent_flag s then 0 else 1) + length (payload msg) < rem \<and>
                      reader_is_finished inp) \<and>
           contents inp = drop k (contents (input s)) \<and> bs_wf inp \<and>
           pushed_sum inp = pushed_sum (input s) \<and> closed inp = closed (input s) \<and>
           error_flag inp = error_flag (input s) \<and> capacity inp = capacity (input s) \<and>
           sequence_length msg \<le> rem"
proof -
  obtain msg' inp where f: "make_segment s = Some (msg', s\<lparr>input := inp, SYN_sent_flag := True,
                   FIN_sent_flag := (FIN_sent_flag s \<or> FIN msg')\<rparr>) \<and>
           seqno msg' = wrap (next_seq_number s) (isn s) \<and> SYN msg' = (\<not> SYN_sent_flag s) \<and>
           payload msg' = take k (contents (input s)) \<and> RST msg' = error_flag (input s) \<and>
           FIN msg' = (\<not> FIN_sent_flag s \<and> (if SYN_sent_flag s then 0 else 1) + length (payload msg') < rem \<and>
                      reader_is_finished inp) \<and>
           contents inp = drop k (contents (input s)) \<and> bs_wf inp \<and>
           pushed_sum inp = pushed_sum (input s) \<and> closed inp = closed (input s) \<and>
           error_flag inp = error_flag (input s) \<and> capacity inp = capacity (input s) \<and>
           sequence_length msg' \<le> rem"
    using make_segment_Some[OF bs lt] unfolding rem_def k_def by blast
  then have "msg' = msg" "s3 = s\<lparr>input := inp, SYN_sent_flag := True, FIN_sent_flag := (FIN_sent_flag s \<or> FIN msg')\<rparr>"
    using m by auto
  then show ?thesis using f by blast
qed

lemma push_post_stop:
  "sender_wf s \<Longrightarrow> \<not> (total_outgoing_seq s < eff_window s \<and> \<not> FIN_sent_flag s) \<Longrightarrow> push_post s s []"
  by (auto simp: push_post_def not_less)

text \<open>A segment of length 0 (nothing to send) ends the loop in the state \<open>make_segment\<close> left.\<close>

lemma push_post_empty_segment:
  assumes wf: "sender_wf s" and go: "total_outgoing_seq s < eff_window s" "\<not> FIN_sent_flag s"
    and m: "make_segment s = Some (msg, s3)" and z: "sequence_length msg = 0"
  shows "push_post s s3 []"
proof -
  have bs: "bs_wf (input s)" using wf by (simp add: sender_wf_def)
  define rem where "rem = unat (eff_window s) - unat (total_outgoing_seq s)"
  define k where "k = min 1000 (rem - (if SYN_sent_flag s then 0 else 1))"
  obtain inp where f: "s3 = s\<lparr>input := inp, SYN_sent_flag := True, FIN_sent_flag := (FIN_sent_flag s \<or> FIN msg)\<rparr>"
      "SYN msg = (\<not> SYN_sent_flag s)" "payload msg = take k (contents (input s))"
      "FIN msg = (\<not> FIN_sent_flag s \<and> (if SYN_sent_flag s then 0 else 1) + length (payload msg) < rem \<and>
                 reader_is_finished inp)"
      "contents inp = drop k (contents (input s))" "bs_wf inp"
      "pushed_sum inp = pushed_sum (input s)" "closed inp = closed (input s)"
      "error_flag inp = error_flag (input s)" "capacity inp = capacity (input s)"
    using make_segment_Some_eq[OF bs go(1) m] unfolding rem_def k_def by blast
  have ltn: "unat (total_outgoing_seq s) < unat (eff_window s)" using go(1) by (simp add: word_less_nat_alt)
  have nm: "\<not> SYN msg" "\<not> FIN msg" "payload msg = []" using z by (auto simp: sequence_length_def)
  then have "1 \<le> k" using f(2) ltn by (simp add: k_def rem_def)
  then have c0: "contents (input s) = []" using f(3) nm by simp
  have "\<not> closed inp" using f(2,4,5,6) nm c0 go(2) ltn
    by (auto simp: rem_def reader_is_finished_def bs_wf_def)
  then show ?thesis
    using wf f nm c0 go wf_flags_input[OF wf f(6)] by (auto simp: push_post_def not_le)
qed

text \<open>
  Sending a nonempty segment keeps the invariant, lowers the room left in the window,
  and whatever the loop then guarantees from the new state it guarantees from \<open>s\<close> with
  the segment in front.
\<close>

lemma push_post_send:
  assumes wf: "sender_wf s" and go: "total_outgoing_seq s < eff_window s" "\<not> FIN_sent_flag s"
    and m: "make_segment s = Some (msg, s3)" and nz: "sequence_length msg \<noteq> 0"
  shows "sender_wf (send_segment msg s3) \<and>
         unat (eff_window (send_segment msg s3)) - unat (total_outgoing_seq (send_segment msg s3)) <
           unat (eff_window s) - unat (total_outgoing_seq s) \<and>
         (push_post (send_segment msg s3) s' tx \<longrightarrow> push_post s s' (msg # tx))"
proof -
  have bs: "bs_wf (input s)" using wf by (simp add: sender_wf_def)
  define rem where "rem = unat (eff_window s) - unat (total_outgoing_seq s)"
  define k where "k = min 1000 (rem - (if SYN_sent_flag s then 0 else 1))"
  obtain inp where f: "s3 = s\<lparr>input := inp, SYN_sent_flag := True, FIN_sent_flag := (FIN_sent_flag s \<or> FIN msg)\<rparr>"
      "seqno msg = wrap (next_seq_number s) (isn s)" "SYN msg = (\<not> SYN_sent_flag s)"
      "payload msg = take k (contents (input s))" "RST msg = error_flag (input s)"
      "FIN msg = (\<not> FIN_sent_flag s \<and> (if SYN_sent_flag s then 0 else 1) + length (payload msg) < rem \<and>
                 reader_is_finished inp)"
      "contents inp = drop k (contents (input s))" "bs_wf inp"
      "pushed_sum inp = pushed_sum (input s)" "closed inp = closed (input s)"
      "error_flag inp = error_flag (input s)" "capacity inp = capacity (input s)"
      "sequence_length msg \<le> rem"
    using make_segment_Some_eq[OF bs go(1) m] unfolding rem_def k_def by blast
  define s4 where "s4 = send_segment msg s3"
  have ltn: "unat (total_outgoing_seq s) < unat (eff_window s)" using go(1) by (simp add: word_less_nat_alt)
  have W: "unat (eff_window s) \<le> 65535" using eff_window_bounds by auto
  have wf3: "sender_wf s3" unfolding f(1) by (rule wf_flags_input[OF wf f(8)])
  have fits: "unat (total_outgoing_seq s3) + sequence_length msg \<le> 65535"
    using f(1,13) ltn W by (simp add: rem_def)
  have wf4: "sender_wf s4" unfolding s4_def
    using send_segment_wf[OF wf3 _ _ fits] f(1,2) nz by simp
  have t4: "unat (total_outgoing_seq s4) = unat (total_outgoing_seq s) + sequence_length msg"
    unfolding s4_def using total_send_segment[OF wf3 fits] f(1) by simp
  have w4: "eff_window s4 = eff_window s" unfolding s4_def send_segment_def by (simp add: f(1))
  have lt: "unat (eff_window s4) - unat (total_outgoing_seq s4) < unat (eff_window s) - unat (total_outgoing_seq s)"
    using t4 w4 nz f(13) ltn by (simp add: rem_def)
  have inp4: "input s4 = inp" by (simp add: s4_def send_segment_def f(1))
  have fl4: "SYN_sent_flag s4" "pending_messages s4 = pending_messages s @ [msg]"
    "next_seq_number s4 = next_seq_number s + seq_len64 msg"
    "window_capacity s4 = window_capacity s" "isn s4 = isn s"
    "ack_sequence_number s4 = ack_sequence_number s" "retrans_count s4 = retrans_count s"
    "initial_RTO_ms s4 = initial_RTO_ms s" "FIN_sent_flag s4 = FIN msg"
    using go(2) by (simp_all add: s4_def send_segment_def f(1))
  have fin: "FIN msg \<longrightarrow> closed (input s)" using f(6,10) by (auto simp: reader_is_finished_def)
  have pl: "length (payload msg) \<le> 1000" using f(4) by (simp add: k_def)
  have "push_post s4 s' tx \<longrightarrow> push_post s s' (msg # tx)"
  proof
    assume p: "push_post s4 s' tx"
    have tot: "total_outgoing_seq s' \<le> eff_window s"
    proof (cases "total_outgoing_seq s4 < eff_window s4")
      case True then show ?thesis using p w4 by (simp add: push_post_def)
    next
      case False
      then have "s' = s4" using p by (simp add: push_post_def not_less)
      moreover have "unat (total_outgoing_seq s4) \<le> unat (eff_window s)"
        using t4 f(13) ltn by (simp add: rem_def)
      ultimately show ?thesis by (simp add: word_le_nat_alt)
    qed
    have c: "payload msg @ contents inp = contents (input s)" using f(4,7) by simp
    have p': "concat (map payload tx) @ contents (input s') = contents (input s4)"
      "pending_messages s' = pending_messages s4 @ tx"
      "next_seq_number s' = next_seq_number s4 + of_nat (seq_total tx)"
      "eff_window s4 \<le> total_outgoing_seq s' \<or> FIN_sent_flag s' \<or>
         (contents (input s') = [] \<and> \<not> closed (input s'))"
      "\<forall>m \<in> set tx. RST m = error_flag (input s4) \<and> (FIN m \<longrightarrow> closed (input s4)) \<and>
         (SYN m \<longrightarrow> \<not> SYN_sent_flag s4)"
      using p unfolding push_post_def by blast+
    show "push_post s s' (msg # tx)"
      unfolding push_post_def
    proof (intro conjI)
      show "concat (map payload (msg # tx)) @ contents (input s') = contents (input s)"
        using p'(1) c inp4 by simp
      show "pending_messages s' = pending_messages s @ msg # tx" using p'(2) fl4(2) by simp
      show "next_seq_number s' = next_seq_number s + of_nat (seq_total (msg # tx))"
        using p'(3) fl4(3) by (simp add: seq_len64_def add.assoc)
      show "eff_window s \<le> total_outgoing_seq s' \<or> FIN_sent_flag s' \<or>
          (contents (input s') = [] \<and> \<not> closed (input s'))" using p'(4) w4 by simp
      show "\<forall>m \<in> set (msg # tx). RST m = error_flag (input s) \<and> (FIN m \<longrightarrow> closed (input s)) \<and>
          (SYN m \<longrightarrow> \<not> SYN_sent_flag s)" using p'(5) f(3,5,11,10) fin inp4 fl4(1) by simp
      show "\<forall>m \<in> set (drop 1 (msg # tx)). \<not> SYN m" using p'(5) fl4(1) by simp
      have "FIN msg \<Longrightarrow> tx = []" using p fl4(9) unfolding push_post_def by simp
      moreover have "\<forall>m \<in> set (butlast tx). \<not> FIN m" using p unfolding push_post_def by blast
      ultimately show "\<forall>m \<in> set (butlast (msg # tx)). \<not> FIN m"
        by (cases tx) auto
      have "FIN_sent_flag s' = (FIN msg \<or> (\<exists>m \<in> set tx. FIN m))"
        using p fl4(9) unfolding push_post_def by simp
      then show "FIN_sent_flag s' = (FIN_sent_flag s \<or> (\<exists>m \<in> set (msg # tx). FIN m))"
        using go(2) by simp
      have "FIN msg \<Longrightarrow> s' = s4" using p fl4(9) unfolding push_post_def by simp
      moreover have "FIN msg \<Longrightarrow> contents inp = []"
        using f(6,8) by (auto simp: reader_is_finished_def bs_wf_def)
      moreover have "(\<exists>m \<in> set tx. FIN m) \<longrightarrow> contents (input s') = []"
        using p unfolding push_post_def by blast
      ultimately show "(\<exists>m \<in> set (msg # tx). FIN m) \<longrightarrow> contents (input s') = []"
        using inp4 by auto
      show "SYN_sent_flag s' = (SYN_sent_flag s \<or> msg # tx \<noteq> [])"
        using p fl4(1) unfolding push_post_def by simp
    qed (use p tot go inp4 fl4 f(3,9-12) pl in \<open>simp_all add: push_post_def not_le\<close>)
  qed
  then show ?thesis using wf4 lt by (simp add: s4_def)
qed

lemma push_loop_Some:
  assumes "sender_wf s"
  shows "\<exists>s' tx'. push_loop s tx = Some (s', tx @ tx') \<and> push_post s s' tx'"
  using assms
proof (induction "unat (eff_window s) - unat (total_outgoing_seq s)" arbitrary: s tx rule: less_induct)
  case less
  show ?case
  proof (cases "total_outgoing_seq s < eff_window s \<and> \<not> FIN_sent_flag s")
    case False
    then have "push_loop s tx = Some (s, tx)" by (subst push_loop.simps) auto
    then show ?thesis using push_post_stop[OF less.prems False] by auto
  next
    case go: True
    have bs: "bs_wf (input s)" using less.prems by (simp add: sender_wf_def)
    obtain msg s3 where m: "make_segment s = Some (msg, s3)"
      using make_segment_Some[OF bs] go by blast
    show ?thesis
    proof (cases "sequence_length msg = 0")
      case True
      then have "push_loop s tx = Some (s3, tx)" using go m by (subst push_loop.simps) simp
      then show ?thesis using push_post_empty_segment[OF less.prems _ _ m True] go by auto
    next
      case False
      have step: "push_loop s tx = push_loop (send_segment msg s3) (tx @ [msg])"
        using go m False by (subst push_loop.simps) simp
      have snd: "sender_wf (send_segment msg s3)"
        "unat (eff_window (send_segment msg s3)) - unat (total_outgoing_seq (send_segment msg s3)) <
           unat (eff_window s) - unat (total_outgoing_seq s)"
        using push_post_send[OF less.prems _ _ m False] go by auto
      obtain s' tx'' where IH: "push_loop (send_segment msg s3) (tx @ [msg]) = Some (s', (tx @ [msg]) @ tx'')"
        "push_post (send_segment msg s3) s' tx''"
        using less.hyps[OF snd(2) snd(1), of "tx @ [msg]"] by blast
      have "push_post s s' (msg # tx'')" using push_post_send[OF less.prems _ _ m False] go IH(2) by auto
      then show ?thesis using step IH(1) by auto
    qed
  qed
qed

lemma push_Some:
  assumes "sender_wf s"
  shows "\<exists>s' tx. tcp_sender_push s = Some (s', tx) \<and> sender_wf s' \<and>
           concat (map payload tx) @ contents (input s') = contents (input s) \<and>
           pending_messages s' = pending_messages s @ tx \<and>
           next_seq_number s' = next_seq_number s + of_nat (seq_total tx) \<and>
           (total_outgoing_seq s < eff_window s \<longrightarrow> total_outgoing_seq s' \<le> eff_window s) \<and>
           (eff_window s \<le> total_outgoing_seq s \<longrightarrow> s' = s \<and> tx = []) \<and>
           (eff_window s \<le> total_outgoing_seq s' \<or> FIN_sent_flag s' \<or>
              (contents (input s') = [] \<and> \<not> closed (input s'))) \<and>
           (\<forall>m \<in> set tx. length (payload m) \<le> 1000) \<and>
           window_capacity s' = window_capacity s \<and> isn s' = isn s \<and>
           ack_sequence_number s' = ack_sequence_number s \<and> retrans_count s' = retrans_count s \<and>
           initial_RTO_ms s' = initial_RTO_ms s \<and>
           pushed_sum (input s') = pushed_sum (input s) \<and> closed (input s') = closed (input s) \<and>
           error_flag (input s') = error_flag (input s) \<and> capacity (input s') = capacity (input s) \<and>
           (\<forall>m \<in> set tx. RST m = error_flag (input s) \<and> (FIN m \<longrightarrow> closed (input s)) \<and>
              (SYN m \<longrightarrow> \<not> SYN_sent_flag s)) \<and>
           (\<forall>m \<in> set (drop 1 tx). \<not> SYN m) \<and>
           (tx \<noteq> [] \<longrightarrow> SYN (hd tx) = (\<not> SYN_sent_flag s)) \<and>
           (\<not> SYN_sent_flag s \<and> total_outgoing_seq s < eff_window s \<and> \<not> FIN_sent_flag s \<longrightarrow> tx \<noteq> []) \<and>
           (FIN_sent_flag s \<longrightarrow> s' = s \<and> tx = []) \<and>
           (\<forall>m \<in> set (butlast tx). \<not> FIN m) \<and>
           FIN_sent_flag s' = (FIN_sent_flag s \<or> (\<exists>m \<in> set tx. FIN m)) \<and>
           ((\<exists>m \<in> set tx. FIN m) \<longrightarrow> contents (input s') = []) \<and>
           SYN_sent_flag s' = (SYN_sent_flag s \<or> tx \<noteq> [])"
  using push_loop_Some[OF assms, of "[]"] by (simp add: tcp_sender_push_def push_post_def)

section \<open>Acknowledgements\<close>

lemma contiguous_append_gen:
  "contiguous a i (xs @ ys) = (contiguous a i xs \<and> contiguous (a + of_nat (seq_total xs)) i ys)"
  by (induction xs arbitrary: a) (auto simp: seq_len64_def add.assoc)

text \<open>
  The acknowledgement loop removes a prefix of the queue: each removed segment ends at
  or before the acknowledged number, and the first one kept ends after it.
\<close>

lemma ack_loop_spec:
  "ack_loop r a t pend acked = (a', t', pend', acked') \<Longrightarrow>
   \<exists>pre. pend = pre @ pend' \<and> a' = a + of_nat (seq_total pre) \<and> t' = t - of_nat (seq_total pre) \<and>
     acked' = (acked \<or> pre \<noteq> []) \<and>
     (\<forall>i < length pre. a + of_nat (seq_total (take (Suc i) pre)) \<le> r) \<and>
     (pend' \<noteq> [] \<longrightarrow> r < a' + seq_len64 (hd pend'))"
proof (induction r a t pend acked rule: ack_loop.induct)
  case (2 r a t m rest acked)
  show ?case
  proof (cases "r < a + seq_len64 m")
    case True
    then show ?thesis using "2.prems" by auto
  next
    case False
    then have "ack_loop r (a + seq_len64 m) (t - seq_len64 m) rest True = (a', t', pend', acked')"
      using "2.prems" by simp
    from "2.IH"[OF False this] obtain pre where p: "rest = pre @ pend'"
      "a' = a + seq_len64 m + of_nat (seq_total pre)" "t' = t - seq_len64 m - of_nat (seq_total pre)"
      "acked' = True" "\<forall>i < length pre. a + seq_len64 m + of_nat (seq_total (take (Suc i) pre)) \<le> r"
      "pend' \<noteq> [] \<longrightarrow> r < a' + seq_len64 (hd pend')"
      by auto
    have "\<forall>i < length (m # pre). a + of_nat (seq_total (take (Suc i) (m # pre))) \<le> r"
    proof (intro allI impI)
      fix i assume "i < length (m # pre)"
      then show "a + of_nat (seq_total (take (Suc i) (m # pre))) \<le> r"
        using p(5) False by (cases i) (auto simp: seq_len64_def add.assoc not_less)
    qed
    then show ?thesis using p
      by (intro exI[of _ "m # pre"]) (simp add: seq_len64_def algebra_simps)
  qed
qed simp

text \<open>
  An acknowledgement of everything sent (the wrap of \<open>next_seq_number\<close>) empties the
  queue of outstanding segments, while the absolute numbers do not wrap around \<open>2^64\<close>.
\<close>

lemma receive_ack_everything:
  assumes wf: "sender_wf s" and ne: "\<not> error_flag (input s)"
    and nw: "unat (ack_sequence_number s) + seq_total (pending_messages s) < 2 ^ 64"
  shows "pending_messages (tcp_sender_receive \<lparr>ackno = Some (wrap (next_seq_number s) (isn s)),
             window_size = w, ack_RST = False\<rparr> s) = [] \<and>
         total_outgoing_seq (tcp_sender_receive \<lparr>ackno = Some (wrap (next_seq_number s) (isn s)),
             window_size = w, ack_RST = False\<rparr> s) = 0"
proof -
  define r where "r = next_seq_number s"
  define A where "A = unat (ack_sequence_number s)"
  define T where "T = seq_total (pending_messages s)"
  have u: "unwrap (wrap r (isn s)) (isn s) r = r"
    by (rule unwrap_near) (simp_all add: wrap_def)
  have tot: "total_outgoing_seq s = of_nat T" and T: "T \<le> 65535"
    and rn: "r = ack_sequence_number s + total_outgoing_seq s"
    using wf by (simp_all add: sender_wf_def T_def r_def)
  have ackA: "ack_sequence_number s = of_nat A" by (simp add: A_def)
  have nw': "A + T < 2 ^ 64" using nw by (simp add: A_def T_def)
  have rA: "r = of_nat (A + T)" unfolding rn tot ackA by simp
  have ur: "unat r = A + T"
    unfolding rA unat_of_nat using nw' by simp
  obtain a' t' pend' acked' where al:
    "ack_loop r (ack_sequence_number s) (total_outgoing_seq s) (pending_messages s) False = (a', t', pend', acked')"
    by (cases "ack_loop r (ack_sequence_number s) (total_outgoing_seq s) (pending_messages s) False") auto
  obtain pre where sp: "pending_messages s = pre @ pend'" "a' = ack_sequence_number s + of_nat (seq_total pre)"
    "t' = total_outgoing_seq s - of_nat (seq_total pre)"
    "pend' \<noteq> [] \<longrightarrow> r < a' + seq_len64 (hd pend')"
    using ack_loop_spec[OF al] by blast
  have pe: "pend' = []"
  proof (rule ccontr)
    assume "pend' \<noteq> []"
    then obtain h rest where h: "pend' = h # rest" by (cases pend') auto
    have le: "seq_total pre + sequence_length h \<le> T" using sp(1) h by (simp add: T_def)
    have aA: "a' + seq_len64 h = of_nat (A + (seq_total pre + sequence_length h))"
      using sp(2) ackA by (simp add: seq_len64_def)
    have "unat (a' + seq_len64 h) = A + (seq_total pre + sequence_length h)"
      unfolding aA unat_of_nat using le nw' by simp
    then have "\<not> r < a' + seq_len64 h" using ur le by (simp add: word_less_nat_alt)
    then show False using sp(4) h by simp
  qed
  have t0: "t' = 0" using sp(1,3) pe tot by (simp add: T_def)
  have "\<not> r < unwrap (wrap r (isn s)) (isn s) r" using u by simp
  then show ?thesis
    using ne al pe t0 u unfolding r_def
    by (simp add: tcp_sender_receive_def Let_def)
qed

lemma reload_timer_active [simp]: "timer_active (reload_timer r t) = timer_active t"
  by (simp add: reload_timer_def reset_timer_def)

lemma deactivate_timer_active [simp]: "\<not> timer_active (deactivate_timer t)"
  by (simp add: deactivate_timer_def reset_timer_def)

lemma sender_receive_wf [wf_preserved]: "sender_wf s \<Longrightarrow> sender_wf (tcp_sender_receive msg s)"
proof -
  assume wf: "sender_wf s"
  { fix a assume a: "ackno msg = Some a" "\<not> error_flag (input s)" "\<not> ack_RST msg"
      "\<not> next_seq_number s < unwrap a (isn s) (next_seq_number s)"
    obtain a' t' pend' acked' where l: "ack_loop (unwrap a (isn s) (next_seq_number s))
        (ack_sequence_number s) (total_outgoing_seq s) (pending_messages s) False = (a', t', pend', acked')"
      by (cases "ack_loop (unwrap a (isn s) (next_seq_number s)) (ack_sequence_number s)
          (total_outgoing_seq s) (pending_messages s) False") auto
    from ack_loop_spec[OF l] obtain pre where p: "pending_messages s = pre @ pend'"
      "a' = ack_sequence_number s + of_nat (seq_total pre)"
      "t' = total_outgoing_seq s - of_nat (seq_total pre)" "acked' = (pre \<noteq> [])"
      by auto
    have t': "t' = of_nat (seq_total pend')" using wf p(1,3) by (simp add: sender_wf_def)
    have "sender_wf (tcp_sender_receive msg s)"
      using wf a l p t' unfolding tcp_sender_receive_def
      by (auto simp: sender_wf_def contiguous_append_gen Let_def algebra_simps) }
  then show ?thesis
    using wf by (auto simp: tcp_sender_receive_def sender_wf_def set_error_wf Let_def
        split: option.splits)
qed

section \<open>Ticks, runs\<close>

lemma timer_ops_active [simp]:
  "timer_active (advance_timer ms t) = timer_active t"
  "timer_active (apply_exponential_backoff t) = timer_active t"
  "timer_active (reset_timer t) = timer_active t"
  by (simp_all add: advance_timer_def apply_exponential_backoff_def reset_timer_def)

lemma tick_wf [wf_preserved]: "sender_wf s \<Longrightarrow> sender_wf (fst (tcp_sender_tick ms s))"
  by (auto simp: tcp_sender_tick_def sender_wf_def Let_def split: list.splits)

lemma write_wf [wf_preserved]: "sender_wf s \<Longrightarrow> sender_wf (s\<lparr>input := writer_push d (input s)\<rparr>)"
  by (simp add: sender_wf_def writer_push_wf)

lemma close_wf [wf_preserved]: "sender_wf s \<Longrightarrow> sender_wf (s\<lparr>input := writer_close (input s)\<rparr>)"
  by (simp add: sender_wf_def writer_close_wf)

lemma snd_step_wf: "sender_wf s \<Longrightarrow> snd_step op s = Some s' \<Longrightarrow> sender_wf s'"
proof (cases op)
  case SPush
  assume "sender_wf s" "snd_step op s = Some s'"
  then show ?thesis using push_Some[of s] SPush by auto
qed (auto intro: wf_preserved)

lemma tcp_sender_new_wf: "bs_wf inp \<Longrightarrow> sender_wf (tcp_sender_new inp i rto)"
  by (simp add: tcp_sender_new_def sender_wf_def retry_timer_new_def)

lemma snd_run_wf: "sender_wf s \<Longrightarrow> snd_run ops s = Some s' \<Longrightarrow> sender_wf s'"
proof (induction ops arbitrary: s)
  case (Cons op ops)
  then obtain s1 where "snd_step op s = Some s1" "snd_run ops s1 = Some s'"
    by (auto split: option.splits)
  with Cons.IH Cons.prems(1) snd_step_wf show ?case by blast
qed simp

section \<open>Properties\<close>

text \<open>
  C21: every state a sender reaches from a fresh one, whatever the application writes
  and the peer acknowledges and however time passes, satisfies the invariant: in
  particular \<open>sequence_numbers_in_flight\<close> is the sum of the sequence lengths of the
  outstanding segments (section 8 of the spec), the retransmission timer runs exactly
  while segments are outstanding, and the outstanding segments are consecutive from
  the acknowledged number.
\<close>

theorem sender_run_wf:
  "snd_run ops (tcp_sender_new (byte_stream_new cap) i rto) = Some s \<Longrightarrow> sender_wf s"
  by (rule snd_run_wf[OF tcp_sender_new_wf[OF byte_stream_new_wf]])

theorem sender_run_wf_witness:
  "snd_run [SWrite ''hi'', SPush, SReceive \<lparr>ackno = Some 1, window_size = 1000, ack_RST = False\<rparr>, SPush] (tcp_sender_new (byte_stream_new 10) 0 100) = Some \<lparr>input = \<lparr>capacity = 10, closed = False, error_flag = False, stream_q = [],
        prefix_len = 0, pushed_sum = 2, popped_sum = 2, buffered_sum = 0\<rparr>,
     isn = 0, initial_RTO_ms = 100, next_seq_number = 3, ack_sequence_number = 1,
     window_capacity = 1000,
     pending_messages = [\<lparr>seqno = 1, SYN = False, payload = ''hi'', FIN = False, RST = False\<rparr>],
     total_outgoing_seq = 2, retrans_count = 0, SYN_sent_flag = True, FIN_sent_flag = False,
     retrans_timer = \<lparr>timer_active = True, RTO_duration_ms = 100, timer_elapsed_ms = 0\<rparr>\<rparr> \<and> sender_wf \<lparr>input = \<lparr>capacity = 10, closed = False, error_flag = False, stream_q = [],
        prefix_len = 0, pushed_sum = 2, popped_sum = 2, buffered_sum = 0\<rparr>,
     isn = 0, initial_RTO_ms = 100, next_seq_number = 3, ack_sequence_number = 1,
     window_capacity = 1000,
     pending_messages = [\<lparr>seqno = 1, SYN = False, payload = ''hi'', FIN = False, RST = False\<rparr>],
     total_outgoing_seq = 2, retrans_count = 0, SYN_sent_flag = True, FIN_sent_flag = False,
     retrans_timer = \<lparr>timer_active = True, RTO_duration_ms = 100, timer_elapsed_ms = 0\<rparr>\<rparr>"
proof -
  have run: "snd_run [SWrite ''hi'', SPush, SReceive \<lparr>ackno = Some 1, window_size = 1000, ack_RST = False\<rparr>, SPush] (tcp_sender_new (byte_stream_new 10) 0 100) = Some \<lparr>input = \<lparr>capacity = 10, closed = False, error_flag = False, stream_q = [],
        prefix_len = 0, pushed_sum = 2, popped_sum = 2, buffered_sum = 0\<rparr>,
     isn = 0, initial_RTO_ms = 100, next_seq_number = 3, ack_sequence_number = 1,
     window_capacity = 1000,
     pending_messages = [\<lparr>seqno = 1, SYN = False, payload = ''hi'', FIN = False, RST = False\<rparr>],
     total_outgoing_seq = 2, retrans_count = 0, SYN_sent_flag = True, FIN_sent_flag = False,
     retrans_timer = \<lparr>timer_active = True, RTO_duration_ms = 100, timer_elapsed_ms = 0\<rparr>\<rparr>" by code_simp
  show ?thesis using run sender_run_wf[OF run] by simp
qed

text \<open>
  C22: on a well-formed sender, \<open>push\<close> returns, and it implements the outbound
  stream: the payloads it transmits, in order and followed by what stays in the input,
  are what the input held; the segments join the outstanding queue and occupy
  consecutive sequence numbers from \<open>next_seq_number\<close>.
\<close>

theorem push_refines_stream:
  assumes "sender_wf s"
  shows "\<exists>s' tx. tcp_sender_push s = Some (s', tx) \<and>
           concat (map payload tx) @ contents (input s') = contents (input s) \<and>
           pending_messages s' = pending_messages s @ tx \<and>
           contiguous (next_seq_number s) (isn s) tx"
proof -
  obtain s' tx where p: "tcp_sender_push s = Some (s', tx)" "sender_wf s'"
    "concat (map payload tx) @ contents (input s') = contents (input s)"
    "pending_messages s' = pending_messages s @ tx" "isn s' = isn s"
    "ack_sequence_number s' = ack_sequence_number s"
    using push_Some[OF assms] by (elim exE conjE) (rule that; assumption)
  have "contiguous (ack_sequence_number s) (isn s) (pending_messages s @ tx)"
    using p(2,4,5,6) by (simp add: sender_wf_def)
  then have "contiguous (next_seq_number s) (isn s) tx"
    using assms by (simp add: contiguous_append_gen sender_wf_def)
  with p show ?thesis by blast
qed

theorem push_refines_stream_witness:
  "sender_wf (tcp_sender_new (writer_push ''abc'' (byte_stream_new 5)) 7 100) \<and>
   (\<exists>s' tx. tcp_sender_push (tcp_sender_new (writer_push ''abc'' (byte_stream_new 5)) 7 100) = Some (s', tx)) \<and>
   map_option snd (tcp_sender_push (tcp_sender_new (writer_push ''abc'' (byte_stream_new 5)) 7 100)) =
     Some [\<lparr>seqno = 7, SYN = True, payload = [], FIN = False, RST = False\<rparr>]"
proof -
  have wf: "sender_wf (tcp_sender_new (writer_push ''abc'' (byte_stream_new 5)) 7 100)"
    by (rule tcp_sender_new_wf[OF writer_push_wf[OF byte_stream_new_wf]])
  have "\<exists>s' tx. tcp_sender_push (tcp_sender_new (writer_push ''abc'' (byte_stream_new 5)) 7 100) = Some (s', tx)"
    using push_refines_stream[OF wf] by blast
  moreover have "map_option snd (tcp_sender_push (tcp_sender_new (writer_push ''abc'' (byte_stream_new 5)) 7 100)) =
     Some [\<lparr>seqno = 7, SYN = True, payload = [], FIN = False, RST = False\<rparr>]"
    by code_simp
  ultimately show ?thesis using wf by simp
qed

text \<open>
  C23: \<open>push\<close> never puts more sequence numbers in flight than the effective window
  \<open>max(window, 1)\<close> allows, when it starts within it, and no payload exceeds
  \<open>MAX_PAYLOAD_SIZE\<close>.
\<close>

theorem push_within_window:
  assumes "sender_wf s" "total_outgoing_seq s \<le> eff_window s"
    and "tcp_sender_push s = Some (s', tx)"
  shows "total_outgoing_seq s' \<le> eff_window s' \<and> (\<forall>m \<in> set tx. length (payload m) \<le> 1000)"
proof -
  obtain s2 tx2 where p: "tcp_sender_push s = Some (s2, tx2)"
    "total_outgoing_seq s < eff_window s \<longrightarrow> total_outgoing_seq s2 \<le> eff_window s"
    "eff_window s \<le> total_outgoing_seq s \<longrightarrow> s2 = s \<and> tx2 = []"
    "\<forall>m \<in> set tx2. length (payload m) \<le> 1000" "window_capacity s2 = window_capacity s"
    using push_Some[OF assms(1)] by (elim exE conjE) (rule that; assumption)
  have "s2 = s'" "tx2 = tx" using p(1) assms(3) by simp_all
  moreover have "eff_window s2 = eff_window s" using p(5) by (simp add: eff_window_def)
  ultimately show ?thesis using p(2-4) assms(2) by (cases "total_outgoing_seq s < eff_window s") auto
qed

theorem push_within_window_witness:
  "sender_wf (tcp_sender_new (writer_push ''abc'' (byte_stream_new 5)) 7 100) \<and> total_outgoing_seq (tcp_sender_new (writer_push ''abc'' (byte_stream_new 5)) 7 100) \<le> eff_window (tcp_sender_new (writer_push ''abc'' (byte_stream_new 5)) 7 100) \<and>
   tcp_sender_push (tcp_sender_new (writer_push ''abc'' (byte_stream_new 5)) 7 100) = Some (fst (the (tcp_sender_push (tcp_sender_new (writer_push ''abc'' (byte_stream_new 5)) 7 100))), snd (the (tcp_sender_push (tcp_sender_new (writer_push ''abc'' (byte_stream_new 5)) 7 100)))) \<and>
   total_outgoing_seq (fst (the (tcp_sender_push (tcp_sender_new (writer_push ''abc'' (byte_stream_new 5)) 7 100)))) \<le> eff_window (fst (the (tcp_sender_push (tcp_sender_new (writer_push ''abc'' (byte_stream_new 5)) 7 100))))"
proof -
  have wf: "sender_wf (tcp_sender_new (writer_push ''abc'' (byte_stream_new 5)) 7 100)" by (rule tcp_sender_new_wf[OF writer_push_wf[OF byte_stream_new_wf]])
  have le: "total_outgoing_seq (tcp_sender_new (writer_push ''abc'' (byte_stream_new 5)) 7 100) \<le> eff_window (tcp_sender_new (writer_push ''abc'' (byte_stream_new 5)) 7 100)" by (simp add: tcp_sender_new_def)
  have p: "tcp_sender_push (tcp_sender_new (writer_push ''abc'' (byte_stream_new 5)) 7 100) = Some (fst (the (tcp_sender_push (tcp_sender_new (writer_push ''abc'' (byte_stream_new 5)) 7 100))), snd (the (tcp_sender_push (tcp_sender_new (writer_push ''abc'' (byte_stream_new 5)) 7 100))))"
    by code_simp
  show ?thesis using wf le p push_within_window[OF wf le p] by simp
qed

text \<open>
  C24: \<open>push\<close> sends all it may: it stops only when the window is full, FIN has been
  sent, or the input is empty and still open.
\<close>

theorem push_stops_only_when_blocked:
  assumes "sender_wf s" "tcp_sender_push s = Some (s', tx)"
  shows "eff_window s' \<le> total_outgoing_seq s' \<or> FIN_sent_flag s' \<or>
         (contents (input s') = [] \<and> \<not> closed (input s'))"
proof -
  obtain s2 tx2 where p: "tcp_sender_push s = Some (s2, tx2)"
    "eff_window s \<le> total_outgoing_seq s2 \<or> FIN_sent_flag s2 \<or>
       (contents (input s2) = [] \<and> \<not> closed (input s2))"
    "window_capacity s2 = window_capacity s"
    using push_Some[OF assms(1)] by (elim exE conjE) (rule that; assumption)
  have "s2 = s'" using p(1) assms(2) by simp
  moreover have "eff_window s2 = eff_window s" using p(3) by (simp add: eff_window_def)
  ultimately show ?thesis using p(2) by simp
qed

theorem push_stops_only_when_blocked_witness:
  "sender_wf (tcp_sender_new (writer_push ''abc'' (byte_stream_new 5)) 7 100) \<and>
   tcp_sender_push (tcp_sender_new (writer_push ''abc'' (byte_stream_new 5)) 7 100) = Some (fst (the (tcp_sender_push (tcp_sender_new (writer_push ''abc'' (byte_stream_new 5)) 7 100))), snd (the (tcp_sender_push (tcp_sender_new (writer_push ''abc'' (byte_stream_new 5)) 7 100)))) \<and>
   eff_window (fst (the (tcp_sender_push (tcp_sender_new (writer_push ''abc'' (byte_stream_new 5)) 7 100)))) \<le> total_outgoing_seq (fst (the (tcp_sender_push (tcp_sender_new (writer_push ''abc'' (byte_stream_new 5)) 7 100))))"
proof -
  have wf: "sender_wf (tcp_sender_new (writer_push ''abc'' (byte_stream_new 5)) 7 100)" by (rule tcp_sender_new_wf[OF writer_push_wf[OF byte_stream_new_wf]])
  have p: "tcp_sender_push (tcp_sender_new (writer_push ''abc'' (byte_stream_new 5)) 7 100) = Some (fst (the (tcp_sender_push (tcp_sender_new (writer_push ''abc'' (byte_stream_new 5)) 7 100))), snd (the (tcp_sender_push (tcp_sender_new (writer_push ''abc'' (byte_stream_new 5)) 7 100))))"
    by code_simp
  have "\<not> FIN_sent_flag (fst (the (tcp_sender_push (tcp_sender_new (writer_push ''abc'' (byte_stream_new 5)) 7 100))))"
    "contents (input (fst (the (tcp_sender_push (tcp_sender_new (writer_push ''abc'' (byte_stream_new 5)) 7 100))))) \<noteq> []" by code_simp+
  then show ?thesis using wf p push_stops_only_when_blocked[OF wf p] by simp
qed



text \<open>
  C27: an acknowledgement that does not run ahead of \<open>next_seq_number\<close> removes from
  the front of the queue exactly the segments it covers entirely: each removed segment
  ends at or before it, the first kept one ends after it (a partial acknowledgement
  removes nothing). The counters follow; when something was removed the retransmission
  count is cleared and the timer reloaded with the initial RTO.
\<close>

theorem receive_acks_covered_prefix:
  assumes wf: "sender_wf s" and ok: "\<not> error_flag (input s)" "\<not> ack_RST msg"
    and a: "ackno msg = Some a"
    and r: "r = unwrap a (isn s) (next_seq_number s)" "r \<le> next_seq_number s"
  shows "\<exists>pre. pending_messages s = pre @ pending_messages (tcp_sender_receive msg s) \<and>
           ack_sequence_number (tcp_sender_receive msg s) = ack_sequence_number s + of_nat (seq_total pre) \<and>
           (\<forall>i < length pre. ack_sequence_number s + of_nat (seq_total (take (Suc i) pre)) \<le> r) \<and>
           (pending_messages (tcp_sender_receive msg s) \<noteq> [] \<longrightarrow>
              r < ack_sequence_number (tcp_sender_receive msg s) +
                  seq_len64 (hd (pending_messages (tcp_sender_receive msg s)))) \<and>
           unat (total_outgoing_seq (tcp_sender_receive msg s)) =
             seq_total (pending_messages (tcp_sender_receive msg s)) \<and>
           window_capacity (tcp_sender_receive msg s) = window_size msg \<and>
           (pre \<noteq> [] \<longrightarrow> retrans_count (tcp_sender_receive msg s) = 0 \<and>
              RTO_duration_ms (retrans_timer (tcp_sender_receive msg s)) = initial_RTO_ms s \<and>
              timer_elapsed_ms (retrans_timer (tcp_sender_receive msg s)) = 0)"
proof -
  obtain a' t' pend' acked' where l: "ack_loop r (ack_sequence_number s) (total_outgoing_seq s)
      (pending_messages s) False = (a', t', pend', acked')"
    by (cases "ack_loop r (ack_sequence_number s) (total_outgoing_seq s) (pending_messages s) False") auto
  from ack_loop_spec[OF l] obtain pre where p: "pending_messages s = pre @ pend'"
    "a' = ack_sequence_number s + of_nat (seq_total pre)"
    "t' = total_outgoing_seq s - of_nat (seq_total pre)" "acked' = (pre \<noteq> [])"
    "\<forall>i < length pre. ack_sequence_number s + of_nat (seq_total (take (Suc i) pre)) \<le> r"
    "pend' \<noteq> [] \<longrightarrow> r < a' + seq_len64 (hd pend')"
    by auto
  have wf': "sender_wf (tcp_sender_receive msg s)" using wf by (rule sender_receive_wf)
  have eq: "tcp_sender_receive msg s =
      (let s2 = s\<lparr>window_capacity := window_size msg, ack_sequence_number := a',
                  total_outgoing_seq := t', pending_messages := pend'\<rparr>
       in if acked' then
            (let t = reload_timer (initial_RTO_ms s) (retrans_timer s)
             in s2\<lparr>retrans_count := 0,
                   retrans_timer := (if pend' = [] then deactivate_timer t else activate_timer t)\<rparr>)
          else s2)"
    using ok a r l by (simp add: tcp_sender_receive_def Let_def not_less)
  have u: "unat (total_outgoing_seq (tcp_sender_receive msg s)) =
      seq_total (pending_messages (tcp_sender_receive msg s))"
    using wf' by (simp add: sender_wf_def unat_of_nat_small)
  show ?thesis
    using p u eq
    by (intro exI[of _ pre])
      (auto simp: Let_def reload_timer_def reset_timer_def activate_timer_def deactivate_timer_def)
qed

theorem receive_acks_covered_prefix_witness:
  "ack_sequence_number (tcp_sender_receive \<lparr>ackno = Some 3, window_size = 1000, ack_RST = False\<rparr> \<lparr>input = \<lparr>capacity = 10, closed = False, error_flag = False, stream_q = [],
        prefix_len = 0, pushed_sum = 2, popped_sum = 2, buffered_sum = 0\<rparr>,
     isn = 0, initial_RTO_ms = 100, next_seq_number = 3, ack_sequence_number = 1,
     window_capacity = 1000,
     pending_messages = [\<lparr>seqno = 1, SYN = False, payload = ''hi'', FIN = False, RST = False\<rparr>],
     total_outgoing_seq = 2, retrans_count = 0, SYN_sent_flag = True, FIN_sent_flag = False,
     retrans_timer = \<lparr>timer_active = True, RTO_duration_ms = 100, timer_elapsed_ms = 0\<rparr>\<rparr>) = 3 \<and>
   pending_messages (tcp_sender_receive \<lparr>ackno = Some 3, window_size = 1000, ack_RST = False\<rparr> \<lparr>input = \<lparr>capacity = 10, closed = False, error_flag = False, stream_q = [],
        prefix_len = 0, pushed_sum = 2, popped_sum = 2, buffered_sum = 0\<rparr>,
     isn = 0, initial_RTO_ms = 100, next_seq_number = 3, ack_sequence_number = 1,
     window_capacity = 1000,
     pending_messages = [\<lparr>seqno = 1, SYN = False, payload = ''hi'', FIN = False, RST = False\<rparr>],
     total_outgoing_seq = 2, retrans_count = 0, SYN_sent_flag = True, FIN_sent_flag = False,
     retrans_timer = \<lparr>timer_active = True, RTO_duration_ms = 100, timer_elapsed_ms = 0\<rparr>\<rparr>) = [] \<and>
   (\<exists>pre. pending_messages \<lparr>input = \<lparr>capacity = 10, closed = False, error_flag = False, stream_q = [],
        prefix_len = 0, pushed_sum = 2, popped_sum = 2, buffered_sum = 0\<rparr>,
     isn = 0, initial_RTO_ms = 100, next_seq_number = 3, ack_sequence_number = 1,
     window_capacity = 1000,
     pending_messages = [\<lparr>seqno = 1, SYN = False, payload = ''hi'', FIN = False, RST = False\<rparr>],
     total_outgoing_seq = 2, retrans_count = 0, SYN_sent_flag = True, FIN_sent_flag = False,
     retrans_timer = \<lparr>timer_active = True, RTO_duration_ms = 100, timer_elapsed_ms = 0\<rparr>\<rparr> = pre @ [] \<and> 1 + of_nat (seq_total pre) = (3 :: u64))"
proof -
  have run: "snd_run [SWrite ''hi'', SPush, SReceive \<lparr>ackno = Some 1, window_size = 1000, ack_RST = False\<rparr>, SPush] (tcp_sender_new (byte_stream_new 10) 0 100) = Some \<lparr>input = \<lparr>capacity = 10, closed = False, error_flag = False, stream_q = [],
        prefix_len = 0, pushed_sum = 2, popped_sum = 2, buffered_sum = 0\<rparr>,
     isn = 0, initial_RTO_ms = 100, next_seq_number = 3, ack_sequence_number = 1,
     window_capacity = 1000,
     pending_messages = [\<lparr>seqno = 1, SYN = False, payload = ''hi'', FIN = False, RST = False\<rparr>],
     total_outgoing_seq = 2, retrans_count = 0, SYN_sent_flag = True, FIN_sent_flag = False,
     retrans_timer = \<lparr>timer_active = True, RTO_duration_ms = 100, timer_elapsed_ms = 0\<rparr>\<rparr>" by code_simp
  have wf: "sender_wf \<lparr>input = \<lparr>capacity = 10, closed = False, error_flag = False, stream_q = [],
        prefix_len = 0, pushed_sum = 2, popped_sum = 2, buffered_sum = 0\<rparr>,
     isn = 0, initial_RTO_ms = 100, next_seq_number = 3, ack_sequence_number = 1,
     window_capacity = 1000,
     pending_messages = [\<lparr>seqno = 1, SYN = False, payload = ''hi'', FIN = False, RST = False\<rparr>],
     total_outgoing_seq = 2, retrans_count = 0, SYN_sent_flag = True, FIN_sent_flag = False,
     retrans_timer = \<lparr>timer_active = True, RTO_duration_ms = 100, timer_elapsed_ms = 0\<rparr>\<rparr>" by (rule snd_run_wf[OF tcp_sender_new_wf[OF byte_stream_new_wf] run])
  have r: "unwrap 3 0 3 = (3 :: u64)" by (simp add: unwrap_def)
  have rcv: "tcp_sender_receive \<lparr>ackno = Some 3, window_size = 1000, ack_RST = False\<rparr> \<lparr>input = \<lparr>capacity = 10, closed = False, error_flag = False, stream_q = [],
        prefix_len = 0, pushed_sum = 2, popped_sum = 2, buffered_sum = 0\<rparr>,
     isn = 0, initial_RTO_ms = 100, next_seq_number = 3, ack_sequence_number = 1,
     window_capacity = 1000,
     pending_messages = [\<lparr>seqno = 1, SYN = False, payload = ''hi'', FIN = False, RST = False\<rparr>],
     total_outgoing_seq = 2, retrans_count = 0, SYN_sent_flag = True, FIN_sent_flag = False,
     retrans_timer = \<lparr>timer_active = True, RTO_duration_ms = 100, timer_elapsed_ms = 0\<rparr>\<rparr> =
      \<lparr>input = \<lparr>capacity = 10, closed = False, error_flag = False, stream_q = [],
        prefix_len = 0, pushed_sum = 2, popped_sum = 2, buffered_sum = 0\<rparr>,
     isn = 0, initial_RTO_ms = 100, next_seq_number = 3, ack_sequence_number = 1,
     window_capacity = 1000,
     pending_messages = [\<lparr>seqno = 1, SYN = False, payload = ''hi'', FIN = False, RST = False\<rparr>],
     total_outgoing_seq = 2, retrans_count = 0, SYN_sent_flag = True, FIN_sent_flag = False,
     retrans_timer = \<lparr>timer_active = True, RTO_duration_ms = 100, timer_elapsed_ms = 0\<rparr>\<rparr>\<lparr>window_capacity := 1000, ack_sequence_number := 3, total_outgoing_seq := 0,
        pending_messages := [],
        retrans_timer := \<lparr>timer_active = False, RTO_duration_ms = 100, timer_elapsed_ms = 0\<rparr>\<rparr>"
    by code_simp
  from receive_acks_covered_prefix[OF wf _ _ _ refl, of "\<lparr>ackno = Some 3, window_size = 1000, ack_RST = False\<rparr>" 3]
  show ?thesis using r rcv by simp
qed

text \<open>
  C28: an acknowledgement beyond \<open>next_seq_number\<close> is dropped; only the advertised
  window is recorded.
\<close>

theorem receive_drops_ack_beyond_next:
  assumes "\<not> error_flag (input s)" "\<not> ack_RST msg" "ackno msg = Some a"
    and "next_seq_number s < unwrap a (isn s) (next_seq_number s)"
  shows "tcp_sender_receive msg s = s\<lparr>window_capacity := window_size msg\<rparr>"
  using assms by (simp add: tcp_sender_receive_def Let_def)

theorem receive_drops_ack_beyond_next_witness:
  "tcp_sender_receive \<lparr>ackno = Some 5, window_size = 7, ack_RST = False\<rparr> (tcp_sender_new (byte_stream_new 10) 0 100) =
   (tcp_sender_new (byte_stream_new 10) 0 100)\<lparr>window_capacity := 7\<rparr>"
proof -
  have "next_seq_number (tcp_sender_new (byte_stream_new 10) 0 100) < unwrap 5 (isn (tcp_sender_new (byte_stream_new 10) 0 100)) (next_seq_number (tcp_sender_new (byte_stream_new 10) 0 100))"
    by (simp add: tcp_sender_new_def unwrap_def)
  then show ?thesis
    using receive_drops_ack_beyond_next[of "tcp_sender_new (byte_stream_new 10) 0 100" "\<lparr>ackno = Some 5, window_size = 7, ack_RST = False\<rparr>" 5]
    by (simp add: tcp_sender_new_def byte_stream_new_def)
qed

text \<open>
  C29: when the timer expires with segments outstanding, \<open>tick\<close> retransmits the oldest
  one and restarts the timer; only when the peer's window is nonzero does it count the
  retransmission and double the RTO (a zero-window probe does neither).
\<close>

theorem tick_retransmits_oldest:
  assumes "timer_active (retrans_timer s)"
    and "RTO_duration_ms (retrans_timer s) \<le> timer_elapsed_ms (retrans_timer s) + ms"
    and "pending_messages s = m # rest"
  shows "tcp_sender_tick ms s =
           (s\<lparr>retrans_count := (if window_capacity s \<noteq> 0 then retrans_count s + 1 else retrans_count s),
              retrans_timer := (retrans_timer s)\<lparr>
                RTO_duration_ms := (if window_capacity s \<noteq> 0 then push_bit 1 (RTO_duration_ms (retrans_timer s))
                                    else RTO_duration_ms (retrans_timer s)),
                timer_elapsed_ms := 0\<rparr>\<rparr>, [m])"
  using assms
  by (simp add: tcp_sender_tick_def Let_def advance_timer_def has_timer_expired_def
      apply_exponential_backoff_def reset_timer_def)

theorem tick_retransmits_oldest_witness:
  "tcp_sender_tick 100 \<lparr>input = \<lparr>capacity = 10, closed = False, error_flag = False, stream_q = [],
        prefix_len = 0, pushed_sum = 2, popped_sum = 2, buffered_sum = 0\<rparr>,
     isn = 0, initial_RTO_ms = 100, next_seq_number = 3, ack_sequence_number = 1,
     window_capacity = 1000,
     pending_messages = [\<lparr>seqno = 1, SYN = False, payload = ''hi'', FIN = False, RST = False\<rparr>],
     total_outgoing_seq = 2, retrans_count = 0, SYN_sent_flag = True, FIN_sent_flag = False,
     retrans_timer = \<lparr>timer_active = True, RTO_duration_ms = 100, timer_elapsed_ms = 0\<rparr>\<rparr> =
   (\<lparr>input = \<lparr>capacity = 10, closed = False, error_flag = False, stream_q = [],
        prefix_len = 0, pushed_sum = 2, popped_sum = 2, buffered_sum = 0\<rparr>,
     isn = 0, initial_RTO_ms = 100, next_seq_number = 3, ack_sequence_number = 1,
     window_capacity = 1000,
     pending_messages = [\<lparr>seqno = 1, SYN = False, payload = ''hi'', FIN = False, RST = False\<rparr>],
     total_outgoing_seq = 2, retrans_count = 0, SYN_sent_flag = True, FIN_sent_flag = False,
     retrans_timer = \<lparr>timer_active = True, RTO_duration_ms = 100, timer_elapsed_ms = 0\<rparr>\<rparr>\<lparr>retrans_count := 1,
      retrans_timer := \<lparr>timer_active = True, RTO_duration_ms = 200, timer_elapsed_ms = 0\<rparr>\<rparr>,
    [\<lparr>seqno = 1, SYN = False, payload = ''hi'', FIN = False, RST = False\<rparr>])"
  using tick_retransmits_oldest[of "\<lparr>input = \<lparr>capacity = 10, closed = False, error_flag = False, stream_q = [],
        prefix_len = 0, pushed_sum = 2, popped_sum = 2, buffered_sum = 0\<rparr>,
     isn = 0, initial_RTO_ms = 100, next_seq_number = 3, ack_sequence_number = 1,
     window_capacity = 1000,
     pending_messages = [\<lparr>seqno = 1, SYN = False, payload = ''hi'', FIN = False, RST = False\<rparr>],
     total_outgoing_seq = 2, retrans_count = 0, SYN_sent_flag = True, FIN_sent_flag = False,
     retrans_timer = \<lparr>timer_active = True, RTO_duration_ms = 100, timer_elapsed_ms = 0\<rparr>\<rparr>" 100]
  by simp

text \<open>
  The spec's scenarios 4 and 5 for the sender. Zero-window probe: after the SYN is
  acknowledged with window 0 and the application writes \<open>x\<close>, \<open>push\<close> sends exactly one
  one-byte segment; when the RTO expires it is retransmitted, with neither the
  retransmission count nor the RTO changed. Exponential backoff: with window 1000 and one
  segment outstanding, two expiries give retransmission counts 1 and 2 and RTOs 200 and
  400; a fresh acknowledgement clears the count, restores the RTO to 100 and, the queue
  now empty, stops the timer.
\<close>

theorem sender_scenarios_probe_backoff:
  "map_option (\<lambda>(s1, tx1). (tx1, snd (tcp_sender_tick 100 s1), consecutive_retransmissions (fst (tcp_sender_tick 100 s1)),
       RTO_duration_ms (retrans_timer (fst (tcp_sender_tick 100 s1)))))
     (Option.bind (snd_run [SPush, SReceive \<lparr>ackno = Some 1, window_size = 0, ack_RST = False\<rparr>, SWrite ''x'']
                     (tcp_sender_new (byte_stream_new 10) 0 100)) tcp_sender_push) =
   Some ([\<lparr>seqno = 1, SYN = False, payload = ''x'', FIN = False, RST = False\<rparr>],
         [\<lparr>seqno = 1, SYN = False, payload = ''x'', FIN = False, RST = False\<rparr>], 0, 100) \<and>
   map_option (\<lambda>s. (consecutive_retransmissions s, RTO_duration_ms (retrans_timer s)))
     (snd_run [SPush, SReceive \<lparr>ackno = Some 1, window_size = 1000, ack_RST = False\<rparr>, SWrite ''x'', SPush,
               STick 100] (tcp_sender_new (byte_stream_new 10) 0 100)) = Some (1, 200) \<and>
   map_option (\<lambda>s. (consecutive_retransmissions s, RTO_duration_ms (retrans_timer s)))
     (snd_run [SPush, SReceive \<lparr>ackno = Some 1, window_size = 1000, ack_RST = False\<rparr>, SWrite ''x'', SPush,
               STick 100, STick 200] (tcp_sender_new (byte_stream_new 10) 0 100)) = Some (2, 400) \<and>
   map_option (\<lambda>s. (consecutive_retransmissions s, RTO_duration_ms (retrans_timer s), timer_active (retrans_timer s)))
     (snd_run [SPush, SReceive \<lparr>ackno = Some 1, window_size = 1000, ack_RST = False\<rparr>, SWrite ''x'', SPush,
               STick 100, STick 200, SReceive \<lparr>ackno = Some 2, window_size = 1000, ack_RST = False\<rparr>]
        (tcp_sender_new (byte_stream_new 10) 0 100)) = Some (0, 100, False)"
  by code_simp

text \<open>
  C39: the fill loop of \<open>push\<close> (a \<open>partial_function\<close>, so not ending would be
  \<open>None\<close>) returns on every well-formed input stream: it appends the first bytes of the
  stream up to the wanted length and pops exactly that many, the smaller of the wanted
  length and \<open>bytes_buffered\<close>.
\<close>

theorem fill_payload_terminates:
  assumes "bs_wf s"
  shows "\<exists>s'. fill_payload n pl s = Some (pl @ take (n - length pl) (contents s), s') \<and>
           bytes_popped s' = bytes_popped s + min (n - length pl) (bytes_buffered s) \<and>
           bytes_buffered s' = bytes_buffered s - min (n - length pl) (bytes_buffered s)"
proof (cases "length pl \<le> n")
  case True
  obtain s' where f: "fill_payload n pl s = Some (pl @ take (n - length pl) (contents s), s')"
    "contents s' = drop (n - length pl) (contents s)" "bs_wf s'" "pushed_sum s' = pushed_sum s"
    using fill_payload_Some[OF assms True] by blast
  have "buffered_sum s' = buffered_sum s - (n - length pl)"
    using f(2,3) assms by (simp add: bs_wf_def)
  moreover have "popped_sum s' + buffered_sum s' = popped_sum s + buffered_sum s"
    using f(3,4) assms by (simp add: bs_wf_def)
  ultimately show ?thesis using f(1) by (auto simp: bytes_popped_def bytes_buffered_def)
next
  case False
  then show ?thesis by (simp add: fill_payload.simps[of n pl s])
qed

theorem fill_payload_terminates_witness:
  "bs_wf (writer_push ''cat'' (byte_stream_new 4)) \<and>
   fill_payload 2 [] (writer_push ''cat'' (byte_stream_new 4)) =
     Some (''ca'', the (reader_pop 2 (writer_push ''cat'' (byte_stream_new 4)))) \<and>
   bytes_popped (the (reader_pop 2 (writer_push ''cat'' (byte_stream_new 4)))) = 2"
proof -
  have wf: "bs_wf (writer_push ''cat'' (byte_stream_new 4))"
    by (rule writer_push_wf[OF byte_stream_new_wf])
  have e: "fill_payload 2 [] (writer_push ''cat'' (byte_stream_new 4)) =
     Some (''ca'', the (reader_pop 2 (writer_push ''cat'' (byte_stream_new 4))))" by code_simp
  have c: "contents (writer_push ''cat'' (byte_stream_new 4)) = ''cat''"
    "bytes_popped (writer_push ''cat'' (byte_stream_new 4)) = 0"
    "bytes_buffered (writer_push ''cat'' (byte_stream_new 4)) = 3" by code_simp+
  have "bytes_popped (the (reader_pop 2 (writer_push ''cat'' (byte_stream_new 4)))) = 2"
    using fill_payload_terminates[OF wf, of 2 "[]"] e c by auto
  then show ?thesis using wf e by simp
qed

end
