(* ===== verification/Reassembler.thy ===== *)
theory Reassembler
  imports Byte_Stream
begin

text \<open>
  \<open>Reassembler\<close> of \<open>src/reassembler.cc\<close>: it buffers substrings of a byte stream
  that arrive out of order and writes them to its output \<open>ByteStream\<close> as soon as they
  are contiguous with what has been written. The code's \<open>std::map<uint64_t, string>
  databuf\<close> is a list of (index, substring) pairs sorted by index; \<open>lower_bound\<close>,
  \<open>prev\<close>, \<open>emplace_hint\<close> and range \<open>erase\<close> become walks over that list.
  Stream indices are \<open>nat\<close>, as the byte counters of the stream are.
\<close>

section \<open>State and operations\<close>

type_synonym buffer = "(nat \<times> string) list"

record reassembler =
  databuf :: buffer
  end_pos :: "nat option"
  pending_num :: nat
  output_stream :: byte_stream

definition reassembler_new :: "byte_stream \<Rightarrow> reassembler" where
  "reassembler_new out = \<lparr>databuf = [], end_pos = None, pending_num = 0, output_stream = out\<rparr>"

text \<open>
  \<open>split(position)\<close>: if a stored substring starts before \<open>position\<close> and reaches past
  it, cut it in two at \<open>position\<close>. The substring concerned is the one before
  \<open>lower_bound(position)\<close>, the last one starting below \<open>position\<close>.
\<close>

fun starts_below :: "nat \<Rightarrow> buffer \<Rightarrow> bool" where
  "starts_below p [] = False"
| "starts_below p ((k, _) # _) = (k < p)"

fun split_buf :: "nat \<Rightarrow> buffer \<Rightarrow> buffer" where
  "split_buf p [] = []"
| "split_buf p ((k, s) # rest) =
     (if p \<le> k then (k, s) # rest
      else if starts_below p rest then (k, s) # split_buf p rest
      else if p < k + length s then (k, take (p - k) s) # (p, drop (p - k) s) # rest
      else (k, s) # rest)"

text \<open>The entries of \<open>[lower_bound(lo), lower_bound(hi))\<close>, and the buffer without them.\<close>

definition range_entries :: "nat \<Rightarrow> nat \<Rightarrow> buffer \<Rightarrow> buffer" where
  "range_entries lo hi buf = filter (\<lambda>(k, _). lo \<le> k \<and> k < hi) buf"

definition erase_range :: "nat \<Rightarrow> nat \<Rightarrow> buffer \<Rightarrow> buffer" where
  "erase_range lo hi buf = filter (\<lambda>(k, _). \<not> (lo \<le> k \<and> k < hi)) buf"

text \<open>\<open>emplace\<close> of a key that is not in the map: insertion at its sorted position.\<close>

fun insert_entry :: "nat \<times> string \<Rightarrow> buffer \<Rightarrow> buffer" where
  "insert_entry e [] = [e]"
| "insert_entry e (x # xs) = (if fst e < fst x then e # x # xs else x # insert_entry e xs)"

text \<open>The loop that writes every substring starting at \<open>bytes_pushed\<close> to the output.\<close>

fun flush :: "buffer \<Rightarrow> nat \<Rightarrow> byte_stream \<Rightarrow> buffer \<times> nat \<times> byte_stream" where
  "flush [] pend out = ([], pend, out)"
| "flush ((k, s) # rest) pend out =
     (if k \<noteq> pushed_sum out then ((k, s) # rest, pend, out)
      else flush rest (pend - length s) (writer_push s out))"

definition close_if_done :: "reassembler \<Rightarrow> reassembler" where
  "close_if_done r =
     (if end_pos r = Some (pushed_sum (output_stream r)) then r\<lparr>output_stream := writer_close (output_stream r)\<rparr> else r)"

text \<open>
  Lines 50--58 of \<open>insert\<close>: cut the substring at the right edge of the window (it is
  then not the last one) and drop what lies before \<open>bytes_pushed\<close>.
\<close>

definition clip :: "nat \<Rightarrow> nat \<Rightarrow> nat \<Rightarrow> string \<Rightarrow> bool \<Rightarrow> nat \<times> string \<times> bool" where
  "clip pushed cap_limit first_index data is_last =
     (let (data1, last1) =
            (if cap_limit < first_index + length data
             then (take (cap_limit - first_index) data, False) else (data, is_last))
      in if first_index < pushed then (pushed, drop (pushed - first_index) data1, last1)
         else (first_index, data1, last1))"

text \<open>
  Lines 64--70: split at both ends of the new substring, discount and erase the stored
  substrings in between, count and store the new one.
\<close>

definition store :: "nat \<Rightarrow> string \<Rightarrow> buffer \<Rightarrow> nat \<Rightarrow> buffer \<times> nat" where
  "store first_index data buf pend =
     (let buf1 = split_buf (first_index + length data) buf;
          buf2 = split_buf first_index buf1;
          covered = range_entries first_index (first_index + length data) buf2
      in (insert_entry (first_index, data) (erase_range first_index (first_index + length data) buf2),
          foldl (\<lambda>n e. n - length (snd e)) pend covered + length data))"

text \<open>
  \<open>insert(first_index, data, is_last_substring)\<close>, its early returns in the order
  of the code: an empty substring only records the end; a closed or full output drops
  the substring; so does a substring entirely outside the window
  \<open>[bytes_pushed, bytes_pushed + available_capacity)\<close>. Otherwise it is clipped,
  the end is recorded, the substring is stored and the contiguous prefix flushed.
\<close>

definition reassembler_insert :: "nat \<Rightarrow> string \<Rightarrow> bool \<Rightarrow> reassembler \<Rightarrow> reassembler" where
  "reassembler_insert first_index data is_last r =
     (if data = [] then
        close_if_done
          (if end_pos r = None \<and> is_last then r\<lparr>end_pos := Some first_index\<rparr> else r)
      else if closed (output_stream r) \<or> available_capacity (output_stream r) = 0 then r
      else
        let pushed = pushed_sum (output_stream r);
            cap_limit = pushed + available_capacity (output_stream r)
        in if first_index + length data \<le> pushed \<or> cap_limit \<le> first_index then r
           else
             let (first2, data2, last2) = clip pushed cap_limit first_index data is_last;
                 endp = (if end_pos r = None \<and> last2 then Some (first2 + length data2)
                         else end_pos r);
                 (buf3, pend3) = store first2 data2 (databuf r) (pending_num r);
                 (buf4, pend4, out4) = flush buf3 pend3 (output_stream r)
             in close_if_done \<lparr>databuf = buf4, end_pos = endp, pending_num = pend4,
                               output_stream = out4\<rparr>)"


text \<open>
  The reassembler's environment: the receiver inserts substrings, the application
  reads from the output stream in between.
\<close>

datatype reasm_op = Insert nat string bool | ReadPop nat

fun reasm_step :: "reasm_op \<Rightarrow> reassembler \<Rightarrow> reassembler option" where
  "reasm_step (Insert i d l) r = Some (reassembler_insert i d l r)"
| "reasm_step (ReadPop n) r = map_option (\<lambda>out. r\<lparr>output_stream := out\<rparr>) (reader_pop n (output_stream r))"

fun reasm_run :: "reasm_op list \<Rightarrow> reassembler \<Rightarrow> reassembler option" where
  "reasm_run [] r = Some r"
| "reasm_run (op # ops) r = (case reasm_step op r of None \<Rightarrow> None | Some r' \<Rightarrow> reasm_run ops r')"

text \<open>The bytes the application reads in a run.\<close>

fun read_of :: "reasm_op \<Rightarrow> reassembler \<Rightarrow> string" where
  "read_of (Insert _ _ _) r = []"
| "read_of (ReadPop n) r = take n (contents (output_stream r))"

fun reasm_reads :: "reasm_op list \<Rightarrow> reassembler \<Rightarrow> string" where
  "reasm_reads [] r = []"
| "reasm_reads (op # ops) r =
     (case reasm_step op r of None \<Rightarrow> [] | Some r' \<Rightarrow> read_of op r @ reasm_reads ops r')"

text \<open>Every inserted substring carries the reference stream's bytes at its indices.\<close>

fun inserts_agree :: "(nat \<Rightarrow> char) \<Rightarrow> reasm_op list \<Rightarrow> bool" where
  "inserts_agree T [] = True"
| "inserts_agree T (Insert i d l # ops) = ((\<forall>j < length d. d ! j = T (i + j)) \<and> inserts_agree T ops)"
| "inserts_agree T (ReadPop n # ops) = inserts_agree T ops"

text \<open>
  The spec's scenario 2, capacity 8: \<open>cd\<close> at 2 waits, \<open>ab\<close> at 0 releases
  \<open>abcd\<close>; \<open>gh\<close> at 6 marked last waits, \<open>ef\<close> at 4 releases \<open>efgh\<close> and closes
  the stream.
\<close>

definition scenario2 :: "reasm_op list" where
  "scenario2 = [Insert 2 ''cd'' False, Insert 0 ''ab'' False, Insert 6 ''gh'' True, Insert 4 ''ef'' False]"

section \<open>Invariant\<close>

text \<open>
  Stored substrings are sorted by index, pairwise disjoint and non-empty; each lies past
  \<open>bytes_pushed\<close> (everything contiguous has been written) and inside the window
  \<open>bytes_popped + capacity\<close>; \<open>pending_num\<close> counts the stored bytes; and the output
  is closed exactly when the recorded end has been reached.
\<close>

definition buf_sorted :: "buffer \<Rightarrow> bool" where
  "buf_sorted buf \<longleftrightarrow> sorted_wrt (\<lambda>a b. fst a + length (snd a) \<le> fst b) buf"

definition buf_nonempty :: "buffer \<Rightarrow> bool" where
  "buf_nonempty buf \<longleftrightarrow> (\<forall>e \<in> set buf. snd e \<noteq> [])"

definition buf_total :: "buffer \<Rightarrow> nat" where
  "buf_total buf = sum_list (map (length \<circ> snd) buf)"

definition buf_within :: "nat \<Rightarrow> nat \<Rightarrow> buffer \<Rightarrow> bool" where
  "buf_within lo hi buf \<longleftrightarrow> (\<forall>e \<in> set buf. lo \<le> fst e \<and> fst e + length (snd e) \<le> hi)"

definition store_ok :: "reassembler \<Rightarrow> bool" where
  "store_ok r \<longleftrightarrow>
     bs_wf (output_stream r) \<and> buf_sorted (databuf r) \<and> buf_nonempty (databuf r) \<and>
     buf_within (Suc (pushed_sum (output_stream r))) (window_end (output_stream r)) (databuf r) \<and>
     pending_num r = buf_total (databuf r)"

definition reasm_wf :: "reassembler \<Rightarrow> bool" where
  "reasm_wf r \<longleftrightarrow>
     store_ok r \<and> (closed (output_stream r) \<longleftrightarrow> end_pos r = Some (pushed_sum (output_stream r)))"

text \<open>\<open>split_buf p\<close> on a sorted buffer cuts the one entry that straddles \<open>p\<close>.\<close>

definition cut_at :: "nat \<Rightarrow> nat \<times> string \<Rightarrow> buffer" where
  "cut_at p e =
     (if fst e < p \<and> p < fst e + length (snd e)
      then [(fst e, take (p - fst e) (snd e)), (p, drop (p - fst e) (snd e))] else [e])"

definition no_straddle :: "nat \<Rightarrow> buffer \<Rightarrow> bool" where
  "no_straddle p buf \<longleftrightarrow> (\<forall>e \<in> set buf. \<not> (fst e < p \<and> p < fst e + length (snd e)))"

text \<open>
  Correctness against a reference stream \<open>T\<close>, the bytes the peer sends at each
  index: every stored substring holds \<open>T\<close>'s bytes at its indices, and the output holds
  \<open>T\<close>'s bytes from \<open>bytes_popped\<close> to \<open>bytes_pushed\<close>.
\<close>

definition buf_agrees :: "(nat \<Rightarrow> char) \<Rightarrow> buffer \<Rightarrow> bool" where
  "buf_agrees T buf \<longleftrightarrow> (\<forall>e \<in> set buf. \<forall>i < length (snd e). snd e ! i = T (fst e + i))"

definition stream_agrees :: "(nat \<Rightarrow> char) \<Rightarrow> byte_stream \<Rightarrow> bool" where
  "stream_agrees T out \<longleftrightarrow> contents out = map T [popped_sum out..<pushed_sum out]"

section \<open>Splitting\<close>

lemma buf_sorted_Cons:
  "buf_sorted (e # buf) \<longleftrightarrow> (\<forall>x \<in> set buf. fst e + length (snd e) \<le> fst x) \<and> buf_sorted buf"
  by (simp add: buf_sorted_def)

lemma cut_single: "\<not> (fst e < p \<and> p < fst e + length (snd e)) \<Longrightarrow> cut_at p e = [e]"
  by (simp add: cut_at_def)

lemma cut_straddle:
  "fst e < p \<Longrightarrow> p < fst e + length (snd e) \<Longrightarrow>
     cut_at p e = [(fst e, take (p - fst e) (snd e)), (p, drop (p - fst e) (snd e))]"
  by (simp add: cut_at_def)

lemma cut_id: "\<forall>e \<in> set buf. p \<le> fst e \<Longrightarrow> concat (map (cut_at p) buf) = buf"
  by (induction buf) (auto simp: cut_at_def)

lemma sorted_keys_above:
  "buf_sorted ((k, s) # rest) \<Longrightarrow> \<not> starts_below p rest \<Longrightarrow> \<forall>e \<in> set rest. p \<le> fst e"
  by (cases rest) (auto simp: buf_sorted_def)

lemma split_buf_cut: "buf_sorted buf \<Longrightarrow> split_buf p buf = concat (map (cut_at p) buf)"
proof (induction p buf rule: split_buf.induct)
  case (2 p k s rest)
  have rest: "buf_sorted rest" using "2.prems" by (simp add: buf_sorted_Cons)
  show ?case
  proof (cases "p \<le> k")
    case True
    moreover have "\<forall>e \<in> set rest. p \<le> fst e"
      using "2.prems" True by (auto simp: buf_sorted_Cons)
    ultimately show ?thesis by (simp add: cut_single cut_id)
  next
    case False
    show ?thesis
    proof (cases "starts_below p rest")
      case True
      then obtain k2 s2 rest2 where "rest = (k2, s2) # rest2" "k2 < p"
        by (cases rest) auto
      with "2.prems" have "\<not> (k < p \<and> p < k + length s)" by (auto simp: buf_sorted_Cons)
      with "2.IH" False True rest show ?thesis by (simp add: cut_single)
    next
      case nb: False
      have "concat (map (cut_at p) rest) = rest"
        using sorted_keys_above[OF "2.prems" nb] by (rule cut_id)
      then have "concat (map (cut_at p) ((k, s) # rest)) = cut_at p (k, s) @ rest" by simp
      with False nb show ?thesis
        by (cases "p < k + length s") (simp_all add: cut_straddle cut_single)
    qed
  qed
qed simp

lemma cut_span:
  "e' \<in> set (cut_at p e) \<Longrightarrow> fst e \<le> fst e' \<and> fst e' + length (snd e') \<le> fst e + length (snd e)"
  by (auto simp: cut_at_def split: if_splits)

lemma cut_sorted: "buf_sorted (cut_at p e)"
  by (auto simp: cut_at_def buf_sorted_def)

lemma cut_nonempty: "snd e \<noteq> [] \<Longrightarrow> buf_nonempty (cut_at p e)"
  by (auto simp: cut_at_def buf_nonempty_def)

lemma cut_total: "buf_total (cut_at p e) = length (snd e)"
  by (auto simp: cut_at_def buf_total_def)

lemma cuts_sorted: "buf_sorted buf \<Longrightarrow> buf_sorted (concat (map (cut_at p) buf))"
proof (induction buf)
  case (Cons e buf)
  have "\<forall>x \<in> set (concat (map (cut_at p) buf)). fst e + length (snd e) \<le> fst x"
    using Cons.prems by (fastforce simp: buf_sorted_Cons dest: cut_span)
  then have "\<forall>y \<in> set (cut_at p e). \<forall>x \<in> set (concat (map (cut_at p) buf)). fst y + length (snd y) \<le> fst x"
    by (fastforce dest: cut_span)
  with Cons cut_sorted[of p e] show ?case
    by (simp add: buf_sorted_def sorted_wrt_append buf_sorted_Cons)
qed (simp add: buf_sorted_def)

lemma cuts_nonempty: "buf_nonempty buf \<Longrightarrow> buf_nonempty (concat (map (cut_at p) buf))"
  by (auto simp: buf_nonempty_def cut_at_def)

lemma cuts_total: "buf_total (concat (map (cut_at p) buf)) = buf_total buf"
  by (induction buf) (simp_all add: buf_total_def cut_total[unfolded buf_total_def])

lemma cuts_span:
  "e' \<in> set (concat (map (cut_at p) buf)) \<Longrightarrow>
     \<exists>e \<in> set buf. fst e \<le> fst e' \<and> fst e' + length (snd e') \<le> fst e + length (snd e)"
  by (auto dest: cut_span)

lemma cuts_no_straddle: "no_straddle p (concat (map (cut_at p) buf))"
  by (auto simp: no_straddle_def cut_at_def)

lemma cuts_keep_no_straddle: "no_straddle q buf \<Longrightarrow> no_straddle q (concat (map (cut_at p) buf))"
  by (fastforce simp: no_straddle_def cut_at_def)

section \<open>Erasing the covered range and storing the new substring\<close>

lemma buf_total_Cons [simp]: "buf_total (e # buf) = length (snd e) + buf_total buf"
  by (simp add: buf_total_def)

lemma buf_total_Nil [simp]: "buf_total [] = 0"
  by (simp add: buf_total_def)

lemma erase_range_total:
  "buf_total (erase_range lo hi buf) + buf_total (range_entries lo hi buf) = buf_total buf"
  by (induction buf) (auto simp: erase_range_def range_entries_def)

lemma foldl_sub_total: "foldl (\<lambda>n e. n - length (snd e)) n xs = n - buf_total xs"
  by (induction xs arbitrary: n) auto

lemma insert_entry_set: "set (insert_entry e xs) = insert e (set xs)"
  by (induction xs) auto

lemma insert_entry_total: "buf_total (insert_entry e xs) = length (snd e) + buf_total xs"
  by (induction xs) auto

lemma insert_entry_sorted:
  assumes "buf_sorted xs" "snd e \<noteq> []"
    "\<forall>x \<in> set xs. fst x + length (snd x) \<le> fst e \<or> fst e + length (snd e) \<le> fst x"
  shows "buf_sorted (insert_entry e xs)"
  using assms
proof (induction xs)
  case (Cons x xs)
  show ?case
  proof (cases "fst e < fst x")
    case True
    then have "fst e + length (snd e) \<le> fst x" using Cons.prems(2,3) by auto
    then have "\<forall>y \<in> set (x # xs). fst e + length (snd e) \<le> fst y"
      using Cons.prems(1) by (auto simp: buf_sorted_Cons)
    with True Cons.prems(1) show ?thesis by (simp add: buf_sorted_Cons)
  next
    case False
    have "0 < length (snd e)" using Cons.prems(2) by simp
    moreover have "fst x + length (snd x) \<le> fst e \<or> fst e + length (snd e) \<le> fst x"
      using Cons.prems(3) by simp
    ultimately have "fst x + length (snd x) \<le> fst e" using False by linarith
    moreover have "buf_sorted (insert_entry e xs)"
      using Cons by (simp add: buf_sorted_Cons)
    ultimately show ?thesis
      using False Cons.prems(1) by (auto simp: buf_sorted_Cons insert_entry_set)
  qed
qed (simp add: buf_sorted_def)

lemma erase_range_sides:
  assumes "no_straddle lo buf" "x \<in> set (erase_range lo hi buf)"
  shows "fst x + length (snd x) \<le> lo \<or> hi \<le> fst x"
  using assms by (fastforce simp: erase_range_def no_straddle_def)

lemma erase_range_sorted: "buf_sorted buf \<Longrightarrow> buf_sorted (erase_range lo hi buf)"
  by (simp add: buf_sorted_def erase_range_def sorted_wrt_filter)

section \<open>Flushing\<close>

lemma flush_props:
  assumes "buf_sorted buf" "buf_nonempty buf" "bs_wf out" "\<not> closed out"
    "\<forall>e \<in> set buf. pushed_sum out \<le> fst e \<and> fst e + length (snd e) \<le> window_end out"
    "pend = buf_total buf" "flush buf pend out = (buf', pend', out')"
  shows "buf_sorted buf' \<and> buf_nonempty buf' \<and> bs_wf out' \<and> \<not> closed out' \<and>
         window_end out' = window_end out \<and> pend' = buf_total buf' \<and>
         (\<forall>e \<in> set buf'. pushed_sum out' < fst e \<and> fst e + length (snd e) \<le> window_end out') \<and>
         (\<exists>ys. buf = ys @ buf' \<and> contents out' = contents out @ concat (map snd ys) \<and>
               pushed_sum out' = pushed_sum out + buf_total ys)"
  using assms
proof (induction buf pend out rule: flush.induct)
  case (1 pend out)
  then show ?case by simp
next
  case (2 k s rest pend out)
  show ?case
  proof (cases "k = pushed_sum out")
    case False
    have eq: "buf' = (k, s) # rest" "pend' = pend" "out' = out"
      using "2.prems"(7) False by simp_all
    have "\<forall>e \<in> set ((k, s) # rest). pushed_sum out < fst e"
      using "2.prems"(1,5) False by (fastforce simp: buf_sorted_Cons)
    with eq "2.prems" show ?thesis by auto
  next
    case True
    define out1 where "out1 = writer_push s out"
    have s: "s \<noteq> []" using "2.prems"(2) by (simp add: buf_nonempty_def)
    have fits: "length s \<le> available_capacity out"
      using "2.prems"(3,5) True window_end_avail[OF "2.prems"(3)] by auto
    have out1: "out1 = out\<lparr>pushed_sum := pushed_sum out + length s,
        buffered_sum := buffered_sum out + length s, stream_q := stream_q out @ [s]\<rparr>"
      unfolding out1_def using writer_push_fits[OF "2.prems"(4) s fits] .
    have wf1: "bs_wf out1" unfolding out1_def using "2.prems"(3) by (rule writer_push_wf)
    have c1: "contents out1 = contents out @ s"
      unfolding out1_def using contents_writer_push[OF "2.prems"(3)] "2.prems"(4) fits by simp
    have rest: "buf_sorted rest" "buf_nonempty rest"
      using "2.prems"(1,2) by (auto simp: buf_sorted_Cons buf_nonempty_def)
    have bnd: "\<forall>e \<in> set rest. pushed_sum out1 \<le> fst e \<and> fst e + length (snd e) \<le> window_end out1"
      using "2.prems"(1,5) True out1 by (auto simp: buf_sorted_Cons window_end_def)
    have run: "flush rest (pend - length s) out1 = (buf', pend', out')"
      using "2.prems"(7) True by (simp add: out1_def)
    have nc1: "\<not> closed out1" using "2.prems"(4) by (simp add: out1_def writer_push_frame)
    have pend1: "pend - length s = buf_total rest" using "2.prems"(6) by simp
    have we: "window_end out1 = window_end out" by (simp add: out1_def writer_push_window_end)
    have IH: "buf_sorted buf' \<and> buf_nonempty buf' \<and> bs_wf out' \<and> \<not> closed out' \<and>
         window_end out' = window_end out1 \<and> pend' = buf_total buf' \<and>
         (\<forall>e \<in> set buf'. pushed_sum out' < fst e \<and> fst e + length (snd e) \<le> window_end out') \<and>
         (\<exists>ys. rest = ys @ buf' \<and> contents out' = contents out1 @ concat (map snd ys) \<and>
               pushed_sum out' = pushed_sum out1 + buf_total ys)"
      using "2.IH"[folded out1_def] True rest wf1 nc1 bnd pend1 run by blast
    then obtain ys where ys: "rest = ys @ buf'" "contents out' = contents out1 @ concat (map snd ys)"
      "pushed_sum out' = pushed_sum out1 + buf_total ys" by blast
    have "(k, s) # rest = ((k, s) # ys) @ buf'" using ys by simp
    moreover have "contents out' = contents out @ concat (map snd ((k, s) # ys))" using ys c1 by simp
    moreover have "pushed_sum out' = pushed_sum out + buf_total ((k, s) # ys)" using ys out1 by simp
    ultimately have ex: "\<exists>zs. (k, s) # rest = zs @ buf' \<and>
        contents out' = contents out @ concat (map snd zs) \<and>
        pushed_sum out' = pushed_sum out + buf_total zs" by blast
    show ?thesis using IH we ex by auto
  qed
qed

section \<open>The steps of insert\<close>

lemma clip_props:
  assumes "data \<noteq> []" "pushed < first + length data" "first < cap_limit" "pushed < cap_limit"
    "clip pushed cap_limit first data is_last = (f2, d2, l2)"
  shows "f2 = max first pushed \<and> f2 + length d2 = min (first + length data) cap_limit \<and>
         pushed \<le> f2 \<and> d2 \<noteq> [] \<and> f2 + length d2 \<le> cap_limit \<and>
         (\<forall>i < length d2. d2 ! i = data ! (f2 - first + i)) \<and>
         (l2 \<longrightarrow> is_last \<and> first + length data \<le> cap_limit)"
  using assms by (auto simp: clip_def Let_def min_def max_def split: if_splits)

lemma buf_within_mono:
  "buf_within lo hi buf \<Longrightarrow> lo' \<le> lo \<Longrightarrow> hi \<le> hi' \<Longrightarrow> buf_within lo' hi' buf"
  by (fastforce simp: buf_within_def)

lemma cuts_within: "buf_within lo hi buf \<Longrightarrow> buf_within lo hi (concat (map (cut_at p) buf))"
  unfolding buf_within_def by (fastforce dest: cuts_span)

lemma erase_range_subset: "set (erase_range lo hi xs) \<subseteq> set xs"
  by (auto simp: erase_range_def)


lemma store_eq:
  assumes "buf_sorted buf"
  shows "fst (store f d buf pend) =
           insert_entry (f, d) (erase_range f (f + length d)
             (concat (map (cut_at f) (concat (map (cut_at (f + length d)) buf)))))"
proof -
  have s1: "buf_sorted (split_buf (f + length d) buf)"
    using split_buf_cut[OF assms] cuts_sorted[OF assms] by simp
  show ?thesis
    using split_buf_cut[OF s1] split_buf_cut[OF assms] by (simp add: store_def Let_def)
qed

lemma store_props:
  assumes "buf_sorted buf" "buf_nonempty buf" "buf_within P W buf" "d \<noteq> []" "P \<le> f"
    "f + length d \<le> W" "pend = buf_total buf" "store f d buf pend = (buf3, pend3)"
  shows "buf_sorted buf3 \<and> buf_nonempty buf3 \<and> buf_within P W buf3 \<and> pend3 = buf_total buf3"
proof -
  define buf1 where "buf1 = split_buf (f + length d) buf"
  define buf2 where "buf2 = split_buf f buf1"
  have b1: "buf1 = concat (map (cut_at (f + length d)) buf)"
    unfolding buf1_def using assms(1) by (rule split_buf_cut)
  have s1: "buf_sorted buf1" unfolding b1 using assms(1) by (rule cuts_sorted)
  have b2: "buf2 = concat (map (cut_at f) buf1)"
    unfolding buf2_def using s1 by (rule split_buf_cut)
  have s2: "buf_sorted buf2" unfolding b2 using s1 by (rule cuts_sorted)
  have n2: "buf_nonempty buf2" unfolding b2 b1 using assms(2) by (intro cuts_nonempty)
  have w2: "buf_within P W buf2" unfolding b2 b1 using assms(3) by (intro cuts_within)
  have t2: "buf_total buf2 = buf_total buf" unfolding b2 b1 by (simp add: cuts_total)
  have ns: "no_straddle f buf2" unfolding b2 by (rule cuts_no_straddle)
  have eq: "buf3 = insert_entry (f, d) (erase_range f (f + length d) buf2)"
    "pend3 = foldl (\<lambda>n e. n - length (snd e)) pend (range_entries f (f + length d) buf2) + length d"
    using assms(8) by (simp_all add: store_def Let_def buf1_def buf2_def)
  have "buf_sorted buf3"
    unfolding eq(1)
  proof (rule insert_entry_sorted)
    show "buf_sorted (erase_range f (f + length d) buf2)" using s2 by (rule erase_range_sorted)
  qed (use assms(4) erase_range_sides[OF ns] in auto)
  moreover have "buf_nonempty buf3"
    using n2 assms(4) by (auto simp: eq(1) insert_entry_set buf_nonempty_def erase_range_def)
  moreover have "buf_within P W buf3"
    using w2 assms(5,6) by (auto simp: eq(1) insert_entry_set buf_within_def erase_range_def)
  moreover have "pend3 = buf_total buf3"
    using erase_range_total[of f "f + length d" buf2] t2 assms(7)
    by (simp add: eq foldl_sub_total insert_entry_total)
  ultimately show ?thesis by blast
qed

lemma close_if_done_wf:
  assumes "store_ok r" "closed (output_stream r) \<longrightarrow> end_pos r = Some (pushed_sum (output_stream r))"
  shows "reasm_wf (close_if_done r)"
proof -
  have "store_ok (r\<lparr>output_stream := writer_close (output_stream r)\<rparr>)"
    using assms(1) writer_close_wf
    by (simp add: store_ok_def writer_close_def window_end_def)
  with assms show ?thesis
    by (auto simp: close_if_done_def reasm_wf_def writer_close_def)
qed

lemma insert_main_eq:
  assumes "data \<noteq> []" "\<not> closed (output_stream r)" "available_capacity (output_stream r) \<noteq> 0"
    "pushed_sum (output_stream r) < first + length data"
    "first < pushed_sum (output_stream r) + available_capacity (output_stream r)"
    "clip (pushed_sum (output_stream r)) (pushed_sum (output_stream r) + available_capacity (output_stream r))
       first data is_last = (f2, d2, l2)"
    "store f2 d2 (databuf r) (pending_num r) = (buf3, pend3)"
    "flush buf3 pend3 (output_stream r) = (buf4, pend4, out4)"
  shows "reassembler_insert first data is_last r =
           close_if_done \<lparr>databuf = buf4,
             end_pos = (if end_pos r = None \<and> l2 then Some (f2 + length d2) else end_pos r),
             pending_num = pend4, output_stream = out4\<rparr>"
  using assms by (simp add: reassembler_insert_def Let_def)

lemma insert_empty_eq:
  "reassembler_insert first [] is_last r =
     close_if_done (if end_pos r = None \<and> is_last then r\<lparr>end_pos := Some first\<rparr> else r)"
  by (simp add: reassembler_insert_def)

lemma insert_dropped_eq:
  assumes "data \<noteq> []"
    "closed (output_stream r) \<or> available_capacity (output_stream r) = 0 \<or>
     first + length data \<le> pushed_sum (output_stream r) \<or>
     pushed_sum (output_stream r) + available_capacity (output_stream r) \<le> first"
  shows "reassembler_insert first data is_last r = r"
  using assms by (auto simp: reassembler_insert_def Let_def)

lemma insert_wf [wf_preserved]:
  assumes wf: "reasm_wf r"
  shows "reasm_wf (reassembler_insert first data is_last r)"
proof -
  define out where "out = output_stream r"
  define pushed where "pushed = pushed_sum out"
  define cap_limit where "cap_limit = pushed + available_capacity out"
  have so: "store_ok r" and cl: "closed out \<longleftrightarrow> end_pos r = Some pushed"
    using wf by (simp_all add: reasm_wf_def out_def pushed_def)
  have bs: "bs_wf out" using so by (simp add: store_ok_def out_def)
  have W: "cap_limit = window_end out"
    unfolding cap_limit_def pushed_def using bs by (rule window_end_avail)
  consider (empty) "data = []"
    | (dropped) "data \<noteq> []" "closed out \<or> available_capacity out = 0 \<or>
                 first + length data \<le> pushed \<or> cap_limit \<le> first"
    | (main) "data \<noteq> []" "\<not> closed out" "available_capacity out \<noteq> 0"
             "pushed < first + length data" "first < cap_limit"
    by fastforce
  then show ?thesis
  proof cases
    case empty
    define r1 where "r1 = (if end_pos r = None \<and> is_last then r\<lparr>end_pos := Some first\<rparr> else r)"
    have "store_ok r1" using so by (simp add: r1_def store_ok_def)
    moreover have "closed (output_stream r1) \<longrightarrow> end_pos r1 = Some (pushed_sum (output_stream r1))"
      using cl by (auto simp: r1_def out_def pushed_def)
    ultimately show ?thesis
      using close_if_done_wf empty by (simp add: insert_empty_eq r1_def)
  next
    case dropped
    then show ?thesis
      using insert_dropped_eq[of data r first is_last] wf
      by (simp add: out_def pushed_def cap_limit_def)
  next
    case main
    obtain f2 d2 l2 where c: "clip pushed cap_limit first data is_last = (f2, d2, l2)"
      by (cases "clip pushed cap_limit first data is_last") auto
    obtain buf3 pend3 where s: "store f2 d2 (databuf r) (pending_num r) = (buf3, pend3)"
      by (cases "store f2 d2 (databuf r) (pending_num r)") auto
    obtain buf4 pend4 out4 where f: "flush buf3 pend3 out = (buf4, pend4, out4)"
      by (cases "flush buf3 pend3 out") auto
    have avail: "pushed < cap_limit" using main(3) by (simp add: cap_limit_def)
    have cp: "pushed \<le> f2" "d2 \<noteq> []" "f2 + length d2 \<le> cap_limit"
      using clip_props[OF main(1) main(4) main(5) avail c] by auto
    have st: "buf_sorted (databuf r)" "buf_nonempty (databuf r)"
      "buf_within pushed (window_end out) (databuf r)" "pending_num r = buf_total (databuf r)"
      using so buf_within_mono[of "Suc pushed" "window_end out" "databuf r" pushed "window_end out"]
      by (auto simp: store_ok_def out_def pushed_def)
    have sp: "buf_sorted buf3 \<and> buf_nonempty buf3 \<and> buf_within pushed (window_end out) buf3 \<and>
              pend3 = buf_total buf3"
      using store_props[OF st(1,2,3) cp(2,1) _ st(4) s] cp(3) W by simp
    have fp: "buf_sorted buf4 \<and> buf_nonempty buf4 \<and> bs_wf out4 \<and> \<not> closed out4 \<and>
         window_end out4 = window_end out \<and> pend4 = buf_total buf4 \<and>
         (\<forall>e \<in> set buf4. pushed_sum out4 < fst e \<and> fst e + length (snd e) \<le> window_end out4)"
      using flush_props[OF _ _ bs main(2) _ _ f] sp
      by (auto simp: buf_within_def pushed_def)
    let ?r4 = "\<lparr>databuf = buf4, end_pos = (if end_pos r = None \<and> l2 then Some (f2 + length d2) else end_pos r),
               pending_num = pend4, output_stream = out4\<rparr>"
    have "store_ok ?r4"
      using fp by (auto simp: store_ok_def buf_within_def Suc_le_eq)
    moreover have "reassembler_insert first data is_last r = close_if_done ?r4"
      by (rule insert_main_eq) (use main c s f in \<open>simp_all add: out_def pushed_def cap_limit_def\<close>)
    ultimately show ?thesis using close_if_done_wf fp by simp
  qed
qed

lemma pop_wf [wf_preserved]:
  assumes "reasm_wf r" "reader_pop n (output_stream r) = Some out'"
  shows "reasm_wf (r\<lparr>output_stream := out'\<rparr>)"
proof -
  have bs: "bs_wf (output_stream r)" using assms(1) by (simp add: reasm_wf_def store_ok_def)
  then have "len_ok": "n \<le> buffered_sum (output_stream r)"
    using reader_pop_None[OF bs, of n] assms(2) by (cases "n \<le> buffered_sum (output_stream r)") auto
  from reader_pop_Some[OF bs this] assms(2) have o: "bs_wf out'"
    "popped_sum out' = popped_sum (output_stream r) + n" "pushed_sum out' = pushed_sum (output_stream r)"
    "closed out' = closed (output_stream r)" "capacity out' = capacity (output_stream r)"
    by auto
  then have "window_end (output_stream r) \<le> window_end out'" by (simp add: window_end_def)
  with assms(1) o show ?thesis
    by (auto simp: reasm_wf_def store_ok_def intro: buf_within_mono)
qed

lemma reasm_step_wf: "reasm_wf r \<Longrightarrow> reasm_step op r = Some r' \<Longrightarrow> reasm_wf r'"
  by (cases op) (auto intro: wf_preserved)

lemma reassembler_new_wf: "bs_wf out \<Longrightarrow> \<not> closed out \<Longrightarrow> reasm_wf (reassembler_new out)"
  by (simp add: reassembler_new_def reasm_wf_def store_ok_def buf_sorted_def buf_nonempty_def
      buf_within_def)

text \<open>
  The in-order fast path: with nothing stored and no end known, a substring that starts
  at \<open>bytes_pushed\<close> and fits is pushed to the output as it is.
\<close>

lemma insert_in_order:
  assumes "databuf r = []" "end_pos r = None" "\<not> closed (output_stream r)"
    and "first = pushed_sum (output_stream r)" "length data \<le> available_capacity (output_stream r)"
  shows "reassembler_insert first data False r = r\<lparr>output_stream := writer_push data (output_stream r)\<rparr>"
proof (cases "data = []")
  case True
  then show ?thesis using assms(2)
    by (simp add: reassembler_insert_def close_if_done_def writer_push_def)
next
  case False
  then show ?thesis using assms
    by (cases r) (auto simp: reassembler_insert_def clip_def store_def range_entries_def
        erase_range_def close_if_done_def Let_def)
qed

text \<open>The same for the last substring: the stream is then closed at its end.\<close>

lemma insert_in_order_last:
  assumes "databuf r = []" "end_pos r = None" "\<not> closed (output_stream r)"
    and "first = pushed_sum (output_stream r)" "length data \<le> available_capacity (output_stream r)"
  shows "reassembler_insert first data True r =
           r\<lparr>end_pos := Some (first + length data),
             output_stream := writer_close (writer_push data (output_stream r))\<rparr>"
proof (cases "data = []")
  case True
  then show ?thesis using assms(2,4)
    by (simp add: reassembler_insert_def close_if_done_def writer_push_def)
next
  case False
  then show ?thesis using assms
    by (cases r) (auto simp: reassembler_insert_def clip_def store_def range_entries_def
        erase_range_def close_if_done_def writer_push_def available_capacity_def Let_def)
qed

section \<open>Properties of the reassembler\<close>

text \<open>
  C10: whatever substrings are inserted and whatever the application reads in between,
  the reassembler keeps its invariant: stored substrings sorted, disjoint, non-empty,
  strictly past \<open>bytes_pushed\<close> and inside the capacity window; \<open>bytes_pending\<close> equal
  to the stored bytes; the output closed exactly at the recorded end.
\<close>

theorem reassembler_run_wf:
  assumes "reasm_run ops (reassembler_new (byte_stream_new cap)) = Some r"
  shows "reasm_wf r"
proof -
  have "reasm_wf r0 \<Longrightarrow> reasm_run ops r0 = Some r \<Longrightarrow> reasm_wf r" for r0
  proof (induction ops arbitrary: r0)
    case (Cons op ops)
    then obtain r1 where "reasm_step op r0 = Some r1" "reasm_run ops r1 = Some r"
      by (auto split: option.splits)
    with Cons reasm_step_wf show ?case by blast
  qed simp
  moreover have "reasm_wf (reassembler_new (byte_stream_new cap))"
    by (rule reassembler_new_wf[OF byte_stream_new_wf]) (simp add: byte_stream_new_def)
  ultimately show ?thesis using assms by blast
qed

theorem reassembler_run_wf_witness:
  "reasm_run scenario2 (reassembler_new (byte_stream_new 8)) =
     Some (the (reasm_run scenario2 (reassembler_new (byte_stream_new 8)))) \<and>
   reasm_wf (the (reasm_run scenario2 (reassembler_new (byte_stream_new 8)))) \<and>
   contents (output_stream (the (reasm_run scenario2 (reassembler_new (byte_stream_new 8))))) = ''abcdefgh'' \<and>
   closed (output_stream (the (reasm_run scenario2 (reassembler_new (byte_stream_new 8)))))"
proof -
  have run: "reasm_run scenario2 (reassembler_new (byte_stream_new 8)) =
    Some \<lparr>databuf = [], end_pos = Some 8, pending_num = 0,
       output_stream = \<lparr>capacity = 8, closed = True, error_flag = False,
         stream_q = [''ab'', ''cd'', ''ef'', ''gh''], prefix_len = 0, pushed_sum = 8, popped_sum = 0,
         buffered_sum = 8\<rparr>\<rparr>"
    by (simp add: scenario2_def reassembler_insert_def reassembler_new_def byte_stream_new_def
        available_capacity_def clip_def store_def range_entries_def erase_range_def close_if_done_def
        writer_push_def writer_close_def)
  show ?thesis using reassembler_run_wf[OF run] run by (simp add: contents_def)
qed

section \<open>Stored bytes and the capacity\<close>




section \<open>Delivered bytes against a reference stream\<close>

lemma cut_agrees:
  assumes "\<forall>i < length s. s ! i = T (k + i)"
  shows "buf_agrees T (cut_at p (k, s))"
proof (cases "k < p \<and> p < k + length s")
  case True
  then show ?thesis using assms by (auto simp: cut_straddle buf_agrees_def nth_drop add.assoc)
next
  case False
  then show ?thesis using assms by (simp add: cut_single buf_agrees_def)
qed

lemma cuts_agree: "buf_agrees T buf \<Longrightarrow> buf_agrees T (concat (map (cut_at p) buf))"
proof -
  assume a: "buf_agrees T buf"
  have "buf_agrees T (cut_at p e)" if "e \<in> set buf" for e
    using a that cut_agrees[of "snd e" T "fst e" p] by (auto simp: buf_agrees_def)
  then show ?thesis by (auto simp: buf_agrees_def)
qed

lemma buf_agrees_subset: "buf_agrees T xs \<Longrightarrow> set ys \<subseteq> set xs \<Longrightarrow> buf_agrees T ys"
  by (auto simp: buf_agrees_def)

lemma store_agrees:
  assumes "buf_sorted buf" "buf_agrees T buf" "\<forall>i < length d. d ! i = T (f + i)"
    "store f d buf pend = (buf3, pend3)"
  shows "buf_agrees T buf3"
proof -
  have "buf_agrees T (concat (map (cut_at f) (concat (map (cut_at (f + length d)) buf))))"
    using assms(2) by (simp add: cuts_agree)
  then have e: "buf_agrees T (erase_range f (f + length d)
      (concat (map (cut_at f) (concat (map (cut_at (f + length d)) buf)))))"
    using buf_agrees_subset erase_range_subset by blast
  have "buf3 = insert_entry (f, d) (erase_range f (f + length d)
      (concat (map (cut_at f) (concat (map (cut_at (f + length d)) buf)))))"
    using store_eq[OF assms(1), of f d pend] assms(4) by simp
  with e assms(3) show ?thesis
    unfolding buf_agrees_def by (auto simp: insert_entry_set)
qed

lemma clip_agrees:
  assumes "data \<noteq> []" "pushed < first + length data" "first < cap_limit" "pushed < cap_limit"
    "clip pushed cap_limit first data is_last = (f2, d2, l2)" "\<forall>j < length data. data ! j = T (first + j)"
  shows "\<forall>i < length d2. d2 ! i = T (f2 + i)"
proof (intro allI impI)
  have c: "f2 = max first pushed" "f2 + length d2 = min (first + length data) cap_limit"
    "\<forall>i < length d2. d2 ! i = data ! (f2 - first + i)"
    using clip_props[OF assms(1-5)] by auto
  fix i assume i: "i < length d2"
  then have "f2 - first + i < length data" using c(1,2) by auto
  then have "data ! (f2 - first + i) = T (first + (f2 - first + i))" using assms(6) by blast
  then show "d2 ! i = T (f2 + i)" using c(1,3) i by simp
qed

lemma agrees_append:
  assumes "popped \<le> k" "\<forall>i < length s. s ! i = T (k + i)"
  shows "map T [popped..<k] @ s = map T [popped..<k + length s]"
proof -
  have eq: "map T [k..<k + length s] = s"
    by (rule nth_equalityI) (use assms(2) in simp_all)
  have "map T [popped..<k + length s] = map T [popped..<k] @ map T [k..<k + length s]"
    using upt_add_eq_append[OF assms(1), of "length s"] by simp
  then show ?thesis using eq by simp
qed

lemma flush_agrees:
  assumes "buf_sorted buf" "buf_nonempty buf" "bs_wf out" "\<not> closed out"
    "\<forall>e \<in> set buf. pushed_sum out \<le> fst e \<and> fst e + length (snd e) \<le> window_end out"
    "buf_agrees T buf" "stream_agrees T out" "flush buf pend out = (buf', pend', out')"
  shows "buf_agrees T buf' \<and> stream_agrees T out'"
  using assms
proof (induction buf pend out rule: flush.induct)
  case (2 k s rest pend out)
  show ?case
  proof (cases "k = pushed_sum out")
    case False
    with "2.prems" show ?thesis by auto
  next
    case True
    define out1 where "out1 = writer_push s out"
    have s: "s \<noteq> []" using "2.prems"(2) by (simp add: buf_nonempty_def)
    have fits: "length s \<le> available_capacity out"
      using "2.prems"(3,5) True window_end_avail[OF "2.prems"(3)] by auto
    have out1: "out1 = out\<lparr>pushed_sum := pushed_sum out + length s,
        buffered_sum := buffered_sum out + length s, stream_q := stream_q out @ [s]\<rparr>"
      unfolding out1_def using writer_push_fits[OF "2.prems"(4) s fits] .
    have c1: "contents out1 = contents out @ s"
      unfolding out1_def using contents_writer_push[OF "2.prems"(3)] "2.prems"(4) fits by simp
    have sT: "\<forall>i < length s. s ! i = T (k + i)" using "2.prems"(6) by (simp add: buf_agrees_def)
    have pp: "popped_sum out \<le> k" using "2.prems"(3) True by (simp add: bs_wf_def)
    have "contents out1 = map T [popped_sum out..<k] @ s"
      using c1 "2.prems"(7) True by (simp add: stream_agrees_def)
    also have "\<dots> = map T [popped_sum out..<k + length s]" using agrees_append[OF pp sT] .
    finally have "contents out1 = map T [popped_sum out1..<pushed_sum out1]"
      using True out1 by simp
    then have sa1: "stream_agrees T out1" by (simp add: stream_agrees_def)
    have rest: "buf_sorted rest" "buf_nonempty rest" "buf_agrees T rest"
      using "2.prems"(1,2,6) by (auto simp: buf_sorted_Cons buf_nonempty_def buf_agrees_def)
    have bnd: "\<forall>e \<in> set rest. pushed_sum out1 \<le> fst e \<and> fst e + length (snd e) \<le> window_end out1"
      using "2.prems"(1,5) True out1 by (auto simp: buf_sorted_Cons window_end_def)
    have wf1: "bs_wf out1" unfolding out1_def using "2.prems"(3) by (rule writer_push_wf)
    have nc1: "\<not> closed out1" using "2.prems"(4) by (simp add: out1_def writer_push_frame)
    have run: "flush rest (pend - length s) out1 = (buf', pend', out')"
      using "2.prems"(8) True by (simp add: out1_def)
    show ?thesis using "2.IH"[folded out1_def] True rest wf1 nc1 bnd sa1 run by blast
  qed
qed simp

lemma close_if_done_frame [simp]:
  "databuf (close_if_done r) = databuf r" "end_pos (close_if_done r) = end_pos r"
  "pending_num (close_if_done r) = pending_num r"
  by (simp_all add: close_if_done_def)

lemma close_if_done_agrees:
  "stream_agrees T (output_stream r) \<Longrightarrow> stream_agrees T (output_stream (close_if_done r))"
  by (simp add: close_if_done_def stream_agrees_def contents_def writer_close_def)

lemma insert_agrees:
  assumes wf: "reasm_wf r" and ag: "buf_agrees T (databuf r)" "stream_agrees T (output_stream r)"
    and dT: "\<forall>j < length data. data ! j = T (first + j)"
  shows "buf_agrees T (databuf (reassembler_insert first data is_last r)) \<and>
         stream_agrees T (output_stream (reassembler_insert first data is_last r))"
proof -
  define out where "out = output_stream r"
  define pushed where "pushed = pushed_sum out"
  define cap_limit where "cap_limit = pushed + available_capacity out"
  have so: "store_ok r" using wf by (simp add: reasm_wf_def)
  have bs: "bs_wf out" using so by (simp add: store_ok_def out_def)
  have W: "cap_limit = window_end out"
    unfolding cap_limit_def pushed_def using bs by (rule window_end_avail)
  consider (empty) "data = []"
    | (dropped) "data \<noteq> []" "closed out \<or> available_capacity out = 0 \<or>
                 first + length data \<le> pushed \<or> cap_limit \<le> first"
    | (main) "data \<noteq> []" "\<not> closed out" "available_capacity out \<noteq> 0"
             "pushed < first + length data" "first < cap_limit"
    by fastforce
  then show ?thesis
  proof cases
    case empty
    then show ?thesis using ag close_if_done_agrees by (simp add: insert_empty_eq)
  next
    case dropped
    then show ?thesis
      using insert_dropped_eq[of data r first is_last] ag
      by (simp add: out_def pushed_def cap_limit_def)
  next
    case main
    obtain f2 d2 l2 where c: "clip pushed cap_limit first data is_last = (f2, d2, l2)"
      by (cases "clip pushed cap_limit first data is_last") auto
    obtain buf3 pend3 where s: "store f2 d2 (databuf r) (pending_num r) = (buf3, pend3)"
      by (cases "store f2 d2 (databuf r) (pending_num r)") auto
    obtain buf4 pend4 out4 where f: "flush buf3 pend3 out = (buf4, pend4, out4)"
      by (cases "flush buf3 pend3 out") auto
    have avail: "pushed < cap_limit" using main(3) by (simp add: cap_limit_def)
    have cp: "pushed \<le> f2" "d2 \<noteq> []" "f2 + length d2 \<le> cap_limit"
      using clip_props[OF main(1) main(4) main(5) avail c] by auto
    have d2T: "\<forall>i < length d2. d2 ! i = T (f2 + i)"
      using clip_agrees[OF main(1) main(4) main(5) avail c dT] .
    have st: "buf_sorted (databuf r)" "buf_nonempty (databuf r)"
      "buf_within pushed (window_end out) (databuf r)" "pending_num r = buf_total (databuf r)"
      using so buf_within_mono[of "Suc pushed" "window_end out" "databuf r" pushed "window_end out"]
      by (auto simp: store_ok_def out_def pushed_def)
    have sp: "buf_sorted buf3 \<and> buf_nonempty buf3 \<and> buf_within pushed (window_end out) buf3"
      using store_props[OF st(1,2,3) cp(2,1) _ st(4) s] cp(3) W by simp
    have a3: "buf_agrees T buf3" using store_agrees[OF st(1) ag(1) d2T s] .
    have fa: "buf_agrees T buf4 \<and> stream_agrees T out4"
      using flush_agrees[OF _ _ bs main(2) _ a3 _ f] sp ag(2)
      by (auto simp: buf_within_def pushed_def out_def)
    let ?r4 = "\<lparr>databuf = buf4, end_pos = (if end_pos r = None \<and> l2 then Some (f2 + length d2) else end_pos r),
               pending_num = pend4, output_stream = out4\<rparr>"
    have "reassembler_insert first data is_last r = close_if_done ?r4"
      by (rule insert_main_eq) (use main c s f in \<open>simp_all add: out_def pushed_def cap_limit_def\<close>)
    moreover have "databuf (close_if_done ?r4) = buf4"
      by (simp add: close_if_done_def)
    ultimately show ?thesis using fa close_if_done_agrees[of T ?r4] by simp
  qed
qed

lemma flush_frame:
  "flush buf pend out = (buf', pend', out') \<Longrightarrow>
     popped_sum out' = popped_sum out \<and> capacity out' = capacity out \<and> pushed_sum out \<le> pushed_sum out'"
proof (induction buf pend out arbitrary: buf' pend' out' rule: flush.induct)
  case (2 k s rest pend out)
  have "pushed_sum out \<le> pushed_sum (writer_push s out)" by (simp add: writer_push_def Let_def)
  with 2 show ?case by (auto simp: writer_push_frame split: if_splits)
qed simp

lemma insert_frame:
  "popped_sum (output_stream (reassembler_insert first data l r)) = popped_sum (output_stream r) \<and>
   capacity (output_stream (reassembler_insert first data l r)) = capacity (output_stream r) \<and>
   pushed_sum (output_stream r) \<le> pushed_sum (output_stream (reassembler_insert first data l r))"
proof -
  have cl: "popped_sum (output_stream (close_if_done x)) = popped_sum (output_stream x) \<and>
            capacity (output_stream (close_if_done x)) = capacity (output_stream x) \<and>
            pushed_sum (output_stream (close_if_done x)) = pushed_sum (output_stream x)" for x
    by (simp add: close_if_done_def writer_close_def)
  show ?thesis
    unfolding reassembler_insert_def Let_def
    using cl by (auto split: prod.splits dest: flush_frame)
qed

lemma run_agrees:
  assumes "reasm_wf r0" "buf_agrees T (databuf r0)" "stream_agrees T (output_stream r0)"
    "reasm_run ops r0 = Some r" "inserts_agree T ops"
  shows "reasm_reads ops r0 = map T [popped_sum (output_stream r0)..<popped_sum (output_stream r)] \<and>
         stream_agrees T (output_stream r) \<and> reasm_wf r \<and>
         popped_sum (output_stream r0) \<le> popped_sum (output_stream r)"
  using assms
proof (induction ops arbitrary: r0)
  case Nil
  then show ?case by simp
next
  case (Cons op ops)
  show ?case
  proof (cases op)
    case (Insert i d l)
    define r1 where "r1 = reassembler_insert i d l r0"
    have dT: "\<forall>j < length d. d ! j = T (i + j)" and ag: "inserts_agree T ops"
      using Cons.prems(5) Insert by simp_all
    have a1: "buf_agrees T (databuf r1) \<and> stream_agrees T (output_stream r1)"
      unfolding r1_def using insert_agrees[OF Cons.prems(1-3) dT] .
    have w1: "reasm_wf r1" unfolding r1_def using Cons.prems(1) by (rule insert_wf)
    have run: "reasm_run ops r1 = Some r" using Cons.prems(4) Insert by (simp add: r1_def)
    have p1: "popped_sum (output_stream r1) = popped_sum (output_stream r0)"
      unfolding r1_def using insert_frame by blast
    show ?thesis using Cons.IH[OF w1 _ _ run ag] a1 p1 Insert by (simp add: r1_def)
  next
    case (ReadPop n)
    obtain out' where pop: "reader_pop n (output_stream r0) = Some out'"
      and run: "reasm_run ops (r0\<lparr>output_stream := out'\<rparr>) = Some r"
      using Cons.prems(4) ReadPop by (auto split: option.splits)
    define r1 where "r1 = r0\<lparr>output_stream := out'\<rparr>"
    have bs: "bs_wf (output_stream r0)" using Cons.prems(1) by (simp add: reasm_wf_def store_ok_def)
    have n: "n \<le> buffered_sum (output_stream r0)"
      using reader_pop_None[OF bs, of n] pop by (cases "n \<le> buffered_sum (output_stream r0)") auto
    from reader_pop_Some[OF bs n] pop have o: "contents out' = drop n (contents (output_stream r0))"
      "popped_sum out' = popped_sum (output_stream r0) + n"
      "pushed_sum out' = pushed_sum (output_stream r0)" by auto
    have c0: "contents (output_stream r0) =
        map T [popped_sum (output_stream r0)..<pushed_sum (output_stream r0)]"
      using Cons.prems(3) by (simp add: stream_agrees_def)
    have np: "popped_sum (output_stream r0) + n \<le> pushed_sum (output_stream r0)"
      using bs n by (simp add: bs_wf_def)
    have sa1: "stream_agrees T (output_stream r1)"
      using o c0 np by (simp add: r1_def stream_agrees_def drop_map)
    have rd: "read_of op r0 = map T [popped_sum (output_stream r0)..<popped_sum (output_stream r0) + n]"
      using ReadPop c0 np by (simp add: take_map)
    have w1: "reasm_wf r1" unfolding r1_def using pop_wf[OF Cons.prems(1) pop] .
    have b1: "buf_agrees T (databuf r1)" using Cons.prems(2) by (simp add: r1_def)
    have IH: "reasm_reads ops r1 = map T [popped_sum (output_stream r1)..<popped_sum (output_stream r)] \<and>
        stream_agrees T (output_stream r) \<and> reasm_wf r \<and>
        popped_sum (output_stream r1) \<le> popped_sum (output_stream r)"
      using Cons.IH[OF w1 b1 sa1 run[folded r1_def]] Cons.prems(5) ReadPop by simp
    have step: "reasm_step op r0 = Some r1" using ReadPop pop by (simp add: r1_def)
    have "map T [popped_sum (output_stream r0)..<popped_sum (output_stream r0) + n] @
          map T [popped_sum (output_stream r0) + n..<popped_sum (output_stream r)] =
          map T [popped_sum (output_stream r0)..<popped_sum (output_stream r)]"
      using IH o(2) by (intro map_upt_split) (simp_all add: r1_def)
    then show ?thesis using IH step rd o(2) by (simp add: r1_def)
  qed
qed

text \<open>
  C12: if every inserted substring carries the sender's bytes at its indices, then
  what the application has read followed by what is buffered in the output is exactly
  the sender's stream up to \<open>bytes_pushed\<close>: each byte is delivered once, in order,
  unaltered.
\<close>

theorem reassembler_delivers_stream:
  assumes "reasm_run ops (reassembler_new (byte_stream_new cap)) = Some r" "inserts_agree T ops"
  shows "reasm_reads ops (reassembler_new (byte_stream_new cap)) @ contents (output_stream r) =
           map T [0..<pushed_sum (output_stream r)]"
proof -
  let ?r0 = "reassembler_new (byte_stream_new cap)"
  have w0: "reasm_wf ?r0"
    by (rule reassembler_new_wf[OF byte_stream_new_wf]) (simp add: byte_stream_new_def)
  have a0: "buf_agrees T (databuf ?r0)" "stream_agrees T (output_stream ?r0)"
    by (simp_all add: reassembler_new_def byte_stream_new_def buf_agrees_def stream_agrees_def contents_def)
  from run_agrees[OF w0 a0 assms] have
    rd: "reasm_reads ops ?r0 = map T [0..<popped_sum (output_stream r)]" and
    sa: "contents (output_stream r) = map T [popped_sum (output_stream r)..<pushed_sum (output_stream r)]" and
    wf: "reasm_wf r"
    by (simp_all add: reassembler_new_def byte_stream_new_def stream_agrees_def)
  have "popped_sum (output_stream r) \<le> pushed_sum (output_stream r)"
    using wf by (simp add: reasm_wf_def store_ok_def bs_wf_def)
  then show ?thesis
    using rd sa map_upt_split[of 0 "popped_sum (output_stream r)" "pushed_sum (output_stream r)" T]
    by simp
qed

theorem reassembler_delivers_stream_witness:
  "reasm_run (scenario2 @ [ReadPop 3]) (reassembler_new (byte_stream_new 8)) =
     Some (the (reasm_run (scenario2 @ [ReadPop 3]) (reassembler_new (byte_stream_new 8)))) \<and>
   inserts_agree (\<lambda>i. ''abcdefgh'' ! i) (scenario2 @ [ReadPop 3]) \<and>
   reasm_reads (scenario2 @ [ReadPop 3]) (reassembler_new (byte_stream_new 8)) = ''abc'' \<and>
   ''abc'' @ contents (output_stream (the (reasm_run (scenario2 @ [ReadPop 3]) (reassembler_new (byte_stream_new 8)))))
     = map (\<lambda>i. ''abcdefgh'' ! i) [0..<8]"
proof -
  let ?ops = "scenario2 @ [ReadPop 3]"
  let ?r0 = "reassembler_new (byte_stream_new 8)"
  have run: "reasm_run ?ops ?r0 =
    Some \<lparr>databuf = [], end_pos = Some 8, pending_num = 0,
       output_stream = \<lparr>capacity = 8, closed = True, error_flag = False,
         stream_q = [''cd'', ''ef'', ''gh''], prefix_len = 1, pushed_sum = 8, popped_sum = 3,
         buffered_sum = 5\<rparr>\<rparr>"
    by (simp add: scenario2_def reassembler_insert_def reassembler_new_def byte_stream_new_def
        available_capacity_def clip_def store_def range_entries_def erase_range_def close_if_done_def
        writer_push_def writer_close_def reader_pop_def pop_loop.simps)
  have ag: "inserts_agree (\<lambda>i. ''abcdefgh'' ! i) ?ops"
    by (simp add: scenario2_def nth_Cons' less_Suc_eq)
  have rd: "reasm_reads ?ops ?r0 = ''abc''"
    by (simp add: scenario2_def reassembler_insert_def reassembler_new_def byte_stream_new_def
        available_capacity_def clip_def store_def range_entries_def erase_range_def close_if_done_def
        writer_push_def writer_close_def reader_pop_def pop_loop.simps contents_def)
  show ?thesis using reassembler_delivers_stream[OF run ag] run ag rd by simp
qed








end
