(* ===== verification/TCP_Receiver.thy ===== *)
theory TCP_Receiver
  imports TCP_Messages Wrapping_Integers Reassembler
begin

text \<open>
  \<open>TCPReceiver\<close> of \<open>src/tcp_receiver.cc\<close>: it records the peer's initial sequence
  number from the first SYN, turns each segment's 32-bit sequence number into a stream
  index with \<open>unwrap\<close> against the next expected absolute sequence number, and hands the
  payload to its \<open>Reassembler\<close>. \<open>send\<close> reports the acknowledgement number and the
  window. The 64-bit arithmetic of the index is kept at its width (\<open>u64\<close>).
\<close>

section \<open>State and operations\<close>

record tcp_receiver =
  reasm :: reassembler
  base_seqno :: "u32 option"

definition tcp_receiver_new :: "nat \<Rightarrow> tcp_receiver" where
  "tcp_receiver_new cap = \<lparr>reasm = reassembler_new (byte_stream_new cap), base_seqno = None\<rparr>"

abbreviation rcv_out :: "tcp_receiver \<Rightarrow> byte_stream" where
  "rcv_out rv \<equiv> output_stream (reasm rv)"

definition tcp_receiver_receive :: "tcp_sender_message \<Rightarrow> tcp_receiver \<Rightarrow> tcp_receiver" where
  "tcp_receiver_receive msg rv =
     (if error_flag (rcv_out rv) then rv
      else if RST msg then rv\<lparr>reasm := (reasm rv)\<lparr>output_stream := set_error (rcv_out rv)\<rparr>\<rparr>
      else if base_seqno rv = None \<and> \<not> SYN msg then rv
      else
        (let base = (case base_seqno rv of None \<Rightarrow> seqno msg | Some b \<Rightarrow> b);
             expected_seq = (of_nat (pushed_sum (rcv_out rv)) :: u64) + 1;
             absolute_seq = unwrap (seqno msg) base expected_seq;
             index_in_stream = absolute_seq + (if SYN msg then 1 else 0) - 1
         in rv\<lparr>base_seqno := Some base,
               reasm := reassembler_insert (unat index_in_stream) (payload msg) (FIN msg) (reasm rv)\<rparr>))"

definition tcp_receiver_send :: "tcp_receiver \<Rightarrow> tcp_receiver_message" where
  "tcp_receiver_send rv =
     (let out = rcv_out rv;
          window = (if 65535 < available_capacity out then 65535
                    else (of_nat (available_capacity out) :: u16))
      in case base_seqno rv of
           Some b \<Rightarrow>
             \<lparr>ackno = Some (wrap (of_nat (pushed_sum out + 1 + (if closed out then 1 else 0))) b),
              window_size = window, ack_RST = error_flag out\<rparr>
         | None \<Rightarrow> \<lparr>ackno = None, window_size = window, ack_RST = error_flag out\<rparr>)"

text \<open>A receiver's environment: segments arrive and the application reads.\<close>

datatype rcv_op = Segment tcp_sender_message | Read nat

fun rcv_step :: "rcv_op \<Rightarrow> tcp_receiver \<Rightarrow> tcp_receiver option" where
  "rcv_step (Segment m) rv = Some (tcp_receiver_receive m rv)"
| "rcv_step (Read n) rv =
     map_option (\<lambda>out. rv\<lparr>reasm := (reasm rv)\<lparr>output_stream := out\<rparr>\<rparr>) (reader_pop n (rcv_out rv))"

fun rcv_run :: "rcv_op list \<Rightarrow> tcp_receiver \<Rightarrow> tcp_receiver option" where
  "rcv_run [] rv = Some rv"
| "rcv_run (op # ops) rv = (case rcv_step op rv of None \<Rightarrow> None | Some rv' \<Rightarrow> rcv_run ops rv')"

section \<open>Invariant\<close>

text \<open>
  The reassembler is well formed, and before the SYN nothing has been written or stored
  and no end is known.
\<close>

definition rcv_wf :: "tcp_receiver \<Rightarrow> bool" where
  "rcv_wf rv \<longleftrightarrow>
     reasm_wf (reasm rv) \<and>
     (base_seqno rv = None \<longrightarrow>
        pushed_sum (rcv_out rv) = 0 \<and> databuf (reasm rv) = [] \<and> end_pos (reasm rv) = None)"

lemma reasm_wf_set_error:
  "reasm_wf r \<Longrightarrow> reasm_wf (r\<lparr>output_stream := set_error (output_stream r)\<rparr>)"
  by (simp add: reasm_wf_def store_ok_def set_error_wf) (simp add: set_error_def window_end_def)

lemma receive_wf [wf_preserved]: "rcv_wf rv \<Longrightarrow> rcv_wf (tcp_receiver_receive msg rv)"
  unfolding tcp_receiver_receive_def rcv_wf_def
  by (auto simp: Let_def insert_wf reasm_wf_set_error)

lemma read_wf [wf_preserved]:
  "rcv_wf rv \<Longrightarrow> reader_pop n (rcv_out rv) = Some out' \<Longrightarrow>
   rcv_wf (rv\<lparr>reasm := (reasm rv)\<lparr>output_stream := out'\<rparr>\<rparr>)"
  unfolding rcv_wf_def using pop_wf[of "reasm rv" n out'] reader_pop_frame[of n "rcv_out rv" out']
  by simp

lemma tcp_receiver_new_wf: "rcv_wf (tcp_receiver_new cap)"
proof -
  have "reasm_wf (reassembler_new (byte_stream_new cap))"
    by (rule reassembler_new_wf[OF byte_stream_new_wf]) (simp add: byte_stream_new_def)
  then show ?thesis
    by (simp add: tcp_receiver_new_def rcv_wf_def reassembler_new_def byte_stream_new_def)
qed

lemma rcv_step_wf: "rcv_wf rv \<Longrightarrow> rcv_step op rv = Some rv' \<Longrightarrow> rcv_wf rv'"
  by (cases op) (auto intro: wf_preserved)

lemma rcv_run_wf: "rcv_wf rv \<Longrightarrow> rcv_run ops rv = Some rv' \<Longrightarrow> rcv_wf rv'"
proof (induction ops arbitrary: rv)
  case (Cons op ops)
  then obtain rv1 where "rcv_step op rv = Some rv1" "rcv_run ops rv1 = Some rv'"
    by (auto split: option.splits)
  with Cons.IH Cons.prems(1) rcv_step_wf show ?case by blast
qed simp

text \<open>
  Unwrapping a sequence number that is the wrap of an absolute number within \<open>2^31\<close>
  of the checkpoint gives that number back; the receiver's checkpoint is
  \<open>bytes_pushed + 1\<close>.
\<close>

lemma unwrap_wrap_near:
  assumes "a < 2 ^ 64" "c < 2 ^ 64" "\<bar>int a - int c\<bar> < 2 ^ 31"
  shows "unwrap (wrap (of_nat a) zp) zp (of_nat c) = (of_nat a :: u64)"
proof (rule unwrap_near)
  show "ucast (of_nat a :: u64) = wrap (of_nat a) zp - zp" by (simp add: wrap_def)
  show "\<bar>int (unat (of_nat a :: u64)) - int (unat (of_nat c :: u64))\<bar> < 2 ^ 31"
    using assms by (simp add: unat_of_nat)
qed

text \<open>
  A segment whose sequence number is the wrap of absolute sequence number \<open>a\<close>, near the
  next expected one, is inserted at stream index \<open>a + SYN - 1\<close>; a SYN fixes the base.
\<close>

lemma receive_inserts:
  assumes "\<not> error_flag (rcv_out rv)" "\<not> RST msg"
    and b: "(case base_seqno rv of None \<Rightarrow> SYN msg \<and> base = seqno msg | Some b \<Rightarrow> base = b)"
    and sq: "seqno msg = wrap (of_nat a) base" "a + (if SYN msg then 1 else 0) < 2 ^ 64"
      "Suc (pushed_sum (rcv_out rv)) < 2 ^ 64"
    and near: "\<bar>int a - int (Suc (pushed_sum (rcv_out rv)))\<bar> < 2 ^ 31"
    and pos: "0 < a + (if SYN msg then 1 else 0)"
  shows "tcp_receiver_receive msg rv =
           rv\<lparr>base_seqno := Some base,
              reasm := reassembler_insert (a + (if SYN msg then 1 else 0) - 1) (payload msg) (FIN msg)
                         (reasm rv)\<rparr>"
proof -
  have u: "unwrap (seqno msg) base (of_nat (pushed_sum (rcv_out rv)) + 1) = of_nat a"
    using unwrap_wrap_near[of a "Suc (pushed_sum (rcv_out rv))" base] sq near
    by (simp add: add.commute split: if_splits)
  have "unat (of_nat a + (if SYN msg then 1 else 0) - 1 :: u64) = a + (if SYN msg then 1 else 0) - 1"
  proof -
    have "(of_nat a + (if SYN msg then 1 else 0) - 1 :: u64) = of_nat (a + (if SYN msg then 1 else 0) - 1)"
      using pos by (cases a) (auto split: if_splits)
    then show ?thesis using sq(2) by (simp add: unat_of_nat)
  qed
  then show ?thesis
    using assms(1,2) u b by (cases "base_seqno rv") (simp_all add: tcp_receiver_receive_def Let_def)
qed

section \<open>Properties\<close>

text \<open>
  C15: every state a receiver reaches from a fresh one, whatever segments arrive and
  whatever the application reads, has a well-formed reassembler, and before the SYN
  nothing is written, stored or marked as the end.
\<close>

theorem receiver_run_wf:
  "rcv_run ops (tcp_receiver_new cap) = Some rv \<Longrightarrow> rcv_wf rv"
  by (rule rcv_run_wf[OF tcp_receiver_new_wf])

theorem receiver_run_wf_witness:
  "rcv_run [Segment \<lparr>seqno = 5, SYN = True, payload = ''ab'', FIN = False, RST = False\<rparr>,
            Segment \<lparr>seqno = 8, SYN = False, payload = ''c'', FIN = True, RST = False\<rparr>]
     (tcp_receiver_new 4) =
   Some \<lparr>reasm = \<lparr>databuf = [], end_pos = Some 3, pending_num = 0,
     output_stream = \<lparr>capacity = 4, closed = True, error_flag = False,
       stream_q = [''ab'', ''c''], prefix_len = 0, pushed_sum = 3, popped_sum = 0,
       buffered_sum = 3\<rparr>\<rparr>, base_seqno = Some 5\<rparr> \<and>
   rcv_wf \<lparr>reasm = \<lparr>databuf = [], end_pos = Some 3, pending_num = 0,
     output_stream = \<lparr>capacity = 4, closed = True, error_flag = False,
       stream_q = [''ab'', ''c''], prefix_len = 0, pushed_sum = 3, popped_sum = 0,
       buffered_sum = 3\<rparr>\<rparr>, base_seqno = Some 5\<rparr>"
proof -
  have run: "rcv_run [Segment \<lparr>seqno = 5, SYN = True, payload = ''ab'', FIN = False, RST = False\<rparr>,
            Segment \<lparr>seqno = 8, SYN = False, payload = ''c'', FIN = True, RST = False\<rparr>]
     (tcp_receiver_new 4) =
   Some \<lparr>reasm = \<lparr>databuf = [], end_pos = Some 3, pending_num = 0,
     output_stream = \<lparr>capacity = 4, closed = True, error_flag = False,
       stream_q = [''ab'', ''c''], prefix_len = 0, pushed_sum = 3, popped_sum = 0,
       buffered_sum = 3\<rparr>\<rparr>, base_seqno = Some 5\<rparr>"
    by (simp add: tcp_receiver_new_def tcp_receiver_receive_def reassembler_new_def
        byte_stream_new_def unwrap_def reassembler_insert_def available_capacity_def clip_def
        store_def range_entries_def erase_range_def writer_push_def close_if_done_def
        writer_close_def)
  show ?thesis using run receiver_run_wf[OF run] by simp
qed

text \<open>
  C16: once the SYN has been seen, a data segment whose sequence number is the wrap of
  absolute sequence number \<open>i + 1\<close> (stream index \<open>i\<close>), with \<open>i\<close> within \<open>2^31\<close> of
  \<open>bytes_pushed\<close>, is inserted into the reassembler at stream index \<open>i\<close>, and nothing
  else changes.
\<close>

theorem receiver_segment_index:
  assumes "base_seqno rv = Some isn" "\<not> error_flag (rcv_out rv)" "\<not> RST msg" "\<not> SYN msg"
    and "seqno msg = wrap (of_nat (Suc i)) isn" "Suc i < 2 ^ 64" "Suc (pushed_sum (rcv_out rv)) < 2 ^ 64"
    and "\<bar>int i - int (pushed_sum (rcv_out rv))\<bar> < 2 ^ 31"
  shows "tcp_receiver_receive msg rv =
           rv\<lparr>reasm := reassembler_insert i (payload msg) (FIN msg) (reasm rv)\<rparr>"
proof -
  have "tcp_receiver_receive msg rv =
          rv\<lparr>base_seqno := Some isn, reasm := reassembler_insert (Suc i + 0 - 1) (payload msg) (FIN msg) (reasm rv)\<rparr>"
    using receive_inserts[of rv msg isn "Suc i"] assms by simp
  then show ?thesis using assms(1) by simp
qed

theorem receiver_segment_index_witness:
  "tcp_receiver_receive \<lparr>seqno = wrap (of_nat (Suc 2)) 7, SYN = False, payload = ''cd'',
       FIN = False, RST = False\<rparr>
     \<lparr>reasm = reassembler_new (byte_stream_new 4), base_seqno = Some 7\<rparr> =
   \<lparr>reasm = reassembler_insert 2 ''cd'' False (reassembler_new (byte_stream_new 4)),
    base_seqno = Some 7\<rparr>"
  using receiver_segment_index[of "\<lparr>reasm = reassembler_new (byte_stream_new 4), base_seqno = Some 7\<rparr>"
      7 "\<lparr>seqno = wrap (of_nat (Suc 2)) 7, SYN = False, payload = ''cd'', FIN = False, RST = False\<rparr>" 2]
  by (simp add: reassembler_new_def byte_stream_new_def)

text \<open>
  C17: the first SYN fixes the peer's initial sequence number to the segment's own and
  inserts its payload at stream index 0.
\<close>

theorem receiver_syn_starts_stream:
  assumes "rcv_wf rv" "base_seqno rv = None" "\<not> error_flag (rcv_out rv)" "\<not> RST msg" "SYN msg"
  shows "tcp_receiver_receive msg rv =
           rv\<lparr>base_seqno := Some (seqno msg),
              reasm := reassembler_insert 0 (payload msg) (FIN msg) (reasm rv)\<rparr>"
proof -
  have p: "pushed_sum (rcv_out rv) = 0" using assms(1,2) by (simp add: rcv_wf_def)
  have "seqno msg = wrap (of_nat 0) (seqno msg)" by (simp add: wrap_def)
  then show ?thesis
    using receive_inserts[of rv msg "seqno msg" 0] assms(2-5) p by simp
qed

theorem receiver_syn_starts_stream_witness:
  "tcp_receiver_receive \<lparr>seqno = 9, SYN = True, payload = ''a'', FIN = False, RST = False\<rparr>
     (tcp_receiver_new 2) =
   (tcp_receiver_new 2)\<lparr>base_seqno := Some 9,
      reasm := reassembler_insert 0 ''a'' False (reasm (tcp_receiver_new 2))\<rparr>"
proof -
  have "rcv_wf (tcp_receiver_new 2)" by (rule tcp_receiver_new_wf)
  moreover have "base_seqno (tcp_receiver_new 2) = None" "\<not> error_flag (rcv_out (tcp_receiver_new 2))"
    by (simp_all add: tcp_receiver_new_def reassembler_new_def byte_stream_new_def)
  ultimately show ?thesis
    using receiver_syn_starts_stream[of "tcp_receiver_new 2"
        "\<lparr>seqno = 9, SYN = True, payload = ''a'', FIN = False, RST = False\<rparr>"]
    by simp
qed

text \<open>
  C18: the advertised window is the output stream's free capacity, capped at the largest
  16-bit value.
\<close>

theorem receiver_window_bounds:
  "unat (window_size (tcp_receiver_send rv)) = min (available_capacity (rcv_out rv)) 65535"
proof -
  have "unat (if 65535 < available_capacity (rcv_out rv) then 65535
              else (of_nat (available_capacity (rcv_out rv)) :: u16))
        = min (available_capacity (rcv_out rv)) 65535"
    by (simp add: unat_of_nat)
  then show ?thesis
    by (simp add: tcp_receiver_send_def Let_def unat_of_nat split: option.splits)
qed

text \<open>
  C19: the acknowledgement number, unwrapped by the peer against its next sequence
  number \<open>bytes_pushed + 1\<close> (+1 after FIN), gives back the receiver's absolute
  acknowledgement: \<open>bytes_pushed + 1\<close>, plus 1 once the stream is closed.
\<close>

theorem receiver_ackno_roundtrip:
  assumes "base_seqno rv = Some isn" "pushed_sum (rcv_out rv) + 2 < 2 ^ 64"
  shows "\<exists>a. ackno (tcp_receiver_send rv) = Some a \<and>
           unwrap a isn (of_nat (pushed_sum (rcv_out rv) + 1)) =
           of_nat (pushed_sum (rcv_out rv) + 1 + (if closed (rcv_out rv) then 1 else 0))"
proof -
  let ?n = "pushed_sum (rcv_out rv) + 1 + (if closed (rcv_out rv) then 1 else 0)"
  have "unwrap (wrap (of_nat ?n) isn) isn (of_nat (pushed_sum (rcv_out rv) + 1)) = of_nat ?n"
    by (rule unwrap_wrap_near) (use assms(2) in auto)
  then show ?thesis using assms(1) by (simp add: tcp_receiver_send_def Let_def)
qed

theorem receiver_ackno_roundtrip_witness:
  "ackno (tcp_receiver_send \<lparr>reasm = reassembler_new (byte_stream_new 4), base_seqno = Some 0xFFFFFFFF\<rparr>)
     = Some (wrap 1 0xFFFFFFFF) \<and> unwrap (wrap 1 0xFFFFFFFF) 0xFFFFFFFF 1 = 1"
  using receiver_ackno_roundtrip[where
      rv = "\<lparr>reasm = reassembler_new (byte_stream_new 4), base_seqno = Some 0xFFFFFFFF\<rparr>"
      and isn = "0xFFFFFFFF"]
  by (simp add: tcp_receiver_send_def reassembler_new_def byte_stream_new_def Let_def)

text \<open>
  C20: a segment with RST sets the stream's error flag; from then on every segment is
  ignored and every message the receiver sends carries RST.
\<close>

theorem receiver_rst_sticky:
  assumes "RST msg"
  shows "error_flag (rcv_out (tcp_receiver_receive msg rv)) \<and>
         tcp_receiver_receive msg' (tcp_receiver_receive msg rv) = tcp_receiver_receive msg rv \<and>
         ack_RST (tcp_receiver_send (tcp_receiver_receive msg rv))"
proof -
  have e: "error_flag (rcv_out (tcp_receiver_receive msg rv))"
    using assms by (simp add: tcp_receiver_receive_def)
  then show ?thesis
    by (simp add: tcp_receiver_receive_def[of msg' "tcp_receiver_receive msg rv"]
        tcp_receiver_send_def Let_def split: option.splits)
qed

theorem receiver_rst_sticky_witness:
  "error_flag (rcv_out (tcp_receiver_receive \<lparr>seqno = 0, SYN = False, payload = [], FIN = False, RST = True\<rparr>
      (tcp_receiver_new 3))) \<and>
   tcp_receiver_receive \<lparr>seqno = 0, SYN = True, payload = ''x'', FIN = False, RST = False\<rparr>
      (tcp_receiver_receive \<lparr>seqno = 0, SYN = False, payload = [], FIN = False, RST = True\<rparr>
        (tcp_receiver_new 3)) =
   tcp_receiver_receive \<lparr>seqno = 0, SYN = False, payload = [], FIN = False, RST = True\<rparr>
      (tcp_receiver_new 3) \<and>
   ack_RST (tcp_receiver_send (tcp_receiver_receive \<lparr>seqno = 0, SYN = False, payload = [], FIN = False, RST = True\<rparr>
      (tcp_receiver_new 3)))"
  by (rule receiver_rst_sticky) simp

end
