(* ===== verification/Connection.thy ===== *)
theory Connection
  imports TCP_Sender TCP_Receiver
begin

text \<open>
  A sender and a receiver joined back to back: the receiver's \<open>send\<close> tells the sender
  its window, the segments the sender's \<open>push\<close> transmits arrive at the receiver in
  order, and the receiver's acknowledgement goes back to the sender. No code of the
  repository joins them (the network between them is outside \<open>src/\<close>); the theory
  composes the models of \<open>tcp_sender.cc\<close> and \<open>tcp_receiver.cc\<close>.
\<close>

section \<open>In-order delivery at the receiver\<close>

lemma ex_last_butlast:
  "xs \<noteq> [] \<Longrightarrow> \<forall>m \<in> set (butlast xs). \<not> P m \<Longrightarrow> (\<exists>m \<in> set xs. P m) = P (last xs)"
  by (induction xs) auto

lemma writer_close_facts:
  "contents (writer_close s) = contents s \<and> pushed_sum (writer_close s) = pushed_sum s \<and>
   available_capacity (writer_close s) = available_capacity s \<and> closed (writer_close s) \<and>
   error_flag (writer_close s) = error_flag s \<and> capacity (writer_close s) = capacity s"
  by (simp add: writer_close_def contents_def available_capacity_def)

text \<open>
  One segment that arrives exactly at the next byte the receiver expects (the SYN of a
  fresh receiver, or a data segment of a synchronised one) and fits its stream: its
  payload is written, and a FIN closes the stream.
\<close>

lemma receive_in_order:
  assumes st: "\<not> error_flag (rcv_out rv)" "\<not> closed (rcv_out rv)" "bs_wf (rcv_out rv)"
      "databuf (reasm rv) = []" "end_pos (reasm rv) = None"
    and m: "\<not> RST m"
      "(case base_seqno rv of None \<Rightarrow> SYN m \<and> i = seqno m \<and> pushed_sum (rcv_out rv) = 0
                            | Some b \<Rightarrow> b = i \<and> \<not> SYN m)"
    and sq: "seqno m = wrap (of_nat (pushed_sum (rcv_out rv) + (if SYN m then 0 else 1))) i"
    and bd: "Suc (pushed_sum (rcv_out rv)) < 2 ^ 31" "length (payload m) \<le> available_capacity (rcv_out rv)"
  shows "base_seqno (tcp_receiver_receive m rv) = Some i \<and>
         \<not> error_flag (rcv_out (tcp_receiver_receive m rv)) \<and> bs_wf (rcv_out (tcp_receiver_receive m rv)) \<and>
         contents (rcv_out (tcp_receiver_receive m rv)) = contents (rcv_out rv) @ payload m \<and>
         pushed_sum (rcv_out (tcp_receiver_receive m rv)) = pushed_sum (rcv_out rv) + length (payload m) \<and>
         available_capacity (rcv_out (tcp_receiver_receive m rv)) =
           available_capacity (rcv_out rv) - length (payload m) \<and>
         closed (rcv_out (tcp_receiver_receive m rv)) = FIN m \<and>
         capacity (rcv_out (tcp_receiver_receive m rv)) = capacity (rcv_out rv) \<and>
         (\<not> FIN m \<longrightarrow> databuf (reasm (tcp_receiver_receive m rv)) = [] \<and>
                      end_pos (reasm (tcp_receiver_receive m rv)) = None)"
proof -
  define out where "out = rcv_out rv"
  define a where "a = pushed_sum out + (if SYN m then 0 else 1)"
  have idx: "a + (if SYN m then 1 else 0) - 1 = pushed_sum out"
    by (simp add: a_def)
  have b: "(case base_seqno rv of None \<Rightarrow> SYN m \<and> i = seqno m | Some b \<Rightarrow> i = b)"
    using m(2) by (cases "base_seqno rv") auto
  have r: "tcp_receiver_receive m rv =
      rv\<lparr>base_seqno := Some i, reasm := reassembler_insert (pushed_sum out) (payload m) (FIN m) (reasm rv)\<rparr>"
    using receive_inserts[of rv m i a] st(1) m(1) b sq bd(1) unfolding idx
    by (simp add: a_def out_def)
  define out' where "out' = writer_push (payload m) out"
  have wp: "contents out' = contents out @ payload m \<and>
      pushed_sum out' = pushed_sum out + length (payload m) \<and>
      available_capacity out' = available_capacity out - length (payload m) \<and>
      closed out' = closed out \<and> error_flag out' = error_flag out \<and> bs_wf out' \<and>
      capacity out' = capacity out"
    using writer_push_appends[of out "payload m"] st(2,3) bd(2) by (simp add: out_def out'_def)
  show ?thesis
  proof (cases "FIN m")
    case True
    have "reassembler_insert (pushed_sum out) (payload m) (FIN m) (reasm rv) =
        (reasm rv)\<lparr>end_pos := Some (pushed_sum out + length (payload m)), output_stream := writer_close out'\<rparr>"
      using insert_in_order_last[of "reasm rv" "pushed_sum out" "payload m"] st(2,4,5) bd(2) True
      by (simp add: out_def out'_def)
    then show ?thesis
      using r True wp writer_close_facts[of out'] writer_close_wf[of out'] st(1,2) by (simp add: out_def)
  next
    case False
    have "reassembler_insert (pushed_sum out) (payload m) (FIN m) (reasm rv) =
        (reasm rv)\<lparr>output_stream := out'\<rparr>"
      using insert_in_order[of "reasm rv" "pushed_sum out" "payload m"] st(2,4,5) bd(2) False
      by (simp add: out_def out'_def)
    then show ?thesis using r False wp st(1,2,4,5) by (simp add: out_def)
  qed
qed

text \<open>
  A run of data segments, consecutive from the next byte the receiver expects, no SYN,
  no RST, a FIN at most on the last one, all fitting the stream: the receiver writes
  all their payload, and its stream is closed exactly when the last one carries a FIN.
\<close>

lemma receive_flight:
  assumes "contiguous (of_nat (Suc (pushed_sum (rcv_out rv)))) i ms"
    and "\<forall>m \<in> set ms. \<not> SYN m \<and> \<not> RST m" "\<forall>m \<in> set (butlast ms). \<not> FIN m"
    and "base_seqno rv = Some i" "\<not> error_flag (rcv_out rv)" "\<not> closed (rcv_out rv)"
    and "bs_wf (rcv_out rv)" "databuf (reasm rv) = []" "end_pos (reasm rv) = None"
    and "Suc (pushed_sum (rcv_out rv)) + seq_total ms < 2 ^ 31"
    and "length (concat (map payload ms)) \<le> available_capacity (rcv_out rv)"
  shows "\<exists>rv'. rcv_run (map Segment ms) rv = Some rv' \<and> base_seqno rv' = Some i \<and>
           \<not> error_flag (rcv_out rv') \<and> bs_wf (rcv_out rv') \<and>
           closed (rcv_out rv') = (ms \<noteq> [] \<and> FIN (last ms)) \<and>
           (\<not> closed (rcv_out rv') \<longrightarrow> databuf (reasm rv') = [] \<and> end_pos (reasm rv') = None) \<and>
           capacity (rcv_out rv') = capacity (rcv_out rv) \<and>
           contents (rcv_out rv') = contents (rcv_out rv) @ concat (map payload ms) \<and>
           pushed_sum (rcv_out rv') = pushed_sum (rcv_out rv) + length (concat (map payload ms))"
  using assms
proof (induction ms arbitrary: rv)
  case Nil
  then show ?case by simp
next
  case (Cons m ms)
  have fl: "\<not> SYN m" "\<not> RST m" using Cons.prems(2) by auto
  have m: "(case base_seqno rv of None \<Rightarrow> SYN m \<and> i = seqno m \<and> pushed_sum (rcv_out rv) = 0
                                 | Some b \<Rightarrow> b = i \<and> \<not> SYN m)"
    using Cons.prems(4) fl by simp
  have sq: "seqno m = wrap (of_nat (pushed_sum (rcv_out rv) + (if SYN m then 0 else 1))) i"
    using Cons.prems(1) fl by simp
  have bd: "Suc (pushed_sum (rcv_out rv)) < 2 ^ 31" "length (payload m) \<le> available_capacity (rcv_out rv)"
    using Cons.prems(10,11) by simp_all
  define rv1 where "rv1 = tcp_receiver_receive m rv"
  have r1: "base_seqno rv1 = Some i" "\<not> error_flag (rcv_out rv1)" "bs_wf (rcv_out rv1)"
    "contents (rcv_out rv1) = contents (rcv_out rv) @ payload m"
    "pushed_sum (rcv_out rv1) = pushed_sum (rcv_out rv) + length (payload m)"
    "available_capacity (rcv_out rv1) = available_capacity (rcv_out rv) - length (payload m)"
    "closed (rcv_out rv1) = FIN m" "capacity (rcv_out rv1) = capacity (rcv_out rv)"
    "\<not> FIN m \<longrightarrow> databuf (reasm rv1) = [] \<and> end_pos (reasm rv1) = None"
    using receive_in_order[OF Cons.prems(5,6,7,8,9) fl(2) m sq bd] unfolding rv1_def by blast+
  show ?case
  proof (cases "ms = []")
    case True
    then show ?thesis using r1 by (simp add: rv1_def)
  next
    case False
    have nf: "\<not> FIN m" using Cons.prems(3) False by (cases ms) auto
    have len: "seq_len64 m = of_nat (length (payload m))"
      using fl nf by (simp add: seq_len64_def sequence_length_def)
    have p: "contiguous (of_nat (Suc (pushed_sum (rcv_out rv1)))) i ms"
      "\<forall>m \<in> set ms. \<not> SYN m \<and> \<not> RST m" "\<forall>m \<in> set (butlast ms). \<not> FIN m"
      "\<not> closed (rcv_out rv1)" "databuf (reasm rv1) = []" "end_pos (reasm rv1) = None"
      "length (concat (map payload ms)) \<le> available_capacity (rcv_out rv1)"
      using Cons.prems(1,2,3,11) r1 len nf False
      by (simp_all add: add.commute add.left_commute)
    have "seq_total (m # ms) = length (payload m) + seq_total ms"
      using fl nf by (simp add: sequence_length_def)
    then have p7: "Suc (pushed_sum (rcv_out rv1)) + seq_total ms < 2 ^ 31"
      using Cons.prems(10) unfolding r1(5) by linarith
    obtain rv' where IH: "rcv_run (map Segment ms) rv1 = Some rv'" "base_seqno rv' = Some i"
        "\<not> error_flag (rcv_out rv')" "bs_wf (rcv_out rv')" "closed (rcv_out rv') = FIN (last ms)"
        "\<not> closed (rcv_out rv') \<longrightarrow> databuf (reasm rv') = [] \<and> end_pos (reasm rv') = None"
        "capacity (rcv_out rv') = capacity (rcv_out rv1)"
        "contents (rcv_out rv') = contents (rcv_out rv1) @ concat (map payload ms)"
        "pushed_sum (rcv_out rv') = pushed_sum (rcv_out rv1) + length (concat (map payload ms))"
      using Cons.IH[OF p(1-3) r1(1,2) p(4) r1(3) p(5,6) p7 p(7)] False by blast
    show ?thesis using IH r1 False by (simp add: rv1_def)
  qed
qed

lemma filter_last_butlast:
  "xs \<noteq> [] \<Longrightarrow> \<forall>m \<in> set (butlast xs). \<not> P m \<Longrightarrow> length (filter P xs) = (if P (last xs) then 1 else 0)"
  by (induction xs) auto

lemma seq_total_flags:
  "seq_total ms = length (filter SYN ms) + length (concat (map payload ms)) + length (filter FIN ms)"
  by (induction ms) (auto simp: sequence_length_def)

section \<open>The first flight of a fresh sender\<close>

text \<open>
  A fresh sender over an error-free stream, told a window \<open>W\<close>, sends at least the SYN:
  a SYN segment at its ISN, then data segments, consecutive, all within the effective
  window, a FIN at most on the last one, and it records the FIN as sent exactly when
  one went out.
\<close>

lemma first_flight_sender:
  assumes inp: "bs_wf inp" "\<not> error_flag inp"
  shows "\<exists>s2 m1 ms. tcp_sender_push ((tcp_sender_new inp i rto)\<lparr>window_capacity := W\<rparr>) = Some (s2, m1 # ms) \<and> sender_wf s2 \<and>
           pending_messages s2 = m1 # ms \<and> isn s2 = i \<and> ack_sequence_number s2 = 0 \<and>
           \<not> error_flag (input s2) \<and> next_seq_number s2 = of_nat (seq_total (m1 # ms)) \<and>
           concat (map payload (m1 # ms)) @ contents (input s2) = contents inp \<and>
           SYN m1 \<and> \<not> RST m1 \<and> seqno m1 = i \<and> contiguous (seq_len64 m1) i ms \<and>
           (\<forall>m \<in> set ms. \<not> SYN m \<and> \<not> RST m) \<and> (\<forall>m \<in> set (butlast (m1 # ms)). \<not> FIN m) \<and>
           FIN_sent_flag s2 = FIN (last (m1 # ms)) \<and> SYN_sent_flag s2 \<and>
           closed (input s2) = closed inp \<and> (FIN_sent_flag s2 \<longrightarrow> contents (input s2) = []) \<and>
           seq_total (m1 # ms) \<le> unat (eff_window ((tcp_sender_new inp i rto)\<lparr>window_capacity := W\<rparr>))"
proof -
  define s1 where "s1 = (tcp_sender_new inp i rto)\<lparr>window_capacity := W\<rparr>"
  have wf1: "sender_wf s1"
    using tcp_sender_new_wf[OF inp(1), of i rto]
    by (simp add: s1_def sender_wf_def tcp_sender_new_def)
  have f1: "\<not> SYN_sent_flag s1" "\<not> FIN_sent_flag s1" "total_outgoing_seq s1 = 0"
    "pending_messages s1 = []" "next_seq_number s1 = 0" "ack_sequence_number s1 = 0" "isn s1 = i"
    "input s1 = inp"
    by (simp_all add: s1_def tcp_sender_new_def)
  have e1: "0 < eff_window s1"
    using eff_window_bounds[of s1] by (simp add: word_less_nat_alt)
  obtain s2 tx where p: "tcp_sender_push s1 = Some (s2, tx)" "sender_wf s2"
    "concat (map payload tx) @ contents (input s2) = contents (input s1)"
    "pending_messages s2 = pending_messages s1 @ tx"
    "next_seq_number s2 = next_seq_number s1 + of_nat (seq_total tx)"
    "total_outgoing_seq s1 < eff_window s1 \<longrightarrow> total_outgoing_seq s2 \<le> eff_window s1"
    "isn s2 = isn s1" "ack_sequence_number s2 = ack_sequence_number s1"
    "error_flag (input s2) = error_flag (input s1)"
    "\<forall>m \<in> set tx. RST m = error_flag (input s1) \<and> (FIN m \<longrightarrow> closed (input s1)) \<and>
       (SYN m \<longrightarrow> \<not> SYN_sent_flag s1)"
    "\<forall>m \<in> set (drop 1 tx). \<not> SYN m"
    "tx \<noteq> [] \<longrightarrow> SYN (hd tx) = (\<not> SYN_sent_flag s1)"
    "\<not> SYN_sent_flag s1 \<and> total_outgoing_seq s1 < eff_window s1 \<and> \<not> FIN_sent_flag s1 \<longrightarrow> tx \<noteq> []"
    "\<forall>m \<in> set (butlast tx). \<not> FIN m"
    "FIN_sent_flag s2 = (FIN_sent_flag s1 \<or> (\<exists>m \<in> set tx. FIN m))"
    "closed (input s2) = closed (input s1)" "(\<exists>m \<in> set tx. FIN m) \<longrightarrow> contents (input s2) = []"
    "SYN_sent_flag s2 = (SYN_sent_flag s1 \<or> tx \<noteq> [])"
    using push_Some[OF wf1] by (elim exE conjE) (rule that; assumption)
  obtain m1 ms where tx: "tx = m1 # ms" using p(13) f1 e1 by (cases tx) auto
  have wf2: "total_outgoing_seq s2 = of_nat (seq_total tx)" "seq_total tx \<le> 65535"
    "contiguous 0 i tx"
    using p(2,4,7,8) f1 by (simp_all add: sender_wf_def)
  have "unat (total_outgoing_seq s2) \<le> unat (eff_window s1)"
    using p(6) f1 e1 by (simp add: word_le_nat_alt)
  then have win: "seq_total tx \<le> unat (eff_window s1)"
    using wf2(1,2) by (simp add: unat_of_nat_small)
  have fin: "FIN_sent_flag s2 = FIN (last tx)"
    using p(14,15) f1(2) ex_last_butlast[of tx FIN] tx by simp
  have "seqno m1 = i" using wf2(3) tx by (simp add: wrap_def)
  moreover have "SYN_sent_flag s2" "closed (input s2) = closed inp"
    "FIN_sent_flag s2 \<longrightarrow> contents (input s2) = []"
    using p(15-18) f1(2,8) tx by simp_all
  ultimately show ?thesis
    unfolding s1_def[symmetric] using p(1-14) f1 fin wf2(3) win inp(2) tx by auto
qed


text \<open>
  A fresh receiver takes such a flight in order, writes all its payload, and closes its
  stream exactly when the last segment carries a FIN.
\<close>

lemma first_flight_receiver:
  assumes m1: "SYN m1" "\<not> RST m1" "seqno m1 = i"
    and ms: "contiguous (seq_len64 m1) i ms" "\<forall>m \<in> set ms. \<not> SYN m \<and> \<not> RST m"
      "\<forall>m \<in> set (butlast (m1 # ms)). \<not> FIN m"
    and bd: "seq_total (m1 # ms) < 2 ^ 31" "length (concat (map payload (m1 # ms))) \<le> cap"
  shows "\<exists>rv2. rcv_run (map Segment (m1 # ms)) (tcp_receiver_new cap) = Some rv2 \<and>
           base_seqno rv2 = Some i \<and> closed (rcv_out rv2) = FIN (last (m1 # ms)) \<and>
           \<not> error_flag (rcv_out rv2) \<and> bs_wf (rcv_out rv2) \<and> capacity (rcv_out rv2) = cap \<and>
           (\<not> closed (rcv_out rv2) \<longrightarrow> databuf (reasm rv2) = [] \<and> end_pos (reasm rv2) = None) \<and>
           contents (rcv_out rv2) = concat (map payload (m1 # ms)) \<and>
           pushed_sum (rcv_out rv2) = length (concat (map payload (m1 # ms)))"
proof -
  define rv0 where "rv0 = tcp_receiver_new cap"
  have o0: "rcv_out rv0 = byte_stream_new cap" "base_seqno rv0 = None" "databuf (reasm rv0) = []"
    "end_pos (reasm rv0) = None"
    by (simp_all add: rv0_def tcp_receiver_new_def reassembler_new_def)
  have n0: "\<not> error_flag (byte_stream_new cap)" "\<not> closed (byte_stream_new cap)"
    "pushed_sum (byte_stream_new cap) = 0" "available_capacity (byte_stream_new cap) = cap"
    "contents (byte_stream_new cap) = []" "capacity (byte_stream_new cap) = cap"
    by (simp_all add: byte_stream_new_def available_capacity_def contents_def)
  define rv1 where "rv1 = tcp_receiver_receive m1 rv0"
  have r1: "base_seqno rv1 = Some i" "\<not> error_flag (rcv_out rv1)" "bs_wf (rcv_out rv1)"
    "contents (rcv_out rv1) = payload m1" "pushed_sum (rcv_out rv1) = length (payload m1)"
    "available_capacity (rcv_out rv1) = cap - length (payload m1)" "closed (rcv_out rv1) = FIN m1"
    "capacity (rcv_out rv1) = cap"
    "\<not> FIN m1 \<longrightarrow> databuf (reasm rv1) = [] \<and> end_pos (reasm rv1) = None"
    using receive_in_order[of rv0 m1 i] o0 n0 byte_stream_new_wf[of cap] m1 bd(2)
    unfolding rv1_def by (simp_all add: wrap_def)
  have step: "rcv_run (map Segment (m1 # ms)) rv0 = rcv_run (map Segment ms) rv1"
    by (simp add: rv1_def)
  show ?thesis
  proof (cases "ms = []")
    case True
    then show ?thesis using step r1 unfolding rv0_def by simp
  next
    case False
    have nf: "\<not> FIN m1" using ms(3) False by simp
    have sl: "sequence_length m1 = Suc (length (payload m1))"
      using m1(1) nf by (simp add: sequence_length_def)
    have p: "contiguous (of_nat (Suc (pushed_sum (rcv_out rv1)))) i ms"
      "\<forall>m \<in> set (butlast ms). \<not> FIN m" "\<not> closed (rcv_out rv1)"
      "databuf (reasm rv1) = []" "end_pos (reasm rv1) = None"
      "Suc (pushed_sum (rcv_out rv1)) + seq_total ms < 2 ^ 31"
      "length (concat (map payload ms)) \<le> available_capacity (rcv_out rv1)"
      using ms(1,3) r1 nf sl bd False by (simp_all add: seq_len64_def)
    obtain rv2 where rv2: "rcv_run (map Segment ms) rv1 = Some rv2" "base_seqno rv2 = Some i"
        "\<not> error_flag (rcv_out rv2)" "bs_wf (rcv_out rv2)" "closed (rcv_out rv2) = FIN (last ms)"
        "\<not> closed (rcv_out rv2) \<longrightarrow> databuf (reasm rv2) = [] \<and> end_pos (reasm rv2) = None"
        "capacity (rcv_out rv2) = capacity (rcv_out rv1)"
        "contents (rcv_out rv2) = contents (rcv_out rv1) @ concat (map payload ms)"
        "pushed_sum (rcv_out rv2) = pushed_sum (rcv_out rv1) + length (concat (map payload ms))"
      using receive_flight[OF p(1) ms(2) p(2) r1(1,2) p(3) r1(3) p(4-7)] False by blast
    show ?thesis
      using step rv2 r1 False unfolding rv0_def by simp
  qed
qed


text \<open>The window a fresh receiver of capacity \<open>cap\<close> advertises, as the sender sees it.\<close>

lemma fresh_window:
  "tcp_receiver_send (tcp_receiver_new cap) =
     \<lparr>ackno = None, window_size = (if 65535 < cap then 65535 else of_nat cap), ack_RST = False\<rparr> \<and>
   unat (eff_window (s\<lparr>window_capacity := (if 65535 < cap then 65535 else of_nat cap)\<rparr>)) \<le> max 1 cap"
proof -
  have "cap \<le> 65535 \<Longrightarrow> unat (of_nat cap :: u16) = cap" by (simp add: unat_of_nat)
  moreover have "cap \<le> 65535 \<Longrightarrow> cap \<noteq> 0 \<Longrightarrow> (of_nat cap :: u16) \<noteq> 0"
    by (metis calculation unat_0)
  ultimately show ?thesis
    by (auto simp: tcp_receiver_send_def tcp_receiver_new_def reassembler_new_def byte_stream_new_def
        available_capacity_def eff_window_def unsigned_ucast_eq take_bit_nat_eq_self)
qed

section \<open>Properties\<close>

text \<open>
  C31: a fresh sender over an error-free stream and a fresh receiver of capacity
  \<open>cap\<close>, joined back to back. The receiver's first message gives the sender its window;
  the sender's \<open>push\<close> returns and its segments, delivered in order, make the receiver
  write exactly the bytes the sender took from its stream, and close its stream exactly
  when the sender sent its FIN; the receiver then acknowledges the sender's
  \<open>next_seq_number\<close>, and that acknowledgement clears the sender's queue of outstanding
  segments.
\<close>

theorem connection_first_flight:
  assumes "bs_wf inp" "\<not> error_flag inp"
  shows "\<exists>s2 tx rv2.
           tcp_sender_push (tcp_sender_receive (tcp_receiver_send (tcp_receiver_new cap))
             (tcp_sender_new inp i rto)) = Some (s2, tx) \<and>
           rcv_run (map Segment tx) (tcp_receiver_new cap) = Some rv2 \<and>
           concat (map payload tx) @ contents (input s2) = contents inp \<and>
           contents (rcv_out rv2) = concat (map payload tx) \<and>
           closed (rcv_out rv2) = FIN_sent_flag s2 \<and>
           ackno (tcp_receiver_send rv2) = Some (wrap (next_seq_number s2) i) \<and>
           pending_messages (tcp_sender_receive (tcp_receiver_send rv2) s2) = []"
proof -
  define W where "W = (if 65535 < cap then 65535 else (of_nat cap :: u16))"
  have fw: "tcp_receiver_send (tcp_receiver_new cap) = \<lparr>ackno = None, window_size = W, ack_RST = False\<rparr>"
    "unat (eff_window ((tcp_sender_new inp i rto)\<lparr>window_capacity := W\<rparr>)) \<le> max 1 cap"
    using fresh_window[of cap] unfolding W_def by blast+
  have s1: "tcp_sender_receive (tcp_receiver_send (tcp_receiver_new cap)) (tcp_sender_new inp i rto) =
      (tcp_sender_new inp i rto)\<lparr>window_capacity := W\<rparr>"
    using assms(2) fw(1) by (simp add: tcp_sender_receive_def tcp_sender_new_def)
  obtain s2 m1 ms where f: "tcp_sender_push ((tcp_sender_new inp i rto)\<lparr>window_capacity := W\<rparr>) =
        Some (s2, m1 # ms)" "sender_wf s2" "pending_messages s2 = m1 # ms" "isn s2 = i"
      "ack_sequence_number s2 = 0" "\<not> error_flag (input s2)"
      "next_seq_number s2 = of_nat (seq_total (m1 # ms))"
      "concat (map payload (m1 # ms)) @ contents (input s2) = contents inp"
      "SYN m1" "\<not> RST m1" "seqno m1 = i" "contiguous (seq_len64 m1) i ms"
      "\<forall>m \<in> set ms. \<not> SYN m \<and> \<not> RST m" "\<forall>m \<in> set (butlast (m1 # ms)). \<not> FIN m"
      "FIN_sent_flag s2 = FIN (last (m1 # ms))"
      "seq_total (m1 # ms) \<le> unat (eff_window ((tcp_sender_new inp i rto)\<lparr>window_capacity := W\<rparr>))"
    using first_flight_sender[OF assms, where i=i and rto=rto and W=W] by (elim exE conjE) (rule that; assumption)
  have "length (filter SYN (m1 # ms)) = 1" using f(9,13) by simp
  then have st: "seq_total (m1 # ms) =
      Suc (length (concat (map payload (m1 # ms)))) + (if FIN_sent_flag s2 then 1 else 0)"
    using seq_total_flags[of "m1 # ms"] filter_last_butlast[of "m1 # ms" FIN] f(14,15) by simp
  have bd: "seq_total (m1 # ms) < 2 ^ 31" "length (concat (map payload (m1 # ms))) \<le> cap"
    using f(16) fw(2) st eff_window_bounds[of "(tcp_sender_new inp i rto)\<lparr>window_capacity := W\<rparr>"]
    by auto
  obtain rv2 where r: "rcv_run (map Segment (m1 # ms)) (tcp_receiver_new cap) = Some rv2"
      "base_seqno rv2 = Some i" "closed (rcv_out rv2) = FIN (last (m1 # ms))"
      "\<not> error_flag (rcv_out rv2)" "contents (rcv_out rv2) = concat (map payload (m1 # ms))"
      "pushed_sum (rcv_out rv2) = length (concat (map payload (m1 # ms)))"
    using first_flight_receiver[OF f(9-14) bd] by blast
  have nx: "next_seq_number s2 =
      of_nat (pushed_sum (rcv_out rv2) + 1 + (if closed (rcv_out rv2) then 1 else 0))"
    using f(7,15) r(3,6) unfolding st by simp
  define w2 where "w2 = window_size (tcp_receiver_send rv2)"
  have ack: "tcp_receiver_send rv2 =
      \<lparr>ackno = Some (wrap (next_seq_number s2) (isn s2)), window_size = w2, ack_RST = False\<rparr>"
    using r(2,4) f(4) nx by (simp add: tcp_receiver_send_def w2_def Let_def)
  have "pending_messages (tcp_sender_receive (tcp_receiver_send rv2) s2) = []"
    unfolding ack using receive_ack_everything[OF f(2,6), of w2] f(3,5) bd(1) by simp
  then show ?thesis using s1 f(1,4,8,15) r(1,3,5) ack by auto
qed


theorem connection_first_flight_witness:
  "bs_wf (writer_close (writer_push ''hi'' (byte_stream_new 10))) \<and>
   \<not> error_flag (writer_close (writer_push ''hi'' (byte_stream_new 10))) \<and>
   map_option (\<lambda>(s2, tx). (concat (map payload tx), FIN_sent_flag s2,
       map_option (\<lambda>rv. (contents (rcv_out rv), closed (rcv_out rv)))
         (rcv_run (map Segment tx) (tcp_receiver_new 10))))
     (tcp_sender_push (tcp_sender_receive (tcp_receiver_send (tcp_receiver_new 10))
        (tcp_sender_new (writer_close (writer_push ''hi'' (byte_stream_new 10))) 7 100))) =
     Some (''hi'', True, Some (''hi'', True)) \<and>
   (\<exists>s2 tx rv2. tcp_sender_push (tcp_sender_receive (tcp_receiver_send (tcp_receiver_new 10))
        (tcp_sender_new (writer_close (writer_push ''hi'' (byte_stream_new 10))) 7 100)) = Some (s2, tx) \<and>
      rcv_run (map Segment tx) (tcp_receiver_new 10) = Some rv2 \<and>
      contents (rcv_out rv2) = concat (map payload tx) \<and>
      closed (rcv_out rv2) = FIN_sent_flag s2 \<and>
      pending_messages (tcp_sender_receive (tcp_receiver_send rv2) s2) = [])"
proof -
  have wf: "bs_wf (writer_close (writer_push ''hi'' (byte_stream_new 10)))"
    by (rule writer_close_wf[OF writer_push_wf[OF byte_stream_new_wf]])
  have h: "\<not> error_flag (writer_close (writer_push ''hi'' (byte_stream_new 10)))"
    by (simp add: writer_close_def writer_push_def byte_stream_new_def available_capacity_def)
  have c: "map_option (\<lambda>(s2, tx). (concat (map payload tx), FIN_sent_flag s2,
       map_option (\<lambda>rv. (contents (rcv_out rv), closed (rcv_out rv)))
         (rcv_run (map Segment tx) (tcp_receiver_new 10))))
     (tcp_sender_push (tcp_sender_receive (tcp_receiver_send (tcp_receiver_new 10))
        (tcp_sender_new (writer_close (writer_push ''hi'' (byte_stream_new 10))) 7 100))) =
     Some (''hi'', True, Some (''hi'', True))"
    by code_simp
  show ?thesis
    using wf h c connection_first_flight[OF wf h, where cap = 10 and i = 7 and rto = 100] by blast
qed

end
