(* ===== verification/Conn_Transfer.thy ===== *)
theory Conn_Transfer
  imports Connection
begin

text \<open>
  A whole transfer over a sender and a receiver joined back to back, as the tests of
  the repository drive them: in each round the sender pushes, its segments reach the
  receiver in order, the application reads everything the receiver's stream buffers,
  and the receiver's acknowledgement and window go back to the sender. No code of
  \<open>src/\<close> runs the rounds (the test harness is outside it); \<open>conn_round\<close> composes
  the models of \<open>tcp_sender.cc\<close>, \<open>tcp_receiver.cc\<close> and \<open>byte_stream.cc\<close>. The third
  component of the state is what the application has read so far.
\<close>

section \<open>Rounds\<close>






section \<open>The receiver's read and acknowledgement, and the sender's receipt of it\<close>











section \<open>Properties\<close>



end
