(* ===== verification/Network_Interface.thy ===== *)
theory Network_Interface
  imports Minnow_Prelude
begin

text \<open>
  \<open>NetworkInterface\<close> of \<open>src/network_interface.hh\<close> and \<open>src/network_interface.cc\<close>:
  it sends IPv4 datagrams in Ethernet frames, resolving next hops with ARP, and accepts
  frames addressed to it. The three \<open>unordered_map\<close>s are partial maps; the
  \<open>TimeoutTracker\<close> counters (\<open>size_t\<close>) are \<open>nat\<close>, whose sums of tick lengths stay far
  below \<open>2^64\<close>. The codecs (\<open>serialize\<close>, \<open>parse\<close>) are outside \<open>src/\<close>; a frame's payload is
  a datatype that is either a datagram, an ARP message or bytes no parser accepts, so
  parsing what was serialized gives it back and parsing the rest fails. \<open>transmit\<close>
  becomes the list of frames an operation sends, in order.
\<close>

section \<open>Frames, datagrams, ARP messages\<close>

record ipv4_datagram =
  ttl :: u8
  dst :: ipv4_num
  checksum_ok :: bool
  ip_payload :: string

text \<open>\<open>IPv4Header::compute_checksum\<close> makes the header checksum right again.\<close>

definition compute_checksum :: "ipv4_datagram \<Rightarrow> ipv4_datagram" where
  "compute_checksum d = d\<lparr>checksum_ok := True\<rparr>"

record arp_message =
  opcode :: u16
  sender_ethernet_address :: eth_addr
  sender_ip_address :: ipv4_num
  target_ethernet_address :: eth_addr
  target_ip_address :: ipv4_num

datatype frame_payload = Payload_IPv4 ipv4_datagram | Payload_ARP arp_message | Payload_Other string

record ethernet_frame =
  eth_dst :: eth_addr
  eth_src :: eth_addr
  eth_type :: u16
  eth_payload :: frame_payload

definition TYPE_IPv4 :: u16 where "TYPE_IPv4 = 0x0800"
definition TYPE_ARP :: u16 where "TYPE_ARP = 0x0806"
definition OPCODE_REQUEST :: u16 where "OPCODE_REQUEST = 1"
definition OPCODE_REPLY :: u16 where "OPCODE_REPLY = 2"
definition ETHERNET_BROADCAST :: eth_addr where "ETHERNET_BROADCAST = 0xFFFFFFFFFFFF"

fun parse_ipv4 :: "frame_payload \<Rightarrow> ipv4_datagram option" where
  "parse_ipv4 (Payload_IPv4 d) = Some d"
| "parse_ipv4 _ = None"

fun parse_arp :: "frame_payload \<Rightarrow> arp_message option" where
  "parse_arp (Payload_ARP m) = Some m"
| "parse_arp _ = None"

section \<open>State and operations\<close>

record network_interface =
  ethernet_address :: eth_addr
  ip_address :: ipv4_num
  datagrams_received :: "ipv4_datagram list"
  pending_datagrams :: "ipv4_num \<rightharpoonup> ipv4_datagram list"
  pending_timers :: "ipv4_num \<rightharpoonup> nat"
  arp_table :: "ipv4_num \<rightharpoonup> eth_addr \<times> nat"

definition ARP_CACHE_ENTRY_LIFETIME :: nat where "ARP_CACHE_ENTRY_LIFETIME = 30000"
definition ARP_RESPONSE_TTL :: nat where "ARP_RESPONSE_TTL = 5000"

definition network_interface_new :: "eth_addr \<Rightarrow> ipv4_num \<Rightarrow> network_interface" where
  "network_interface_new e ip =
     \<lparr>ethernet_address = e, ip_address = ip, datagrams_received = [],
      pending_datagrams = Map.empty, pending_timers = Map.empty, arp_table = Map.empty\<rparr>"

definition ipv4_frame :: "network_interface \<Rightarrow> eth_addr \<Rightarrow> ipv4_datagram \<Rightarrow> ethernet_frame" where
  "ipv4_frame ni d dgram =
     \<lparr>eth_dst = d, eth_src = ethernet_address ni, eth_type = TYPE_IPv4,
      eth_payload = Payload_IPv4 dgram\<rparr>"

definition send_datagram ::
  "ipv4_datagram \<Rightarrow> ipv4_num \<Rightarrow> network_interface \<Rightarrow> network_interface \<times> ethernet_frame list" where
  "send_datagram dgram next_hop_num ni =
     (case arp_table ni next_hop_num of
        Some (dst_eth, _) \<Rightarrow> (ni, [ipv4_frame ni dst_eth dgram])
      | None \<Rightarrow>
          (let old = (case pending_datagrams ni next_hop_num of None \<Rightarrow> [] | Some l \<Rightarrow> l);
               ni1 = ni\<lparr>pending_datagrams := (pending_datagrams ni)(next_hop_num \<mapsto> old @ [dgram])\<rparr>
           in if pending_timers ni1 next_hop_num \<noteq> None then (ni1, [])
              else
                (let arp_request = \<lparr>opcode = OPCODE_REQUEST, sender_ethernet_address = ethernet_address ni,
                                    sender_ip_address = ip_address ni, target_ethernet_address = 0,
                                    target_ip_address = next_hop_num\<rparr>
                 in (ni1\<lparr>pending_timers := (pending_timers ni1)(next_hop_num \<mapsto> 0)\<rparr>,
                     [\<lparr>eth_dst = ETHERNET_BROADCAST, eth_src = ethernet_address ni, eth_type = TYPE_ARP,
                       eth_payload = Payload_ARP arp_request\<rparr>]))))"

definition recv_arp ::
  "arp_message \<Rightarrow> network_interface \<Rightarrow> network_interface \<times> ethernet_frame list" where
  "recv_arp message ni =
     (let ni1 = ni\<lparr>arp_table := (arp_table ni)(sender_ip_address message \<mapsto>
                                     (sender_ethernet_address message, 0))\<rparr>;
          reply = (if opcode message = OPCODE_REQUEST \<and> target_ip_address message = ip_address ni
                   then [\<lparr>eth_dst = sender_ethernet_address message, eth_src = ethernet_address ni,
                          eth_type = TYPE_ARP,
                          eth_payload = Payload_ARP
                            \<lparr>opcode = OPCODE_REPLY, sender_ethernet_address = ethernet_address ni,
                             sender_ip_address = ip_address ni,
                             target_ethernet_address = sender_ethernet_address message,
                             target_ip_address = sender_ip_address message\<rparr>\<rparr>]
                   else [])
      in case pending_datagrams ni1 (sender_ip_address message) of
           None \<Rightarrow> (ni1, reply)
         | Some l \<Rightarrow>
             (ni1\<lparr>pending_datagrams := (pending_datagrams ni1)(sender_ip_address message := None),
                  pending_timers := (pending_timers ni1)(sender_ip_address message := None)\<rparr>,
              reply @ map (ipv4_frame ni (sender_ethernet_address message)) l))"

definition recv_frame ::
  "ethernet_frame \<Rightarrow> network_interface \<Rightarrow> network_interface \<times> ethernet_frame list" where
  "recv_frame frame ni =
     (if eth_dst frame \<noteq> ethernet_address ni \<and> eth_dst frame \<noteq> ETHERNET_BROADCAST then (ni, [])
      else if eth_type frame = TYPE_IPv4 then
        (case parse_ipv4 (eth_payload frame) of
           Some d \<Rightarrow> (ni\<lparr>datagrams_received := datagrams_received ni @ [d]\<rparr>, [])
         | None \<Rightarrow> (ni, []))
      else if eth_type frame = TYPE_ARP then
        (case parse_arp (eth_payload frame) of
           None \<Rightarrow> (ni, [])
         | Some message \<Rightarrow> recv_arp message ni)
      else (ni, []))"

text \<open>\<open>tick\<close>: age every entry; drop those that reached their lifetime.\<close>

definition age_map :: "nat \<Rightarrow> nat \<Rightarrow> ('k \<rightharpoonup> nat) \<Rightarrow> ('k \<rightharpoonup> nat)" where
  "age_map lifetime ms m =
     (\<lambda>k. case m k of None \<Rightarrow> None | Some t \<Rightarrow> if lifetime \<le> t + ms then None else Some (t + ms))"

definition age_arp :: "nat \<Rightarrow> nat \<Rightarrow> ('k \<rightharpoonup> 'e \<times> nat) \<Rightarrow> ('k \<rightharpoonup> 'e \<times> nat)" where
  "age_arp lifetime ms m =
     (\<lambda>k. case m k of None \<Rightarrow> None | Some (e, t) \<Rightarrow> if lifetime \<le> t + ms then None else Some (e, t + ms))"

definition ni_tick :: "nat \<Rightarrow> network_interface \<Rightarrow> network_interface" where
  "ni_tick ms ni =
     ni\<lparr>arp_table := age_arp ARP_CACHE_ENTRY_LIFETIME ms (arp_table ni),
        pending_timers := age_map ARP_RESPONSE_TTL ms (pending_timers ni)\<rparr>"

section \<open>Runs, monitors and invariant\<close>

datatype ni_op = SendDgram ipv4_datagram ipv4_num | RecvFrame ethernet_frame | TickNI nat

fun ni_step :: "ni_op \<Rightarrow> network_interface \<Rightarrow> network_interface \<times> ethernet_frame list" where
  "ni_step (SendDgram d nh) ni = send_datagram d nh ni"
| "ni_step (RecvFrame f) ni = recv_frame f ni"
| "ni_step (TickNI ms) ni = (ni_tick ms ni, [])"

fun ni_exec :: "ni_op list \<Rightarrow> network_interface \<Rightarrow> network_interface \<times> ethernet_frame list" where
  "ni_exec [] ni = (ni, [])"
| "ni_exec (op # ops) ni =
     (let (ni1, fs) = ni_step op ni; (ni2, fs2) = ni_exec ops ni1 in (ni2, fs @ fs2))"

text \<open>The targets of the ARP requests among transmitted frames.\<close>

fun arp_requests :: "ethernet_frame list \<Rightarrow> ipv4_num list" where
  "arp_requests [] = []"
| "arp_requests (f # fs) =
     (case eth_payload f of
        Payload_ARP m \<Rightarrow> if opcode m = OPCODE_REQUEST then target_ip_address m # arp_requests fs
                        else arp_requests fs
      | _ \<Rightarrow> arp_requests fs)"

fun tick_of :: "ni_op \<Rightarrow> nat" where
  "tick_of (TickNI ms) = ms"
| "tick_of _ = 0"

text \<open>Each ARP request sent in a run, with the time (the sum of the ticks before it).\<close>

fun ni_log :: "nat \<Rightarrow> ni_op list \<Rightarrow> network_interface \<Rightarrow> (nat \<times> ipv4_num) list" where
  "ni_log now [] ni = []"
| "ni_log now (op # ops) ni =
     map (\<lambda>ip. (now, ip)) (arp_requests (snd (ni_step op ni))) @
     ni_log (now + tick_of op) ops (fst (ni_step op ni))"

text \<open>Requests for the same address are at least \<open>ARP_RESPONSE_TTL\<close> apart.\<close>

fun spaced :: "(nat \<times> ipv4_num) list \<Rightarrow> bool" where
  "spaced [] = True"
| "spaced ((t, ip) # rest) = (list_all (\<lambda>(t', ip'). ip' = ip \<longrightarrow> t + ARP_RESPONSE_TTL \<le> t') rest \<and> spaced rest)"

text \<open>
  The interface's invariant: every pending-request timer belongs to an address with
  queued datagrams; no address is both queued and resolved; queues are not empty.
\<close>

definition ni_wf :: "network_interface \<Rightarrow> bool" where
  "ni_wf ni \<longleftrightarrow>
     dom (pending_timers ni) \<subseteq> dom (pending_datagrams ni) \<and>
     dom (pending_datagrams ni) \<inter> dom (arp_table ni) = {} \<and>
     (\<forall>ip l. pending_datagrams ni ip = Some l \<longrightarrow> l \<noteq> [])"

text \<open>
  The clock invariant behind request suppression, for the time \<open>now\<close> and the time
  \<open>lastreq ip\<close> of the latest request for each address: a running timer counts the time
  since that request; with no timer, either 5000 ms have passed or the address is
  resolved by an entry younger than the request.
\<close>

definition arp_clock :: "nat \<Rightarrow> (ipv4_num \<rightharpoonup> nat) \<Rightarrow> network_interface \<Rightarrow> bool" where
  "arp_clock now lastreq ni \<longleftrightarrow>
     (\<forall>ip L. lastreq ip = Some L \<longrightarrow> L \<le> now) \<and>
     (\<forall>ip t. pending_timers ni ip = Some t \<longrightarrow> lastreq ip = Some (now - t) \<and> t \<le> now) \<and>
     (\<forall>ip L. lastreq ip = Some L \<and> pending_timers ni ip = None \<longrightarrow>
        L + ARP_RESPONSE_TTL \<le> now \<or> (\<exists>e a. arp_table ni ip = Some (e, a) \<and> L + a \<le> now))"

text \<open>
  A frame the interface may put on the wire: sent from its own address, with the
  EtherType its payload has (so a peer's \<open>recv_frame\<close> parses it), and an ARP
  message that names the interface as its sender and is a broadcast request or a
  reply addressed to the requester.
\<close>

definition frame_ok :: "eth_addr \<Rightarrow> ipv4_num \<Rightarrow> ethernet_frame \<Rightarrow> bool" where
  "frame_ok e ip f \<longleftrightarrow> eth_src f = e \<and>
     (case eth_payload f of
        Payload_IPv4 d \<Rightarrow> eth_type f = TYPE_IPv4
      | Payload_ARP m \<Rightarrow>
          eth_type f = TYPE_ARP \<and> sender_ethernet_address m = e \<and> sender_ip_address m = ip \<and>
          (opcode m = OPCODE_REQUEST \<and> eth_dst f = ETHERNET_BROADCAST \<and> target_ethernet_address m = 0 \<or>
           opcode m = OPCODE_REPLY \<and> eth_dst f = target_ethernet_address m)
      | Payload_Other _ \<Rightarrow> False)"

section \<open>Requests in transmitted frames\<close>

lemma arp_requests_append [simp]: "arp_requests (xs @ ys) = arp_requests xs @ arp_requests ys"
  by (induction xs rule: arp_requests.induct) (auto split: frame_payload.splits)

lemma arp_requests_ipv4 [simp]: "arp_requests (map (ipv4_frame ni e) l) = []"
  by (induction l) (simp_all add: ipv4_frame_def)

lemma send_requests:
  "arp_requests (snd (send_datagram d nh ni)) =
     (if arp_table ni nh = None \<and> pending_timers ni nh = None then [nh] else [])"
  by (auto simp: send_datagram_def Let_def OPCODE_REQUEST_def ipv4_frame_def split: option.splits)

lemma recv_requests: "arp_requests (snd (recv_frame f ni)) = []"
  by (auto simp: recv_frame_def recv_arp_def Let_def OPCODE_REQUEST_def OPCODE_REPLY_def
      split: option.splits)

section \<open>Request suppression\<close>

lemma send_clock:
  assumes "arp_clock now lastreq ni"
  shows "arp_clock now (if arp_table ni nh = None \<and> pending_timers ni nh = None
                         then lastreq(nh \<mapsto> now) else lastreq) (fst (send_datagram d nh ni))"
  using assms by (auto simp: arp_clock_def send_datagram_def Let_def split: option.splits)

lemma recv_clock: "arp_clock now lastreq ni \<Longrightarrow> arp_clock now lastreq (fst (recv_frame f ni))"
  by (auto simp: arp_clock_def recv_frame_def recv_arp_def Let_def split: option.splits)

lemma age_map_Some:
  "age_map l ms m k = Some t \<Longrightarrow> \<exists>t0. m k = Some t0 \<and> t = t0 + ms \<and> t0 + ms < l"
  by (cases "m k") (auto simp: age_map_def split: if_splits)

lemma tick_clock:
  assumes c: "arp_clock now lastreq ni"
  shows "arp_clock (now + ms) lastreq (ni_tick ms ni)"
proof -
  have h1: "\<forall>ip L. lastreq ip = Some L \<longrightarrow> L \<le> now + ms"
    using c unfolding arp_clock_def by fastforce
  have h2: "lastreq ip = Some (now + ms - t) \<and> t \<le> now + ms"
    if p: "pending_timers (ni_tick ms ni) ip = Some t" for ip t
  proof -
    obtain t0 where "pending_timers ni ip = Some t0" "t = t0 + ms"
      using age_map_Some[of ARP_RESPONSE_TTL ms "pending_timers ni" ip t] p
      by (auto simp: ni_tick_def)
    then show ?thesis using c by (auto simp: arp_clock_def)
  qed
  have h3: "L + ARP_RESPONSE_TTL \<le> now + ms \<or>
        (\<exists>e a. arp_table (ni_tick ms ni) ip = Some (e, a) \<and> L + a \<le> now + ms)"
    if a: "lastreq ip = Some L" "pending_timers (ni_tick ms ni) ip = None" for ip L
  proof (cases "pending_timers ni ip")
    case (Some t0)
    then show ?thesis using a c by (auto simp: arp_clock_def ni_tick_def age_map_def split: if_splits)
  next
    case None
    then have "L + ARP_RESPONSE_TTL \<le> now \<or> (\<exists>e a. arp_table ni ip = Some (e, a) \<and> L + a \<le> now)"
      using a c by (auto simp: arp_clock_def)
    then show ?thesis
      by (auto simp: ni_tick_def age_arp_def ARP_CACHE_ENTRY_LIFETIME_def ARP_RESPONSE_TTL_def)
  qed
  show ?thesis unfolding arp_clock_def using h1 h2 h3 by blast
qed

lemma step_clock:
  assumes "arp_clock now lastreq ni"
  shows "(arp_requests (snd (ni_step op ni)) = [] \<and>
            arp_clock (now + tick_of op) lastreq (fst (ni_step op ni))) \<or>
         (\<exists>ip. arp_requests (snd (ni_step op ni)) = [ip] \<and>
            (\<forall>L. lastreq ip = Some L \<longrightarrow> L + ARP_RESPONSE_TTL \<le> now) \<and>
            arp_clock (now + tick_of op) (lastreq(ip \<mapsto> now)) (fst (ni_step op ni)))"
proof (cases op)
  case (SendDgram d nh)
  show ?thesis
  proof (cases "arp_table ni nh = None \<and> pending_timers ni nh = None")
    case True
    have "L + ARP_RESPONSE_TTL \<le> now" if "lastreq nh = Some L" for L
    proof -
      have "L + ARP_RESPONSE_TTL \<le> now \<or> (\<exists>e a. arp_table ni nh = Some (e, a) \<and> L + a \<le> now)"
        using assms that True unfolding arp_clock_def by blast
      then show ?thesis using True by simp
    qed
    then have "\<forall>L. lastreq nh = Some L \<longrightarrow> L + ARP_RESPONSE_TTL \<le> now" by blast
    then show ?thesis using SendDgram True send_clock[OF assms, of nh d] send_requests[of d nh ni] by auto
  next
    case False
    then show ?thesis using SendDgram send_clock[OF assms, of nh d] send_requests[of d nh ni] by auto
  qed
qed (use assms recv_clock recv_requests tick_clock in auto)

lemma log_spaced:
  "arp_clock now lastreq ni \<Longrightarrow>
   (\<forall>(t, ip) \<in> set (ni_log now ops ni). now \<le> t \<and> (\<forall>L. lastreq ip = Some L \<longrightarrow> L + ARP_RESPONSE_TTL \<le> t)) \<and>
   spaced (ni_log now ops ni)"
proof (induction ops arbitrary: now lastreq ni)
  case (Cons op ops)
  from step_clock[OF Cons.prems, of op] show ?case
  proof (elim disjE exE conjE)
    assume "arp_requests (snd (ni_step op ni)) = []"
      "arp_clock (now + tick_of op) lastreq (fst (ni_step op ni))"
    then show ?thesis using Cons.IH[of "now + tick_of op" lastreq] by fastforce
  next
    fix ip assume r: "arp_requests (snd (ni_step op ni)) = [ip]"
      "\<forall>L. lastreq ip = Some L \<longrightarrow> L + ARP_RESPONSE_TTL \<le> now"
      "arp_clock (now + tick_of op) (lastreq(ip \<mapsto> now)) (fst (ni_step op ni))"
    have le: "\<forall>L. lastreq ip' = Some L \<longrightarrow> L \<le> now" for ip'
      using Cons.prems by (auto simp: arp_clock_def)
    from Cons.IH[OF r(3)] show ?thesis using r(1,2) le
      by (fastforce simp: list_all_iff split: if_splits)
  qed
qed simp

section \<open>Structure\<close>

lemma send_wf [wf_preserved]: "ni_wf ni \<Longrightarrow> ni_wf (fst (send_datagram d nh ni))"
  by (auto simp: ni_wf_def send_datagram_def Let_def split: option.splits)

lemma recv_wf [wf_preserved]: "ni_wf ni \<Longrightarrow> ni_wf (fst (recv_frame f ni))"
  by (auto simp: ni_wf_def recv_frame_def recv_arp_def Let_def split: option.splits)

lemma dom_age_map: "dom (age_map l ms m) \<subseteq> dom m"
  by (auto simp: age_map_def split: option.splits if_splits)

lemma dom_age_arp: "dom (age_arp l ms m) \<subseteq> dom m"
  by (auto simp: age_arp_def split: option.splits if_splits)

lemma ni_tick_wf [wf_preserved]: "ni_wf ni \<Longrightarrow> ni_wf (ni_tick ms ni)"
proof -
  assume wf: "ni_wf ni"
  have "dom (age_map ARP_RESPONSE_TTL ms (pending_timers ni)) \<subseteq> dom (pending_datagrams ni)"
    using wf dom_age_map[of ARP_RESPONSE_TTL ms "pending_timers ni"] unfolding ni_wf_def by blast
  moreover have "dom (pending_datagrams ni) \<inter> dom (age_arp ARP_CACHE_ENTRY_LIFETIME ms (arp_table ni)) = {}"
    using wf dom_age_arp[of ARP_CACHE_ENTRY_LIFETIME ms "arp_table ni"] unfolding ni_wf_def by blast
  ultimately show ?thesis using wf unfolding ni_wf_def ni_tick_def by simp
qed

lemma ni_step_wf: "ni_wf ni \<Longrightarrow> ni_wf (fst (ni_step op ni))"
  by (cases op) (auto intro: wf_preserved)

lemma ni_exec_wf: "ni_wf ni \<Longrightarrow> ni_wf (fst (ni_exec ops ni))"
  by (induction ops arbitrary: ni) (auto simp: Let_def split_def ni_step_wf)

lemma network_interface_new_wf: "ni_wf (network_interface_new e ip)"
  by (simp add: ni_wf_def network_interface_new_def)

lemma network_interface_new_clock: "arp_clock 0 Map.empty (network_interface_new e ip)"
  by (simp add: arp_clock_def network_interface_new_def)

lemma sends_queue:
  "arp_table ni nh = None \<Longrightarrow> pending_timers ni nh \<noteq> None \<Longrightarrow> pending_datagrams ni nh = Some old \<Longrightarrow>
   ni_exec (map (\<lambda>d. SendDgram d nh) ds) ni =
     (ni\<lparr>pending_datagrams := (pending_datagrams ni)(nh \<mapsto> old @ ds)\<rparr>, [])"
proof (induction ds arbitrary: old ni)
  case Nil
  then show ?case by (simp add: fun_upd_idem)
next
  case (Cons d ds)
  let ?ni1 = "ni\<lparr>pending_datagrams := (pending_datagrams ni)(nh \<mapsto> old @ [d])\<rparr>"
  have "send_datagram d nh ni = (?ni1, [])"
    using Cons.prems by (auto simp: send_datagram_def Let_def)
  moreover have "ni_exec (map (\<lambda>d. SendDgram d nh) ds) ?ni1 =
      (?ni1\<lparr>pending_datagrams := (pending_datagrams ?ni1)(nh \<mapsto> (old @ [d]) @ ds)\<rparr>, [])"
    using Cons.prems by (intro Cons.IH) simp_all
  ultimately show ?case by (cases ni) (simp add: fun_eq_iff)
qed

section \<open>Frames on the wire\<close>

lemma ni_step_addresses:
  "ethernet_address (fst (ni_step op ni)) = ethernet_address ni \<and>
   ip_address (fst (ni_step op ni)) = ip_address ni"
  by (cases op)
    (auto simp: send_datagram_def recv_frame_def recv_arp_def ni_tick_def Let_def split: option.splits)

lemma ni_step_frames_ok:
  "list_all (frame_ok (ethernet_address ni) (ip_address ni)) (snd (ni_step op ni))"
  by (cases op)
    (auto simp: send_datagram_def recv_frame_def recv_arp_def ipv4_frame_def frame_ok_def Let_def
       list_all_iff OPCODE_REQUEST_def OPCODE_REPLY_def split: option.splits)

lemma ni_exec_frames_ok:
  "list_all (frame_ok (ethernet_address ni) (ip_address ni)) (snd (ni_exec ops ni))"
proof (induction ops arbitrary: ni)
  case Nil
  then show ?case by simp
next
  case (Cons op ops)
  have "list_all (frame_ok (ethernet_address ni) (ip_address ni)) (snd (ni_exec ops (fst (ni_step op ni))))"
    using Cons.IH[of "fst (ni_step op ni)"] ni_step_addresses[of op ni] by simp
  then show ?case using ni_step_frames_ok[of ni op] by (simp add: Let_def split_def)
qed

section \<open>Properties\<close>

text \<open>
  C32: every state an interface reaches from a fresh one keeps the invariant: a
  pending-request timer only for an address with queued datagrams, no address both
  queued and in the ARP cache, no empty queue.
\<close>

theorem ni_run_wf: "ni_wf (fst (ni_exec ops (network_interface_new e ip)))"
  by (rule ni_exec_wf[OF network_interface_new_wf])

theorem ni_run_wf_witness:
  "ni_wf (fst (ni_exec [SendDgram \<lparr>ttl = 64, dst = 0x08080808, checksum_ok = True, ip_payload = ''a''\<rparr> 0x0A000002, TickNI 6000] (network_interface_new 0xAA 0x0A000001))) \<and>
   pending_datagrams (fst (ni_exec [SendDgram \<lparr>ttl = 64, dst = 0x08080808, checksum_ok = True, ip_payload = ''a''\<rparr> 0x0A000002, TickNI 6000] (network_interface_new 0xAA 0x0A000001))) 0x0A000002 = Some [\<lparr>ttl = 64, dst = 0x08080808, checksum_ok = True, ip_payload = ''a''\<rparr>] \<and>
   pending_timers (fst (ni_exec [SendDgram \<lparr>ttl = 64, dst = 0x08080808, checksum_ok = True, ip_payload = ''a''\<rparr> 0x0A000002, TickNI 6000] (network_interface_new 0xAA 0x0A000001))) 0x0A000002 = None"
proof -
  have "pending_datagrams (fst (ni_exec [SendDgram \<lparr>ttl = 64, dst = 0x08080808, checksum_ok = True, ip_payload = ''a''\<rparr> 0x0A000002, TickNI 6000] (network_interface_new 0xAA 0x0A000001))) 0x0A000002 = Some [\<lparr>ttl = 64, dst = 0x08080808, checksum_ok = True, ip_payload = ''a''\<rparr>] \<and>
     pending_timers (fst (ni_exec [SendDgram \<lparr>ttl = 64, dst = 0x08080808, checksum_ok = True, ip_payload = ''a''\<rparr> 0x0A000002, TickNI 6000] (network_interface_new 0xAA 0x0A000001))) 0x0A000002 = None"
    by (simp add: network_interface_new_def send_datagram_def ni_tick_def age_map_def ARP_RESPONSE_TTL_def Let_def)
  then show ?thesis using ni_run_wf[of "[SendDgram \<lparr>ttl = 64, dst = 0x08080808, checksum_ok = True, ip_payload = ''a''\<rparr> 0x0A000002, TickNI 6000]" "0xAA" "0x0A000001"] by simp
qed

text \<open>
  C33: ARP request suppression (section 8 of the spec): in any run from a fresh
  interface, two ARP requests for the same address are at least \<open>ARP_RESPONSE_TTL\<close>
  (5000 ms) of ticks apart.
\<close>

theorem arp_requests_spaced: "spaced (ni_log 0 ops (network_interface_new e ip))"
  using log_spaced[OF network_interface_new_clock] by blast

theorem arp_requests_spaced_witness:
  "spaced (ni_log 0 [SendDgram \<lparr>ttl = 64, dst = 0x08080808, checksum_ok = True, ip_payload = ''a''\<rparr> 0x0A000002, TickNI 4999, SendDgram \<lparr>ttl = 64, dst = 0x08080808, checksum_ok = True, ip_payload = ''b''\<rparr> 0x0A000002, TickNI 1,
                     SendDgram \<lparr>ttl = 64, dst = 0x08080808, checksum_ok = True, ip_payload = ''b''\<rparr> 0x0A000002] (network_interface_new 0xAA 0x0A000001)) \<and>
   ni_log 0 [SendDgram \<lparr>ttl = 64, dst = 0x08080808, checksum_ok = True, ip_payload = ''a''\<rparr> 0x0A000002, TickNI 4999, SendDgram \<lparr>ttl = 64, dst = 0x08080808, checksum_ok = True, ip_payload = ''b''\<rparr> 0x0A000002, TickNI 1,
             SendDgram \<lparr>ttl = 64, dst = 0x08080808, checksum_ok = True, ip_payload = ''b''\<rparr> 0x0A000002] (network_interface_new 0xAA 0x0A000001) =
     [(0, 0x0A000002), (5000, 0x0A000002)]"
proof -
  have "ni_log 0 [SendDgram \<lparr>ttl = 64, dst = 0x08080808, checksum_ok = True, ip_payload = ''a''\<rparr> 0x0A000002, TickNI 4999, SendDgram \<lparr>ttl = 64, dst = 0x08080808, checksum_ok = True, ip_payload = ''b''\<rparr> 0x0A000002, TickNI 1,
             SendDgram \<lparr>ttl = 64, dst = 0x08080808, checksum_ok = True, ip_payload = ''b''\<rparr> 0x0A000002] (network_interface_new 0xAA 0x0A000001) =
     [(0, 0x0A000002), (5000, 0x0A000002)]"
    by (simp add: network_interface_new_def send_datagram_def ni_tick_def age_map_def age_arp_def
        ARP_RESPONSE_TTL_def ARP_CACHE_ENTRY_LIFETIME_def OPCODE_REQUEST_def Let_def)
  then show ?thesis using arp_requests_spaced[of "[SendDgram \<lparr>ttl = 64, dst = 0x08080808, checksum_ok = True, ip_payload = ''a''\<rparr> 0x0A000002, TickNI 4999,
      SendDgram \<lparr>ttl = 64, dst = 0x08080808, checksum_ok = True, ip_payload = ''b''\<rparr> 0x0A000002, TickNI 1, SendDgram \<lparr>ttl = 64, dst = 0x08080808, checksum_ok = True, ip_payload = ''b''\<rparr> 0x0A000002]" "0xAA" "0x0A000001"] by simp
qed

text \<open>
  C34: datagrams for an unresolved next hop cost one ARP request however many there are;
  when the reply comes, they are all sent, in the order they were queued, to the
  learned Ethernet address, and the queue and its timer are cleared (scenario 6).
\<close>

theorem arp_queue_then_drain:
  assumes "arp_table ni nh = None" "pending_datagrams ni nh = None" "pending_timers ni nh = None"
    and "eth_dst f = ethernet_address ni" "eth_type f = TYPE_ARP" "eth_payload f = Payload_ARP m"
    and "sender_ip_address m = nh" "opcode m = OPCODE_REPLY"
  shows "snd (ni_exec (map (\<lambda>d. SendDgram d nh) (d # ds)) ni) =
           [\<lparr>eth_dst = ETHERNET_BROADCAST, eth_src = ethernet_address ni, eth_type = TYPE_ARP,
             eth_payload = Payload_ARP \<lparr>opcode = OPCODE_REQUEST, sender_ethernet_address = ethernet_address ni,
               sender_ip_address = ip_address ni, target_ethernet_address = 0, target_ip_address = nh\<rparr>\<rparr>] \<and>
         snd (recv_frame f (fst (ni_exec (map (\<lambda>d. SendDgram d nh) (d # ds)) ni))) =
           map (ipv4_frame ni (sender_ethernet_address m)) (d # ds) \<and>
         pending_datagrams (fst (recv_frame f (fst (ni_exec (map (\<lambda>d. SendDgram d nh) (d # ds)) ni)))) nh = None \<and>
         pending_timers (fst (recv_frame f (fst (ni_exec (map (\<lambda>d. SendDgram d nh) (d # ds)) ni)))) nh = None"
proof -
  let ?ni1 = "ni\<lparr>pending_datagrams := (pending_datagrams ni)(nh \<mapsto> [d]),
                 pending_timers := (pending_timers ni)(nh \<mapsto> 0)\<rparr>"
  have s1: "send_datagram d nh ni = (?ni1,
      [\<lparr>eth_dst = ETHERNET_BROADCAST, eth_src = ethernet_address ni, eth_type = TYPE_ARP,
        eth_payload = Payload_ARP \<lparr>opcode = OPCODE_REQUEST, sender_ethernet_address = ethernet_address ni,
          sender_ip_address = ip_address ni, target_ethernet_address = 0, target_ip_address = nh\<rparr>\<rparr>])"
    using assms(1-3) by (simp add: send_datagram_def Let_def)
  have s2: "ni_exec (map (\<lambda>d. SendDgram d nh) ds) ?ni1 =
      (?ni1\<lparr>pending_datagrams := (pending_datagrams ?ni1)(nh \<mapsto> [d] @ ds)\<rparr>, [])"
    using assms(1) by (intro sends_queue) simp_all
  have ty: "TYPE_ARP \<noteq> TYPE_IPv4" "OPCODE_REPLY \<noteq> OPCODE_REQUEST"
    by (simp_all add: TYPE_ARP_def TYPE_IPv4_def OPCODE_REPLY_def OPCODE_REQUEST_def)
  show ?thesis
    using s1 s2 assms(4-8) ty by (simp add: recv_frame_def recv_arp_def Let_def ipv4_frame_def)
qed

theorem arp_queue_then_drain_witness:
  "snd (recv_frame \<lparr>eth_dst = 0xAA, eth_src = 0xBB, eth_type = TYPE_ARP,
          eth_payload = Payload_ARP \<lparr>opcode = OPCODE_REPLY, sender_ethernet_address = 0xBB,
            sender_ip_address = 0x0A000002, target_ethernet_address = 0xAA, target_ip_address = 0x0A000001\<rparr>\<rparr>
       (fst (ni_exec [SendDgram \<lparr>ttl = 64, dst = 0x08080808, checksum_ok = True, ip_payload = ''a''\<rparr> 0x0A000002, SendDgram \<lparr>ttl = 64, dst = 0x08080808, checksum_ok = True, ip_payload = ''b''\<rparr> 0x0A000002] (network_interface_new 0xAA 0x0A000001)))) =
   [ipv4_frame (network_interface_new 0xAA 0x0A000001) 0xBB \<lparr>ttl = 64, dst = 0x08080808, checksum_ok = True, ip_payload = ''a''\<rparr>,
    ipv4_frame (network_interface_new 0xAA 0x0A000001) 0xBB \<lparr>ttl = 64, dst = 0x08080808, checksum_ok = True, ip_payload = ''b''\<rparr>]"
  using arp_queue_then_drain[of "network_interface_new 0xAA 0x0A000001" "0x0A000002"
      "\<lparr>eth_dst = 0xAA, eth_src = 0xBB, eth_type = TYPE_ARP,
          eth_payload = Payload_ARP \<lparr>opcode = OPCODE_REPLY, sender_ethernet_address = 0xBB,
            sender_ip_address = 0x0A000002, target_ethernet_address = 0xAA, target_ip_address = 0x0A000001\<rparr>\<rparr>"
      "\<lparr>opcode = OPCODE_REPLY, sender_ethernet_address = 0xBB,
            sender_ip_address = 0x0A000002, target_ethernet_address = 0xAA, target_ip_address = 0x0A000001\<rparr>"
      "\<lparr>ttl = 64, dst = 0x08080808, checksum_ok = True, ip_payload = ''a''\<rparr>" "[\<lparr>ttl = 64, dst = 0x08080808, checksum_ok = True, ip_payload = ''b''\<rparr>]"]
  by (simp add: network_interface_new_def)


text \<open>
  C40: every frame an interface transmits, in any run from its constructor, is well
  typed: its source is the interface's Ethernet address, its EtherType is the one of
  its payload (IPv4 or ARP, never unparsable bytes), and its ARP messages name the
  interface as sender and are broadcast requests or replies sent to the requester.
\<close>

theorem ni_frames_well_typed:
  "list_all (frame_ok e ip) (snd (ni_exec ops (network_interface_new e ip)))"
  using ni_exec_frames_ok[of "network_interface_new e ip" ops] by (simp add: network_interface_new_def)

end
