(* ===== verification/Router.thy ===== *)
theory Router
  imports Network_Interface
begin

text \<open>
  \<open>Router\<close> of \<open>src/router.cc\<close>: a list of network interfaces and a routing table of 33
  maps, one per prefix length, from the rotated prefix to the route (interface number,
  optional next hop). \<open>route\<close> drains each interface's received datagrams, drops those
  whose TTL would expire, and forwards the rest by longest-prefix match. The lookup is
  the code's: a filter over the tables from length 32 down whose predicate shifts the
  captured address right by one before each probe. Indexing \<open>routable\<close> or
  \<open>_interfaces\<close> out of range is undefined behaviour in C++ and \<open>None\<close> here.
\<close>

type_synonym route_info = "nat \<times> ipv4_num option"
type_synonym route_table = "ipv4_num \<rightharpoonup> route_info"

record router =
  router_interfaces :: "network_interface list"
  routable :: "route_table list"

definition router_new :: "network_interface list \<Rightarrow> router" where
  "router_new ifs = \<lparr>router_interfaces = ifs, routable = replicate 33 Map.empty\<rparr>"

definition add_route :: "u32 \<Rightarrow> u8 \<Rightarrow> ipv4_num option \<Rightarrow> nat \<Rightarrow> router \<Rightarrow> router option" where
  "add_route route_prefix prefix_length next_hop interface_num r =
     (if unat prefix_length < length (routable r)
      then Some (r\<lparr>routable := (routable r)[unat prefix_length :=
             (routable r ! unat prefix_length)(word_rotr (32 - unat prefix_length) route_prefix \<mapsto>
                (interface_num, next_hop))]\<rparr>)
      else None)"

text \<open>
  The lookup of \<open>route()\<close> (lines 37--42): tables in reverse order; before probing a
  table the captured \<open>addr\<close> is shifted right by one (\<open>addr >>= 1\<close>), and the first table
  that contains it gives the route (\<open>mp.at(addr)\<close> reads the same shifted value).
\<close>

fun match_loop :: "ipv4_num \<Rightarrow> route_table list \<Rightarrow> route_info option" where
  "match_loop addr [] = None"
| "match_loop addr (mp # rest) =
     (let addr' = drop_bit 1 addr in
      case mp addr' of Some info \<Rightarrow> Some info | None \<Rightarrow> match_loop addr' rest)"

definition longest_prefix_match :: "ipv4_num \<Rightarrow> router \<Rightarrow> route_info option" where
  "longest_prefix_match dst_addr r = match_loop dst_addr (rev (routable r))"

text \<open>
  Longest-prefix match as section 4.7 of the spec describes it: scanning lengths \<open>L\<close>
  from 32 down, the first table containing \<open>dst >> (32 - L)\<close> wins.
\<close>

fun match_ref :: "ipv4_num \<Rightarrow> nat \<Rightarrow> route_table list \<Rightarrow> route_info option" where
  "match_ref a L [] = None"
| "match_ref a L (mp # rest) =
     (case mp (drop_bit (32 - L) a) of Some info \<Rightarrow> Some info | None \<Rightarrow> match_ref a (L - 1) rest)"

definition lpm_ref :: "ipv4_num \<Rightarrow> router \<Rightarrow> route_info option" where
  "lpm_ref dst_addr r = match_ref dst_addr (length (routable r) - 1) (rev (routable r))"

text \<open>One datagram of \<open>route()\<close> (lines 31--50); the frames are tagged with the interface.\<close>

definition route_datagram ::
  "ipv4_datagram \<Rightarrow> router \<Rightarrow> (router \<times> (nat \<times> ethernet_frame) list) option" where
  "route_datagram d r =
     (if ttl d \<le> 1 then Some (r, [])
      else
        (let d' = compute_checksum (d\<lparr>ttl := ttl d - 1\<rparr>)
         in case longest_prefix_match (dst d') r of
              None \<Rightarrow> Some (r, [])
            | Some (num, next_hop) \<Rightarrow>
                if num < length (router_interfaces r) then
                  (let (ni', frames) = send_datagram d'
                          (case next_hop of Some a \<Rightarrow> a | None \<Rightarrow> dst d') (router_interfaces r ! num)
                   in Some (r\<lparr>router_interfaces := (router_interfaces r)[num := ni']\<rparr>,
                            map (Pair num) frames))
                else None))"

fun route_queue ::
  "ipv4_datagram list \<Rightarrow> router \<Rightarrow> (router \<times> (nat \<times> ethernet_frame) list) option" where
  "route_queue [] r = Some (r, [])"
| "route_queue (d # ds) r =
     (case route_datagram d r of
        None \<Rightarrow> None
      | Some (r1, out1) \<Rightarrow>
          (case route_queue ds r1 of None \<Rightarrow> None | Some (r2, out2) \<Rightarrow> Some (r2, out1 @ out2)))"

text \<open>
  \<open>route()\<close>: for each interface in order, take its received datagrams and route them.
  Routing never adds to any \<open>datagrams_received\<close> queue (\<open>send_datagram\<close> does not touch
  it), so emptying the queue first and then routing its datagrams in order is the
  code's pop-and-process loop.
\<close>

fun route_from :: "nat list \<Rightarrow> router \<Rightarrow> (router \<times> (nat \<times> ethernet_frame) list) option" where
  "route_from [] r = Some (r, [])"
| "route_from (i # is) r =
     (let q = datagrams_received (router_interfaces r ! i);
          r0 = r\<lparr>router_interfaces := (router_interfaces r)[i :=
                  (router_interfaces r ! i)\<lparr>datagrams_received := []\<rparr>]\<rparr>
      in case route_queue q r0 of
           None \<Rightarrow> None
         | Some (r1, out1) \<Rightarrow>
             (case route_from is r1 of None \<Rightarrow> None | Some (r2, out2) \<Rightarrow> Some (r2, out1 @ out2)))"

definition route :: "router \<Rightarrow> (router \<times> (nat \<times> ethernet_frame) list) option" where
  "route r = route_from [0..<length (router_interfaces r)] r"

section \<open>Lookup\<close>

lemma match_loop_ref:
  "length ts \<le> Suc L \<Longrightarrow> L \<le> 32 \<Longrightarrow>
   match_loop (drop_bit (32 - L) a) ts = match_ref (drop_bit 1 a) L ts"
proof (induction ts arbitrary: L)
  case (Cons mp rest)
  have k: "drop_bit 1 (drop_bit (32 - L) a) = drop_bit (32 - L) (drop_bit 1 a)"
    by (simp add: drop_bit_drop_bit add.commute)
  show ?case
  proof (cases rest)
    case Nil
    then show ?thesis using k by (simp split: option.splits)
  next
    case (Cons m' rest')
    then have L: "1 \<le> L" using Cons.prems(1) by simp
    have e: "Suc (32 - L) = 33 - L" using L Cons.prems(2) by arith
    have "drop_bit (32 - L) (drop_bit 1 a) = drop_bit (32 - (L - 1)) a"
      using L Cons.prems(2) by (simp add: drop_bit_drop_bit e)
    moreover have "match_loop (drop_bit (32 - (L - 1)) a) rest = match_ref (drop_bit 1 a) (L - 1) rest"
      using Cons.IH[of "L - 1"] Cons.prems L by simp
    ultimately show ?thesis using k by (simp split: option.splits)
  qed
qed simp

lemma add_route_length:
  "add_route p l nh n r = Some r' \<Longrightarrow> length (routable r') = length (routable r) \<and>
     router_interfaces r' = router_interfaces r"
  by (auto simp: add_route_def split: if_splits)

section \<open>Routing leaves the received queues alone\<close>

lemma send_datagram_keeps_received:
  "datagrams_received (fst (send_datagram d nh ni)) = datagrams_received ni"
  by (auto simp: send_datagram_def Let_def split: option.splits)

lemma send_datagram_payloads:
  "f \<in> set (snd (send_datagram d nh ni)) \<Longrightarrow> eth_payload f = Payload_IPv4 d' \<Longrightarrow> d' = d"
  by (auto simp: send_datagram_def Let_def ipv4_frame_def split: option.splits if_splits)

lemma send_datagram_keeps_received':
  "send_datagram d nh ni = (ni', fs) \<Longrightarrow> datagrams_received ni' = datagrams_received ni"
  using send_datagram_keeps_received[of d nh ni] by simp

text \<open>A routed datagram is dropped, or handed to one interface's \<open>send_datagram\<close>.\<close>

lemma route_datagram_Some:
  assumes "route_datagram d r = Some (r', out)"
  shows "(ttl d \<le> 1 \<longrightarrow> r' = r \<and> out = []) \<and>
         ((r' = r \<and> out = []) \<or>
          (\<not> ttl d \<le> 1 \<and> (\<exists>num nh ni' fs. num < length (router_interfaces r) \<and>
             send_datagram (compute_checksum (d\<lparr>ttl := ttl d - 1\<rparr>)) nh (router_interfaces r ! num) = (ni', fs) \<and>
             r' = r\<lparr>router_interfaces := (router_interfaces r)[num := ni']\<rparr> \<and> out = map (Pair num) fs)))"
proof (cases "ttl d \<le> 1")
  case True
  then show ?thesis using assms by (simp add: route_datagram_def)
next
  case False
  define d' where "d' = compute_checksum (d\<lparr>ttl := ttl d - 1\<rparr>)"
  show ?thesis
  proof (cases "longest_prefix_match (dst d') r")
    case None
    then show ?thesis using assms False by (simp add: route_datagram_def Let_def flip: d'_def)
  next
    case (Some info)
    obtain num nh where info: "info = (num, nh)" by (cases info)
    obtain ni' fs where s: "send_datagram d' (case nh of Some a \<Rightarrow> a | None \<Rightarrow> dst d')
        (router_interfaces r ! num) = (ni', fs)"
      by (cases "send_datagram d' (case nh of Some a \<Rightarrow> a | None \<Rightarrow> dst d') (router_interfaces r ! num)") auto
    have "num < length (router_interfaces r) \<and>
        r' = r\<lparr>router_interfaces := (router_interfaces r)[num := ni']\<rparr> \<and> out = map (Pair num) fs"
      using assms False Some info s by (simp add: route_datagram_def Let_def split: if_splits flip: d'_def)
    then show ?thesis using False s unfolding d'_def by blast
  qed
qed

lemma route_datagram_frame:
  "route_datagram d r = Some (r', out) \<Longrightarrow>
   length (router_interfaces r') = length (router_interfaces r) \<and> routable r' = routable r \<and>
   (\<forall>j < length (router_interfaces r).
      datagrams_received (router_interfaces r' ! j) = datagrams_received (router_interfaces r ! j))"
  by (drule route_datagram_Some) (auto simp: nth_list_update dest: send_datagram_keeps_received')

lemma route_queue_frame:
  "route_queue ds r = Some (r', out) \<Longrightarrow>
   length (router_interfaces r') = length (router_interfaces r) \<and> routable r' = routable r \<and>
   (\<forall>j < length (router_interfaces r).
      datagrams_received (router_interfaces r' ! j) = datagrams_received (router_interfaces r ! j))"
proof (induction ds arbitrary: r out)
  case (Cons d ds)
  then obtain r1 out1 out2 where "route_datagram d r = Some (r1, out1)" "route_queue ds r1 = Some (r', out2)"
    by (auto split: option.splits)
  with Cons.IH route_datagram_frame show ?case by fastforce
qed simp

lemma route_from_frame:
  "route_from is r = Some (r', out) \<Longrightarrow> \<forall>i \<in> set is. i < length (router_interfaces r) \<Longrightarrow>
   length (router_interfaces r') = length (router_interfaces r) \<and> routable r' = routable r \<and>
   (\<forall>j < length (router_interfaces r).
      datagrams_received (router_interfaces r' ! j) =
        (if j \<in> set is then [] else datagrams_received (router_interfaces r ! j)))"
proof (induction "is" arbitrary: r out)
  case (Cons i "is")
  define r0 where "r0 = r\<lparr>router_interfaces := (router_interfaces r)[i :=
                  (router_interfaces r ! i)\<lparr>datagrams_received := []\<rparr>]\<rparr>"
  obtain r1 out1 out2 where q: "route_queue (datagrams_received (router_interfaces r ! i)) r0 = Some (r1, out1)"
    and f: "route_from is r1 = Some (r', out2)"
    using Cons.prems(1) by (auto simp: r0_def Let_def split: option.splits)
  have q': "length (router_interfaces r1) = length (router_interfaces r) \<and> routable r1 = routable r \<and>
      (\<forall>j < length (router_interfaces r).
         datagrams_received (router_interfaces r1 ! j) =
           (if j = i then [] else datagrams_received (router_interfaces r ! j)))"
    using route_queue_frame[OF q] by (simp add: r0_def nth_list_update)
  then show ?case using Cons.IH[OF f] Cons.prems(2) by auto
qed simp

section \<open>Properties\<close>

text \<open>
  C35: the code's lookup is longest-prefix match applied to the destination shifted right
  by one bit: table \<open>L\<close> is probed with \<open>dst >> (33 - L)\<close> where \<open>add_route\<close> stored the
  prefix as \<open>rotr(prefix, 32 - L)\<close>, whose match key is \<open>dst >> (32 - L)\<close>.
\<close>

theorem lookup_is_ref_of_shifted:
  assumes "length (routable r) = 33"
  shows "longest_prefix_match dst_addr r = lpm_ref (drop_bit 1 dst_addr) r"
  using match_loop_ref[of "rev (routable r)" 32 dst_addr] assms
  by (simp add: longest_prefix_match_def lpm_ref_def)

theorem lookup_is_ref_of_shifted_witness:
  "length (routable (the (Option.bind (Option.bind (add_route 0 0 None 0 (router_new [])) (add_route 0x0A000000 8 None 1)) (add_route 0x0A010000 16 None 2)))) = 33 \<and>
   longest_prefix_match 0x0A010203 (the (Option.bind (Option.bind (add_route 0 0 None 0 (router_new [])) (add_route 0x0A000000 8 None 1)) (add_route 0x0A010000 16 None 2))) = lpm_ref 0x05008101 (the (Option.bind (Option.bind (add_route 0 0 None 0 (router_new [])) (add_route 0x0A000000 8 None 1)) (add_route 0x0A010000 16 None 2))) \<and>
   lpm_ref 0x05008101 (the (Option.bind (Option.bind (add_route 0 0 None 0 (router_new [])) (add_route 0x0A000000 8 None 1)) (add_route 0x0A010000 16 None 2))) = Some (0, None)"
proof -
  have l: "length (routable (the (Option.bind (Option.bind (add_route 0 0 None 0 (router_new [])) (add_route 0x0A000000 8 None 1)) (add_route 0x0A010000 16 None 2)))) = 33" by code_simp
  have "lpm_ref 0x05008101 (the (Option.bind (Option.bind (add_route 0 0 None 0 (router_new [])) (add_route 0x0A000000 8 None 1)) (add_route 0x0A010000 16 None 2))) = Some (0, None)" by code_simp
  moreover have "drop_bit 1 (0x0A010203 :: u32) = 0x05008101" by code_simp
  ultimately show ?thesis using l lookup_is_ref_of_shifted[OF l, of "0x0A010203"] by simp
qed


text \<open>
  C37: a datagram whose TTL is at most 1 is dropped with nothing sent; every datagram
  the router puts in a frame is the received one with its TTL decremented, still at
  least 1, and its checksum recomputed.
\<close>

theorem route_datagram_ttl:
  assumes "route_datagram d r = Some (r', out)"
  shows "(ttl d \<le> 1 \<longrightarrow> r' = r \<and> out = []) \<and>
         (\<forall>(k, f) \<in> set out. \<forall>d'. eth_payload f = Payload_IPv4 d' \<longrightarrow>
            d' = compute_checksum (d\<lparr>ttl := ttl d - 1\<rparr>) \<and> 1 \<le> ttl d')"
proof -
  have one: "1 \<le> ttl d - 1" if "\<not> ttl d \<le> 1"
    using that by (simp add: word_le_nat_alt unat_sub word_less_nat_alt not_le)
  show ?thesis
    using route_datagram_Some[OF assms]
  proof (elim conjE disjE exE)
    fix num nh ni' fs
    assume c: "\<not> ttl d \<le> 1"
      "send_datagram (compute_checksum (d\<lparr>ttl := ttl d - 1\<rparr>)) nh (router_interfaces r ! num) = (ni', fs)"
      "out = map (Pair num) fs"
    have "\<forall>f \<in> set fs. \<forall>d'. eth_payload f = Payload_IPv4 d' \<longrightarrow> d' = compute_checksum (d\<lparr>ttl := ttl d - 1\<rparr>)"
      using send_datagram_payloads[of _ "compute_checksum (d\<lparr>ttl := ttl d - 1\<rparr>)" nh "router_interfaces r ! num"] c(2)
      by auto
    then show ?thesis using c(1,3) one[OF c(1)] by (auto simp: compute_checksum_def)
  qed auto
qed

theorem route_datagram_ttl_witness:
  "route_datagram \<lparr>ttl = 64, dst = 0x08080808, checksum_ok = False, ip_payload = ''x''\<rparr> (the (add_route 0 0 None 0 (router_new [((network_interface_new 0xAA 0x0A000001)\<lparr>arp_table := [0x08080808 \<mapsto> (0xBB, 0)]\<rparr>)]))) = Some (fst (the (route_datagram \<lparr>ttl = 64, dst = 0x08080808, checksum_ok = False, ip_payload = ''x''\<rparr> (the (add_route 0 0 None 0 (router_new [((network_interface_new 0xAA 0x0A000001)\<lparr>arp_table := [0x08080808 \<mapsto> (0xBB, 0)]\<rparr>)]))))), snd (the (route_datagram \<lparr>ttl = 64, dst = 0x08080808, checksum_ok = False, ip_payload = ''x''\<rparr> (the (add_route 0 0 None 0 (router_new [((network_interface_new 0xAA 0x0A000001)\<lparr>arp_table := [0x08080808 \<mapsto> (0xBB, 0)]\<rparr>)])))))) \<and>
   snd (the (route_datagram \<lparr>ttl = 64, dst = 0x08080808, checksum_ok = False, ip_payload = ''x''\<rparr> (the (add_route 0 0 None 0 (router_new [((network_interface_new 0xAA 0x0A000001)\<lparr>arp_table := [0x08080808 \<mapsto> (0xBB, 0)]\<rparr>)]))))) =
     [(0, \<lparr>eth_dst = 0xBB, eth_src = 0xAA, eth_type = TYPE_IPv4,
           eth_payload = Payload_IPv4 \<lparr>ttl = 63, dst = 0x08080808, checksum_ok = True, ip_payload = ''x''\<rparr>\<rparr>)] \<and>
   compute_checksum (\<lparr>ttl = 64, dst = 0x08080808, checksum_ok = False, ip_payload = ''x''\<rparr>\<lparr>ttl := ttl \<lparr>ttl = 64, dst = 0x08080808, checksum_ok = False, ip_payload = ''x''\<rparr> - 1\<rparr>) = \<lparr>ttl = 63, dst = 0x08080808, checksum_ok = True, ip_payload = ''x''\<rparr>"
proof -
  have r: "route_datagram \<lparr>ttl = 64, dst = 0x08080808, checksum_ok = False, ip_payload = ''x''\<rparr> (the (add_route 0 0 None 0 (router_new [((network_interface_new 0xAA 0x0A000001)\<lparr>arp_table := [0x08080808 \<mapsto> (0xBB, 0)]\<rparr>)]))) = Some (fst (the (route_datagram \<lparr>ttl = 64, dst = 0x08080808, checksum_ok = False, ip_payload = ''x''\<rparr> (the (add_route 0 0 None 0 (router_new [((network_interface_new 0xAA 0x0A000001)\<lparr>arp_table := [0x08080808 \<mapsto> (0xBB, 0)]\<rparr>)]))))), snd (the (route_datagram \<lparr>ttl = 64, dst = 0x08080808, checksum_ok = False, ip_payload = ''x''\<rparr> (the (add_route 0 0 None 0 (router_new [((network_interface_new 0xAA 0x0A000001)\<lparr>arp_table := [0x08080808 \<mapsto> (0xBB, 0)]\<rparr>)]))))))"
    by code_simp
  have o: "snd (the (route_datagram \<lparr>ttl = 64, dst = 0x08080808, checksum_ok = False, ip_payload = ''x''\<rparr> (the (add_route 0 0 None 0 (router_new [((network_interface_new 0xAA 0x0A000001)\<lparr>arp_table := [0x08080808 \<mapsto> (0xBB, 0)]\<rparr>)]))))) =
     [(0, \<lparr>eth_dst = 0xBB, eth_src = 0xAA, eth_type = TYPE_IPv4,
           eth_payload = Payload_IPv4 \<lparr>ttl = 63, dst = 0x08080808, checksum_ok = True, ip_payload = ''x''\<rparr>\<rparr>)]"
    by code_simp
  show ?thesis using r o route_datagram_ttl[OF r] by (simp add: compute_checksum_def)
qed

text \<open>
  C38: \<open>route()\<close> empties every interface's queue of received datagrams, and changes
  neither the number of interfaces nor the routing table.
\<close>

theorem route_drains_all:
  assumes "route r = Some (r', out)"
  shows "length (router_interfaces r') = length (router_interfaces r) \<and> routable r' = routable r \<and>
         (\<forall>j < length (router_interfaces r'). datagrams_received (router_interfaces r' ! j) = [])"
  using route_from_frame[OF assms[unfolded route_def]] by simp

theorem route_drains_all_witness:
  "route ((the (add_route 0 0 None 0 (router_new [((network_interface_new 0xAA 0x0A000001)\<lparr>arp_table := [0x08080808 \<mapsto> (0xBB, 0)]\<rparr>)])))\<lparr>router_interfaces := [((network_interface_new 0xAA 0x0A000001)\<lparr>arp_table := [0x08080808 \<mapsto> (0xBB, 0)]\<rparr>)\<lparr>datagrams_received := [\<lparr>ttl = 64, dst = 0x08080808, checksum_ok = False, ip_payload = ''x''\<rparr>]\<rparr>]\<rparr>) =
     Some (fst (the (route ((the (add_route 0 0 None 0 (router_new [((network_interface_new 0xAA 0x0A000001)\<lparr>arp_table := [0x08080808 \<mapsto> (0xBB, 0)]\<rparr>)])))\<lparr>router_interfaces := [((network_interface_new 0xAA 0x0A000001)\<lparr>arp_table := [0x08080808 \<mapsto> (0xBB, 0)]\<rparr>)\<lparr>datagrams_received := [\<lparr>ttl = 64, dst = 0x08080808, checksum_ok = False, ip_payload = ''x''\<rparr>]\<rparr>]\<rparr>))),
           snd (the (route ((the (add_route 0 0 None 0 (router_new [((network_interface_new 0xAA 0x0A000001)\<lparr>arp_table := [0x08080808 \<mapsto> (0xBB, 0)]\<rparr>)])))\<lparr>router_interfaces := [((network_interface_new 0xAA 0x0A000001)\<lparr>arp_table := [0x08080808 \<mapsto> (0xBB, 0)]\<rparr>)\<lparr>datagrams_received := [\<lparr>ttl = 64, dst = 0x08080808, checksum_ok = False, ip_payload = ''x''\<rparr>]\<rparr>]\<rparr>)))) \<and>
   datagrams_received (router_interfaces (fst (the (route ((the (add_route 0 0 None 0 (router_new [((network_interface_new 0xAA 0x0A000001)\<lparr>arp_table := [0x08080808 \<mapsto> (0xBB, 0)]\<rparr>)])))\<lparr>router_interfaces := [((network_interface_new 0xAA 0x0A000001)\<lparr>arp_table := [0x08080808 \<mapsto> (0xBB, 0)]\<rparr>)\<lparr>datagrams_received := [\<lparr>ttl = 64, dst = 0x08080808, checksum_ok = False, ip_payload = ''x''\<rparr>]\<rparr>]\<rparr>)))) ! 0) = []"
proof -
  have r: "route ((the (add_route 0 0 None 0 (router_new [((network_interface_new 0xAA 0x0A000001)\<lparr>arp_table := [0x08080808 \<mapsto> (0xBB, 0)]\<rparr>)])))\<lparr>router_interfaces := [((network_interface_new 0xAA 0x0A000001)\<lparr>arp_table := [0x08080808 \<mapsto> (0xBB, 0)]\<rparr>)\<lparr>datagrams_received := [\<lparr>ttl = 64, dst = 0x08080808, checksum_ok = False, ip_payload = ''x''\<rparr>]\<rparr>]\<rparr>) =
     Some (fst (the (route ((the (add_route 0 0 None 0 (router_new [((network_interface_new 0xAA 0x0A000001)\<lparr>arp_table := [0x08080808 \<mapsto> (0xBB, 0)]\<rparr>)])))\<lparr>router_interfaces := [((network_interface_new 0xAA 0x0A000001)\<lparr>arp_table := [0x08080808 \<mapsto> (0xBB, 0)]\<rparr>)\<lparr>datagrams_received := [\<lparr>ttl = 64, dst = 0x08080808, checksum_ok = False, ip_payload = ''x''\<rparr>]\<rparr>]\<rparr>))),
           snd (the (route ((the (add_route 0 0 None 0 (router_new [((network_interface_new 0xAA 0x0A000001)\<lparr>arp_table := [0x08080808 \<mapsto> (0xBB, 0)]\<rparr>)])))\<lparr>router_interfaces := [((network_interface_new 0xAA 0x0A000001)\<lparr>arp_table := [0x08080808 \<mapsto> (0xBB, 0)]\<rparr>)\<lparr>datagrams_received := [\<lparr>ttl = 64, dst = 0x08080808, checksum_ok = False, ip_payload = ''x''\<rparr>]\<rparr>]\<rparr>))))"
    by code_simp
  have "length (router_interfaces (fst (the (route ((the (add_route 0 0 None 0 (router_new [((network_interface_new 0xAA 0x0A000001)\<lparr>arp_table := [0x08080808 \<mapsto> (0xBB, 0)]\<rparr>)])))\<lparr>router_interfaces := [((network_interface_new 0xAA 0x0A000001)\<lparr>arp_table := [0x08080808 \<mapsto> (0xBB, 0)]\<rparr>)\<lparr>datagrams_received := [\<lparr>ttl = 64, dst = 0x08080808, checksum_ok = False, ip_payload = ''x''\<rparr>]\<rparr>]\<rparr>))))) = 1"
    by code_simp
  then show ?thesis using r route_drains_all[OF r] by simp
qed

end
