(* ===== verification/Spec2Isabelle.thy ===== *)
theory Spec2Isabelle
  imports Conn_Transfer Router
begin

text \<open>
  \<^bold>\<open>A verification library for the minnow TCP/IP stack.\<close>

  The program (\<open>src/src/\<close>) is a user-space TCP/IP stack in C++: a bounded
  \<open>ByteStream\<close>; 32-bit sequence numbers \<open>Wrap32\<close>; a \<open>Reassembler\<close> that puts
  out-of-order substrings back in order; a \<open>TCPReceiver\<close> and a \<open>TCPSender\<close> (with its
  \<open>RetryTimer\<close>) that speak TCP segments; a \<open>NetworkInterface\<close> that carries IPv4
  datagrams in Ethernet frames and resolves next hops with ARP; and a \<open>Router\<close> that
  forwards datagrams between interfaces by longest-prefix match. The receiver writes into
  its reassembler, which writes into its output stream; the sender reads its input
  stream; the router calls \<open>send_datagram\<close> of its interfaces. Everything is single
  threaded: callers invoke operations in sequence and time advances only through
  \<open>tick\<close>. The model is a shallow embedding: each C++ class is a \<open>record\<close>, each method
  a function from the state (and arguments) to the new state, with the callbacks
  (\<open>transmit\<close>) turned into the list of messages or frames the operation sends.

  \<^bold>\<open>Theories and what they model.\<close>
  \<^item> \<open>Minnow_Prelude\<close>: machine word types (\<open>u32\<close>, \<open>u64\<close>, 48-bit Ethernet addresses),
    the fact collections \<open>word_to_nat\<close> and \<open>wf_preserved\<close>, shared lemmas on words
    and lists.
  \<^item> \<open>Wrapping_Integers\<close> (\<open>wrapping_integers.cc\<close>): \<open>wrap\<close> and \<open>unwrap\<close>
    on \<open>u32\<close>/\<open>u64\<close> with the code's masks and its two correction branches.
  \<^item> \<open>Byte_Stream\<close> (\<open>byte_stream.cc\<close>): the stream as a queue of pushed strings
    with a prefix offset into its front, the counters as \<open>nat\<close>; \<open>writer_push\<close>,
    \<open>writer_close\<close>, \<open>reader_peek\<close>, \<open>reader_pop\<close> (its loop \<open>pop_loop\<close>), \<open>set_error\<close>,
    and the accessors \<open>writer_is_closed\<close>, \<open>bytes_pushed\<close>, \<open>bytes_popped\<close>, \<open>bytes_buffered\<close>.
    The abstraction \<open>contents\<close> is the buffered byte string; \<open>bs_wf\<close> the invariant.
  \<^item> \<open>Reassembler\<close> (\<open>reassembler.cc\<close>): the \<open>std::map\<close> buffer as a sorted
    association list; \<open>reassembler_insert\<close> is composed of \<open>clip\<close> (the capacity and
    already-written cuts), \<open>store\<close> (\<open>split\<close>, erase of covered entries, insert),
    \<open>flush\<close> (write contiguous entries) and \<open>close_if_done\<close>, as the code's steps.
  \<^item> \<open>TCP_Messages\<close>: the segment records of section 6 of the spec.
  \<^item> \<open>TCP_Receiver\<close> (\<open>tcp_receiver.cc\<close>): \<open>tcp_receiver_receive\<close> with the 64-bit
    index arithmetic and \<open>tcp_receiver_send\<close>.
  \<^item> \<open>TCP_Sender\<close> (\<open>tcp_sender.hh\<close>, \<open>tcp_sender.cc\<close>): the \<open>RetryTimer\<close> methods
    and \<open>tcp_sender_push\<close> (outer loop \<open>push_loop\<close>, one segment \<open>make_segment\<close>
    with its fill loop \<open>fill_payload\<close>, \<open>send_segment\<close>), \<open>tcp_sender_receive\<close> with
    \<open>ack_loop\<close>, \<open>tcp_sender_tick\<close>, and the accessors \<open>sequence_numbers_in_flight\<close> and
    \<open>consecutive_retransmissions\<close>.
  \<^item> \<open>Network_Interface\<close> (\<open>network_interface.hh/.cc\<close>): \<open>send_datagram\<close>,
    \<open>recv_frame\<close> (\<open>recv_arp\<close>), \<open>ni_tick\<close> over partial maps.
  \<^item> \<open>Connection\<close>: a sender and a receiver joined back to back (the network between
    them is outside \<open>src/\<close>): the receiver's \<open>send\<close> gives the sender its window, the
    segments of \<open>push\<close> reach \<open>receive\<close> in order, the acknowledgement goes back. The
    component lemmas it rests on are \<open>receive_inserts\<close> (receiver),
    \<open>insert_in_order\<close> and \<open>insert_in_order_last\<close> (reassembler fast path, with and
    without the last substring), \<open>writer_push_appends\<close> (stream), and the segment flags
    in \<open>push_post\<close> (what a run of the push loop guarantees: one SYN first, a FIN at
    most on the last segment, \<open>FIN_sent\<close> set exactly when one went out) and
    \<open>receive_ack_everything\<close> (sender). In the theory, \<open>receive_in_order\<close> is one
    in-order segment at the receiver, \<open>receive_flight\<close> a run of them by induction.
  \<^item> \<open>Conn_Transfer\<close>: the rounds of a whole transfer as the repository's tests drive them
    (the harness is outside \<open>src/\<close>): \<open>conn_round\<close> is one \<open>push\<close>, in-order delivery
    of its segments with \<open>rcv_run\<close>, the application's \<open>Read\<close> of all that is buffered,
    and \<open>tcp_sender_receive\<close> of the receiver's \<open>send\<close>; \<open>conn_rounds n\<close> runs \<open>n\<close> of
    them, \<open>None\<close> if one does not return. The state carries what the application read.
  \<^item> \<open>Router\<close> (\<open>router.cc\<close>): \<open>add_route\<close>, the lookup \<open>longest_prefix_match\<close>
    (\<open>match_loop\<close>), \<open>route_datagram\<close>, \<open>route\<close>; \<open>lpm_ref\<close> is the lookup the spec
    describes, kept as a reference.

  Each component also has a run model: a datatype of the operations its callers may
  perform (\<open>bs_op\<close>, \<open>reasm_op\<close>, \<open>rcv_op\<close>, \<open>snd_op\<close>, \<open>ni_op\<close>) and a function running
  a list of them; invariants are proved for every run from the component's fresh
  state, by induction over the run with one preservation lemma per operation
  (collected in \<open>wf_preserved\<close>).

  \<^bold>\<open>What is proved\<close> (claim numbers C1--C40).
  \<^item> Sequence numbers: round trips (C1, C2), \<open>unwrap\<close> returns a closest
    representative (C3), and on a tie it returns the larger one (C4), which
    section 3 of the spec forbids.
  \<^item> Byte stream: the invariant over all runs, with \<open>bytes_buffered =
    bytes_pushed - bytes_popped \<le> capacity\<close> (C5); push and pop refine a FIFO of
    bytes (C6, C7); \<open>peek\<close> shows a nonempty prefix (C8); the counters only grow (C9).
  \<^item> Reassembler: the invariant (sorted, non-overlapping, inside the window,
    \<open>pending\<close> counts the stored bytes, closed exactly at the end) over all runs (C10);
    stored plus buffered bytes fit the capacity (C11); what is read followed by what is
    buffered is the sender's stream (C12); a substring reaching \<open>bytes_pushed\<close> is
    written at once (C13); a retransmitted last substring that was already written
    never closes the stream (C14, a defect).
  \<^item> Receiver: invariant over runs (C15); sequence number to stream index (C16);
    first SYN (C17); window bound (C18); the acknowledgement number round trip (C19);
    RST is sticky (C20).
  \<^item> Sender: invariant over runs, with in-flight equal to the outstanding sequence
    lengths and the timer running exactly while segments are outstanding (C21);
    \<open>push\<close> returns and its payloads are the input stream's bytes at consecutive
    sequence numbers (C22); it stays within the effective window (C23) and stops only
    when blocked (C24); the window claim of spec section 8 fails after the window
    shrinks (C25); \<open>push\<close> ignores the error flag, against spec section 7 (C26);
    cumulative acknowledgement (C27); an acknowledgement beyond \<open>next_seq_number\<close> is
    dropped (C28); retransmission and backoff on expiry (C29) (the spec's scenarios 4
    and 5, zero-window probe and backoff, are \<open>sender_scenarios_probe_backoff\<close>); the
    fill loop of \<open>push\<close> returns on every well-formed stream and pops
    exactly the bytes it appends (C39, termination).
  \<^item> Connection: a fresh sender over any error-free stream, open or already closed,
    and a fresh receiver exchange a first flight: the receiver writes exactly the bytes
    the sender took from its stream, closes its stream exactly when the sender sent its
    FIN, acknowledges the sender's \<open>next_seq_number\<close>, and the acknowledgement empties
    the sender's queue (C31).
  \<^item> Conn_Transfer: over an error-free closed stream of \<open>k\<close> bytes and a receiver of
    nonzero capacity whose application reads everything, \<open>k + 2\<close> rounds finish the
    transfer: every round returns, the application has read exactly the sender's
    bytes, the receiver's stream is finished, the FIN is sent and acknowledged (C30,
    liveness). The invariant between rounds is \<open>conn_inv\<close>; \<open>later_round\<close> shows a round
    keeps it and lowers \<open>conn_left\<close> (bytes still held plus the FIN) while it is not zero,
    because \<open>push\<close> stops only when the window is full or the FIN is sent and the window
    is at least one sequence number; \<open>first_round\<close> covers the SYN.
  \<^item> Network interface: invariant over runs (C32); ARP requests for one address
    are at least 5000 ms apart in every run (C33); queued datagrams cost one request
    and go out in order when the reply comes (C34); every transmitted frame is well typed:
    own source address, the EtherType of its payload, well-formed ARP requests and
    replies (C40, \<open>frame_ok\<close>).
  \<^item> Router: the lookup is longest-prefix match of \<open>dst >> 1\<close> (C35), so spec
    scenario 7 routes 10.1.2.3 and 10.2.2.2 through the default route (C36, a defect);
    TTL handling (C37); \<open>route\<close> drains every queue (C38).

  \<^bold>\<open>Widths, loops and bounds.\<close> \<open>Wrap32\<close>, the sender's counters, the timer fields,
  window sizes and addresses are words of their C++ width, so additions wrap as in the
  code (\<open>apply_exponential_backoff\<close> is \<open>push_bit 1\<close> on \<open>u64\<close>). The byte-stream and
  reassembler counters and stream indices are \<open>nat\<close>: they count bytes moved through
  memory and stay far below \<open>2^64\<close>; the receiver converts its \<open>u64\<close> index with
  \<open>unat\<close>. The \<open>TimeoutTracker\<close> counters are \<open>nat\<close> for the same reason. The sender's
  two loops are \<open>partial_function (option)\<close> (a loop that does not end would be
  \<open>None\<close>); that they end on a well-formed input stream is part of C22 and, for the
  fill loop with the exact count of bytes it pops, C39: the measure is \<open>bytes_buffered\<close>,
  which every iteration lowers because \<open>peek\<close> shows a nonempty prefix (C8). The rounds
  of a transfer (\<open>Conn_Transfer\<close>) are fuelled (\<open>conn_rounds n\<close>); \<open>k + 2\<close> rounds are enough for \<open>k\<close>
  bytes because the first round sends the SYN and every later one at least one byte or
  the FIN: the effective window is at least one, and the receiver, read empty, has
  room for a full window when its capacity is nonzero. Every other loop is structural
  recursion. Out-of-range indexing and reading the front of an
  empty queue, undefined behaviour in C++, are \<open>None\<close>.

  \<^bold>\<open>Not modelled.\<close> The codecs of Ethernet, IPv4, ARP and TCP segments and the
  classes \<open>Address\<close>, \<open>EthernetFrame\<close>, \<open>InternetDatagram\<close> (outside \<open>src/\<close>): frames
  carry a payload datatype whose parse inverts serialize, and the IPv4 checksum is a
  flag that \<open>compute_checksum\<close> sets. \<open>OutputPort\<close> is the list of frames returned.
  Interface names and debug printing have no effect on state and are left out.
\<close>

end
